(* ===== verification/Prelude.thy ===== *)
theory Prelude
  imports Main "HOL-Library.Word" "HOL-Library.Monad_Syntax"
begin

text \<open>
  Shared vocabulary of the development.

  \<^item> C integers: values are mathematical integers, and every conversion to a narrower C type
    that the source performs is written out with the wrap functions below.
  \<^item> C memory: an array or an allocated block is the list of its bytes; every read and write goes
    through an operation that checks the bounds, and \<open>None\<close> is undefined behaviour of the
    program (an access outside the block, a null dereference, a copy of negative length).
  \<^item> Loops that scan for a separator byte, and the list function that says what they find.
\<close>

section \<open>Collections of facts\<close>

named_theorems c_int \<open>wrap functions of C integers on values in range\<close>
named_theorems blk_simps \<open>bounds-checked accesses that stay inside their block\<close>


section \<open>C integers\<close>

type_synonym byte = "8 word"

definition uint8 :: "int \<Rightarrow> int" where
  "uint8 x = x mod 256"

definition uint16 :: "int \<Rightarrow> int" where
  "uint16 x = x mod 65536"

definition int16 :: "int \<Rightarrow> int" where
  "int16 x = (x + 32768) mod 65536 - 32768"

definition uint32 :: "int \<Rightarrow> int" where
  "uint32 x = x mod 4294967296"

definition int32 :: "int \<Rightarrow> int" where
  "int32 x = (x + 2147483648) mod 4294967296 - 2147483648"

lemma uint8_id [c_int]: "0 \<le> x \<Longrightarrow> x < 256 \<Longrightarrow> uint8 x = x"
  by (simp add: uint8_def)

lemma uint16_id [c_int]: "0 \<le> x \<Longrightarrow> x < 65536 \<Longrightarrow> uint16 x = x"
  by (simp add: uint16_def)

lemma int16_id [c_int]: "-32768 \<le> x \<Longrightarrow> x < 32768 \<Longrightarrow> int16 x = x"
  by (simp add: int16_def)

lemma uint32_id [c_int]: "0 \<le> x \<Longrightarrow> x < 4294967296 \<Longrightarrow> uint32 x = x"
  by (simp add: uint32_def)

lemma int32_id [c_int]: "-2147483648 \<le> x \<Longrightarrow> x < 2147483648 \<Longrightarrow> int32 x = x"
  by (simp add: int32_def)

lemma uint8_range: "0 \<le> uint8 x" "uint8 x < 256"
  by (simp_all add: uint8_def)

lemma uint16_range: "0 \<le> uint16 x" "uint16 x < 65536"
  by (simp_all add: uint16_def)

lemma int16_range: "-32768 \<le> int16 x" "int16 x < 32768"
  by (simp_all add: int16_def)

lemma int32_nonzero:
  assumes "0 < x" "x < 4294967296"
  shows "int32 x \<noteq> 0"
proof (cases "x < 2147483648")
  case True
  with assms show ?thesis by (simp add: int32_id)
next
  case False
  then have "(x + 2147483648) mod 4294967296 = (x - 2147483648) mod 4294967296"
    using mod_add_self2 [of "x - 2147483648" 4294967296] by (simp add: add.commute)
  also have "\<dots> = x - 2147483648"
    using False assms by simp
  finally show ?thesis
    using assms by (simp add: int32_def)
qed


section \<open>Bytes of 16-bit values\<close>

text \<open>Both machines are little endian: \<open>*((uint16_t *)p)\<close> reads and writes the low byte first.\<close>

definition load_u16 :: "byte \<Rightarrow> byte \<Rightarrow> int" where
  "load_u16 lo hi = uint lo + 256 * uint hi"

definition load_i16 :: "byte \<Rightarrow> byte \<Rightarrow> int" where
  "load_i16 lo hi = int16 (load_u16 lo hi)"

definition store_u16 :: "int \<Rightarrow> byte list" where
  "store_u16 x = [word_of_int x, word_of_int (x div 256)]"

lemma length_store_u16 [simp]: "length (store_u16 x) = 2"
  by (simp add: store_u16_def)

lemma uint_byte_range: "0 \<le> uint (b :: byte)" "uint (b :: byte) < 256"
  using uint_lt2p [of b] by simp_all

lemma load_u16_range: "0 \<le> load_u16 lo hi" "load_u16 lo hi < 65536"
  using uint_byte_range [of lo] uint_byte_range [of hi] by (simp_all add: load_u16_def)

lemma uint_word_of_int_byte: "uint (word_of_int x :: byte) = x mod 256"
  by (simp add: uint_word_of_int)

lemma load_u16_store [simp]:
  "load_u16 (word_of_int x) (word_of_int (x div 256)) = uint16 x"
proof -
  have "x mod 256 + 256 * (x div 256 mod 256) = x mod 65536"
    using mod_mult2_eq' [of x 256 256] by simp
  then show ?thesis
    by (simp add: load_u16_def uint16_def uint_word_of_int_byte)
qed

lemma load_i16_store [simp]:
  "load_i16 (word_of_int x) (word_of_int (x div 256)) = int16 x"
  by (simp add: load_i16_def int16_def uint16_def mod_add_left_eq)


section \<open>Memory blocks\<close>

definition blk_read :: "byte list \<Rightarrow> int \<Rightarrow> int \<Rightarrow> byte list option" where
  "blk_read blk off n =
     (if 0 \<le> off \<and> 0 \<le> n \<and> off + n \<le> int (length blk)
      then Some (take (nat n) (drop (nat off) blk)) else None)"

definition blk_get :: "byte list \<Rightarrow> int \<Rightarrow> byte option" where
  "blk_get blk off =
     (if 0 \<le> off \<and> off < int (length blk) then Some (blk ! nat off) else None)"

definition blk_write :: "byte list \<Rightarrow> int \<Rightarrow> byte list \<Rightarrow> byte list option" where
  "blk_write blk off bs =
     (if 0 \<le> off \<and> off + int (length bs) \<le> int (length blk)
      then Some (take (nat off) blk @ bs @ drop (nat off + length bs) blk) else None)"

definition blk_move :: "byte list \<Rightarrow> int \<Rightarrow> int \<Rightarrow> int \<Rightarrow> byte list option" where
  \<comment> \<open>\<open>memmove(blk + dst, blk + src, n)\<close>\<close>
  "blk_move blk dst src n = do { bs \<leftarrow> blk_read blk src n; blk_write blk dst bs }"

lemma length_blk_write: "blk_write blk off bs = Some blk' \<Longrightarrow> length blk' = length blk"
  by (auto simp: blk_write_def split: if_splits)

lemma length_blk_read: "blk_read blk off n = Some bs \<Longrightarrow> int (length bs) = n"
  by (auto simp: blk_read_def split: if_splits)

lemma blk_get_prefix [blk_simps]:
  "blk = p @ b # q \<Longrightarrow> off = int (length p) \<Longrightarrow> blk_get blk off = Some b"
  by (simp add: blk_get_def)

text \<open>A write just behind a prefix of the block extends the prefix.\<close>

lemma blk_write_end:
  assumes "0 \<le> off" "off + int (length bs) \<le> int (length blk)"
  shows "\<exists>blk'. blk_write blk off bs = Some blk' \<and> length blk' = length blk \<and>
           take (nat (off + int (length bs))) blk' = take (nat off) blk @ bs"
proof -
  have "nat (off + int (length bs)) = nat off + length bs"
    using assms(1) by simp
  moreover have "nat off + length bs \<le> length blk"
    using assms by linarith
  ultimately show ?thesis
    using assms by (simp add: blk_write_def)
qed

text \<open>\<open>memmove\<close> of the tail of a prefix to the front of the block.\<close>

lemma blk_move_front:
  assumes "0 \<le> k" "k \<le> n" "n \<le> int (length blk)"
  shows "\<exists>blk'. blk_move blk 0 k (n - k) = Some blk' \<and> length blk' = length blk \<and>
           take (nat (n - k)) blk' = drop (nat k) (take (nat n) blk)"
proof -
  let ?bs = "take (nat (n - k)) (drop (nat k) blk)"
  have len: "length ?bs = nat (n - k)"
    using assms by simp
  have "?bs = drop (nat k) (take (nat n) blk)"
    using assms by (simp add: drop_take nat_diff_distrib)
  moreover have "blk_move blk 0 k (n - k) = Some (?bs @ drop (nat (n - k)) blk)"
    using assms len by (simp add: blk_move_def blk_read_def blk_write_def)
  moreover have "length (?bs @ drop (nat (n - k)) blk) = length blk"
    using assms len by simp
  moreover have "take (nat (n - k)) (?bs @ drop (nat (n - k)) blk) = ?bs"
    using len by simp
  ultimately show ?thesis by metis
qed


section \<open>Scanning for a separator\<close>

text \<open>
  The source looks for a separator with \<open>for (i = from; i < n;) if (buf[i++] == c) ...\<close>:
  the index just behind the first separator at or after \<open>from\<close>, if there is one.
\<close>

function scan :: "byte list \<Rightarrow> byte \<Rightarrow> int \<Rightarrow> int \<Rightarrow> int option option" where
  "scan blk c i n =
     (if i < n
      then do {
        b \<leftarrow> blk_get blk i;
        if b = c then Some (Some (i + 1)) else scan blk c (i + 1) n }
      else Some None)"
  by pat_completeness auto
termination
  by (relation "measure (\<lambda>(blk, c, i, n). nat (n - i))") auto

declare scan.simps [simp del]

primrec after_split :: "byte \<Rightarrow> byte list \<Rightarrow> byte list option" where
  "after_split c [] = None"
| "after_split c (b # bs) = (if b = c then Some bs else after_split c bs)"

lemma after_split_None_iff: "after_split c bs = None \<longleftrightarrow> c \<notin> set bs"
  by (induction bs) auto

lemma after_split_skip: "c \<notin> set p \<Longrightarrow> after_split c (p @ c # q) = Some q"
  by (induction p) auto

lemma after_split_append:
  "after_split c (p @ q) =
     (case after_split c p of None \<Rightarrow> after_split c q | Some t \<Rightarrow> Some (t @ q))"
  by (induction p) auto

lemma after_split_SomeD: "after_split c bs = Some t \<Longrightarrow> \<exists>p. bs = p @ c # t \<and> c \<notin> set p"
proof (induction bs)
  case Nil
  then show ?case by simp
next
  case (Cons b bs)
  show ?case
  proof (cases "b = c")
    case True
    with Cons.prems have "b # bs = [] @ c # t" by simp
    then show ?thesis by fastforce
  next
    case False
    with Cons obtain p where "bs = p @ c # t" "c \<notin> set p" by auto
    with False have "b # bs = (b # p) @ c # t" "c \<notin> set (b # p)" by auto
    then show ?thesis by blast
  qed
qed

lemma after_split_shorter: "after_split c bs = Some t \<Longrightarrow> length t < length bs"
  by (auto dest!: after_split_SomeD)

lemma scan_window:
  assumes "0 \<le> i" "n \<le> int (length blk)"
  shows "scan blk c i n =
    Some (map_option (\<lambda>t. n - int (length t)) (after_split c (drop (nat i) (take (nat n) blk))))"
  using assms
proof (induction blk c i n rule: scan.induct)
  case (1 blk c i n)
  show ?case
  proof (cases "i < n")
    case True
    with "1.prems" have i: "nat i < length blk" "nat i < nat n" "nat (i + 1) = Suc (nat i)"
      by auto
    then have get: "blk_get blk i = Some (blk ! nat i)"
      using "1.prems" by (simp add: blk_get_def)
    have win: "drop (nat i) (take (nat n) blk) = blk ! nat i # drop (Suc (nat i)) (take (nat n) blk)"
      using i by (subst Cons_nth_drop_Suc [symmetric]) auto
    show ?thesis
    proof (cases "blk ! nat i = c")
      case True
      moreover have "int (length (drop (Suc (nat i)) (take (nat n) blk))) = n - (i + 1)"
      proof -
        have "length (drop (Suc (nat i)) (take (nat n) blk)) = nat n - Suc (nat i)"
          using "1.prems" by simp
        with i "1.prems" \<open>i < n\<close> show ?thesis by linarith
      qed
      ultimately show ?thesis
        using \<open>i < n\<close> get win by (simp add: scan.simps [of blk c i n])
    next
      case False
      with True get have "scan blk c i n = scan blk c (i + 1) n"
        by (simp add: scan.simps [of blk c i n])
      also have "\<dots> = Some (map_option (\<lambda>t. n - int (length t))
                   (after_split c (drop (nat (i + 1)) (take (nat n) blk))))"
        using "1.IH" [OF True get False] "1.prems" by simp
      finally show ?thesis
        using win False i by simp
    qed
  next
    case False
    then show ?thesis
      using "1.prems" by (simp add: scan.simps [of blk c i n])
  qed
qed


section \<open>Formatted output\<close>

text \<open>
  \<open>snprintf(blk + off, n, ...)\<close> for a format that yields \<open>text\<close>: at most \<open>n - 1\<close> bytes and a
  terminating zero are written, and the full length of the text is returned. A size above \<open>INT_MAX\<close>
  (a wrapped-around \<open>size_t\<close>) is refused with 0, as the kernel does.
\<close>

definition snprintf :: "byte list \<Rightarrow> int \<Rightarrow> int \<Rightarrow> byte list \<Rightarrow> (int \<times> byte list) option" where
  "snprintf blk off n text =
     (if n > 2147483647 then Some (0, blk)
      else if n = 0 then Some (int (length text), blk)
      else do {
        blk' \<leftarrow> blk_write blk off (take (nat (n - 1)) text @ [0]);
        Some (int (length text), blk') })"

definition hex_digit :: "int \<Rightarrow> byte" where
  "hex_digit n = word_of_int (if n < 10 then 0x30 + n else 0x37 + n)"

definition hex_byte :: "byte \<Rightarrow> byte list" where
  \<comment> \<open>the format \<^verbatim>\<open>0x%02X,\<close> on an unsigned character\<close>
  "hex_byte b = [0x30, 0x78, hex_digit (uint b div 16), hex_digit (uint b mod 16), 0x2c]"

lemma length_hex_byte [simp]: "length (hex_byte b) = 5"
  by (simp add: hex_byte_def)

lemma blk_write_prefix:
  \<comment> \<open>a write behind a known prefix of the block\<close>
  assumes "take (length p) blk = p" "length p + length bs \<le> length blk" "off = int (length p)"
  shows "\<exists>blk'. blk_write blk off bs = Some blk' \<and> length blk' = length blk \<and>
           take (length p + length bs) blk' = p @ bs"
  using blk_write_end [of off bs blk] assms by (auto simp: nat_int_add)

lemma snprintf_fits:
  assumes "take (length p) blk = p" "off = int (length p)" "length p + length text < length blk"
    "n = int (length blk) - off" "length blk < 2147483648"
  shows "\<exists>blk'. snprintf blk off n text = Some (int (length text), blk') \<and>
    length blk' = length blk \<and> take (length p + length text) blk' = p @ text"
proof -
  have "length text < nat n"
    using assms(2,3,4) by linarith
  then have tk: "take (nat (n - 1)) text = text"
    by (intro take_all) linarith
  obtain blk' where blk': "blk_write blk off (text @ [0]) = Some blk'" "length blk' = length blk"
    and whole: "take (length p + length (text @ [0])) blk' = p @ text @ [0]"
    using blk_write_prefix [of p blk "text @ [0]" off] assms by auto
  have "take (length p + length text) blk' =
      take (length p + length text) (take (length p + length (text @ [0])) blk')"
    by (simp add: min_def)
  also have "\<dots> = p @ text"
    by (simp only: whole) simp
  finally have "take (length p + length text) blk' = p @ text" .
  then show ?thesis
    using assms tk blk' by (simp add: snprintf_def)
qed

end
