(* ===== verification/Frames.thy ===== *)
theory Frames
  imports Prelude
begin

text \<open>
  The serial link: the constants of the two \<open>common.h\<close> files, the wire format
  \<^verbatim>\<open>[2 byte length][n byte data][1 byte split]\<close>, and the abstract receiver every state machine
  of the program implements. The abstract receiver is a function on byte streams: it reads the next
  frame of a stream, and after a length or a split byte it cannot accept it hunts for the next
  separator. Its laws say that it does not matter in how many pieces a stream arrives.
\<close>

section \<open>Constants of \<open>common.h\<close>\<close>

definition SPLIT_DATA :: byte where "SPLIT_DATA = 0x55"

definition SPLIT_CMD :: byte where "SPLIT_CMD = 0xaa"

definition MTU_LEN :: int where "MTU_LEN = 1500"

definition MAX_FRAME_LEN :: int where "MAX_FRAME_LEN = 2 + MTU_LEN + 1"

definition UART_FIFO_LEN :: int where "UART_FIFO_LEN = 128"

definition WPA_MAX_SSID_LEN :: int where "WPA_MAX_SSID_LEN = 32"

definition WPA_MAX_PASSWD_LEN :: int where "WPA_MAX_PASSWD_LEN = 64"

datatype status = STATUS_LEN | STATUS_DATA | STATUS_SPLIT

lemmas link_consts = SPLIT_DATA_def SPLIT_CMD_def MTU_LEN_def MAX_FRAME_LEN_def UART_FIFO_LEN_def
  WPA_MAX_SSID_LEN_def WPA_MAX_PASSWD_LEN_def


section \<open>The wire format\<close>

definition mk_frame :: "byte \<Rightarrow> byte list \<Rightarrow> byte list" where
  "mk_frame c d = store_u16 (int (length d)) @ d @ [c]"

lemma length_mk_frame [simp]: "length (mk_frame c d) = length d + 3"
  by (simp add: mk_frame_def)

lemma mk_frame_nonempty [simp]: "mk_frame c d \<noteq> []"
  by (simp add: mk_frame_def store_u16_def)

lemma last_mk_frame [simp]: "last (mk_frame c d) = c"
  by (simp add: mk_frame_def)


section \<open>The abstract receiver\<close>

text \<open>
  A format says which lengths and which complete frames a receiver accepts, and at which byte it
  resynchronises.
\<close>

record frame_fmt =
  ok_len :: "int \<Rightarrow> bool"
  ok_frame :: "byte list \<Rightarrow> bool"
  sep :: byte

datatype mode = Sync | Hunt

text \<open>\<open>Frame d r\<close>: the payload of the next frame and what follows it.
  \<open>More m l\<close>: the stream ended first; \<open>l\<close> is what has to be kept.\<close>

datatype scan_result = Frame "byte list" "byte list" | More mode "byte list"

definition hdr :: "byte list \<Rightarrow> int" where
  "hdr s = load_i16 (s ! 0) (s ! 1)"

function (sequential) next_frame :: "frame_fmt \<Rightarrow> mode \<Rightarrow> byte list \<Rightarrow> scan_result" where
  "next_frame F Hunt s =
     (case after_split (sep F) s of
        None \<Rightarrow> More Hunt []
      | Some t \<Rightarrow> next_frame F Sync t)"
| "next_frame F Sync s =
     (if length s < 2 then More Sync s
      else if \<not> (ok_len F (hdr s) \<and> 0 \<le> hdr s) then next_frame F Hunt s
      else if int (length s) < hdr s + 3 then More Sync s
      else if ok_frame F (take (nat (hdr s + 3)) s)
        then Frame (take (nat (hdr s)) (drop 2 s)) (drop (nat (hdr s + 3)) s)
      else next_frame F Hunt s)"
  by pat_completeness auto
termination
  by (relation "measures [\<lambda>(F, m, s). length s, \<lambda>(F, m, s). (case m of Sync \<Rightarrow> 1 | Hunt \<Rightarrow> 0)]")
    (auto dest: after_split_shorter)

declare next_frame.simps [simp del]

lemmas next_frame_Hunt = next_frame.simps(1)

lemma hdr_append [simp]: "2 \<le> length s \<Longrightarrow> hdr (s @ t) = hdr s"
  by (auto simp: hdr_def nth_append)

lemma hdr_mk_frame [simp]: "length d < 32768 \<Longrightarrow> hdr (mk_frame c d) = int (length d)"
  using load_i16_store [of "int (length d)"] by (simp add: hdr_def mk_frame_def store_u16_def int16_id)

text \<open>In \<open>Sync\<close> a stream starts with a complete frame, with a framing error, or with too little
  to tell; the first two do not depend on what follows.\<close>

definition full_at :: "frame_fmt \<Rightarrow> byte list \<Rightarrow> bool" where
  "full_at F s \<longleftrightarrow> 2 \<le> length s \<and> ok_len F (hdr s) \<and> 0 \<le> hdr s \<and> hdr s + 3 \<le> int (length s) \<and>
     ok_frame F (take (nat (hdr s + 3)) s)"

definition bad_at :: "frame_fmt \<Rightarrow> byte list \<Rightarrow> bool" where
  "bad_at F s \<longleftrightarrow> 2 \<le> length s \<and> (\<not> (ok_len F (hdr s) \<and> 0 \<le> hdr s) \<or>
     hdr s + 3 \<le> int (length s) \<and> \<not> ok_frame F (take (nat (hdr s + 3)) s))"

lemma next_frame_Sync:
  "next_frame F Sync s =
     (if full_at F s then Frame (take (nat (hdr s)) (drop 2 s)) (drop (nat (hdr s + 3)) s)
      else if bad_at F s then next_frame F Hunt s else More Sync s)"
  by (auto simp: next_frame.simps(2) [of F s] full_at_def bad_at_def)

lemma full_at_append: "full_at F s \<Longrightarrow> full_at F (s @ t)"
  by (auto simp: full_at_def nat_le_iff)

lemma bad_at_append: "bad_at F s \<Longrightarrow> bad_at F (s @ t)"
  by (auto simp: bad_at_def nat_le_iff)

lemma bad_not_full: "bad_at F s \<Longrightarrow> \<not> full_at F s"
  by (auto simp: bad_at_def full_at_def)

lemma full_at_drop:
  assumes "full_at F s"
  shows "take (nat (hdr (s @ t))) (drop 2 (s @ t)) = take (nat (hdr s)) (drop 2 s)"
    and "drop (nat (hdr (s @ t) + 3)) (s @ t) = drop (nat (hdr s + 3)) s @ t"
proof -
  from assms have "2 \<le> length s" "nat (hdr s) + 3 \<le> length s" "nat (hdr s + 3) = nat (hdr s) + 3"
    by (auto simp: full_at_def)
  then show "take (nat (hdr (s @ t))) (drop 2 (s @ t)) = take (nat (hdr s)) (drop 2 s)"
    and "drop (nat (hdr (s @ t) + 3)) (s @ t) = drop (nat (hdr s + 3)) s @ t"
    by auto
qed

lemma full_at_shorter: "full_at F s \<Longrightarrow> length (drop (nat (hdr s + 3)) s) < length s"
  by (auto simp: full_at_def)

lemma next_frame_Frame_shorter: "next_frame F m s = Frame d r \<Longrightarrow> length r < length s"
proof (induction F m s rule: next_frame.induct)
  case (1 F s)
  then show ?case
    by (auto simp: next_frame_Hunt [of F s] split: option.splits dest!: after_split_shorter)
next
  case (2 F s)
  show ?case
  proof (cases "full_at F s")
    case True
    with "2.prems" full_at_shorter [OF this] show ?thesis by (auto simp: next_frame_Sync [of F s])
  next
    case False
    with "2.prems" have "bad_at F s" "next_frame F Hunt s = Frame d r"
      by (auto simp: next_frame_Sync [of F s] split: if_splits)
    with "2.IH" show ?thesis
      by (cases "ok_len F (hdr s) \<and> 0 \<le> hdr s") (auto simp: bad_at_def)
  qed
qed

text \<open>More input never changes a frame that is already complete, and what was kept is enough to
  go on from.\<close>

lemma next_frame_append:
  "next_frame F m (s @ t) =
     (case next_frame F m s of
        Frame d r \<Rightarrow> Frame d (r @ t)
      | More m' l \<Rightarrow> next_frame F m' (l @ t))"
proof (induction F m s rule: next_frame.induct)
  case (1 F s)
  then show ?case
    by (auto simp: next_frame_Hunt [of F s] next_frame_Hunt [of F "s @ t"] next_frame_Hunt [of F t]
        after_split_append split: option.splits)
next
  case (2 F s)
  consider "full_at F s" | "bad_at F s" | "\<not> full_at F s" "\<not> bad_at F s" by blast
  then show ?case
  proof cases
    case 1
    with full_at_append [OF 1, of t] full_at_drop [OF 1, of t] show ?thesis
      by (simp add: next_frame_Sync)
  next
    case 2
    then have "next_frame F Sync s = next_frame F Hunt s"
      "next_frame F Sync (s @ t) = next_frame F Hunt (s @ t)"
      using bad_at_append [of F s t] by (simp_all add: next_frame_Sync bad_not_full)
    moreover from 2 "2.IH" have "next_frame F Hunt (s @ t) =
        (case next_frame F Hunt s of Frame d r \<Rightarrow> Frame d (r @ t) | More m' l \<Rightarrow> next_frame F m' (l @ t))"
      by (cases "ok_len F (hdr s) \<and> 0 \<le> hdr s") (auto simp: bad_at_def)
    ultimately show ?thesis by simp
  next
    case 3
    then show ?thesis by (simp add: next_frame_Sync [of F s])
  qed
qed

lemma next_frame_More_residue: "next_frame F m s = More m' l \<Longrightarrow> next_frame F m' l = More m' l"
  using next_frame_append [of F m s "[]"] by simp

lemma full_at_mk_frame:
  assumes "ok_len F (int (length d))" "length d < 32768" "ok_frame F (mk_frame c d)"
  shows "full_at F (mk_frame c d)"
proof -
  have "nat (int (length d) + 3) = length (mk_frame c d)"
    by simp
  then have "take (nat (int (length d) + 3)) (mk_frame c d) = mk_frame c d"
    by (simp only: take_all)
  then show ?thesis
    using assms by (simp add: full_at_def)
qed

lemma next_frame_mk_frame:
  assumes "ok_len F (int (length d))" "length d < 32768" "ok_frame F (mk_frame c d)"
  shows "next_frame F Sync (mk_frame c d @ r) = Frame d r"
proof -
  have full: "full_at F (mk_frame c d)"
    using assms by (rule full_at_mk_frame)
  have "take (length d) (drop 2 (mk_frame c d)) = d"
    by (simp add: mk_frame_def store_u16_def)
  moreover have "nat (int (length d) + 3) = length d + 3"
    by simp
  ultimately show ?thesis
    using assms full full_at_append [OF full, of r] full_at_drop [OF full, of r]
    by (simp add: next_frame_Sync)
qed


subsection \<open>All frames of a stream\<close>

function payloads :: "frame_fmt \<Rightarrow> mode \<Rightarrow> byte list \<Rightarrow> byte list list" where
  "payloads F m s =
     (case next_frame F m s of Frame d r \<Rightarrow> d # payloads F Sync r | More m' l \<Rightarrow> [])"
  by pat_completeness auto
termination
  by (relation "measure (\<lambda>(F, m, s). length s)") (auto dest: next_frame_Frame_shorter)

function residue :: "frame_fmt \<Rightarrow> mode \<Rightarrow> byte list \<Rightarrow> mode \<times> byte list" where
  "residue F m s =
     (case next_frame F m s of Frame d r \<Rightarrow> residue F Sync r | More m' l \<Rightarrow> (m', l))"
  by pat_completeness auto
termination
  by (relation "measure (\<lambda>(F, m, s). length s)") (auto dest: next_frame_Frame_shorter)

declare payloads.simps [simp del] residue.simps [simp del]

lemma payloads_cong:
  "next_frame F m s = next_frame F m' s' \<Longrightarrow> payloads F m (s @ t) = payloads F m' (s' @ t)"
  by (simp add: payloads.simps [of F m] payloads.simps [of F m'] next_frame_append)

text \<open>Chunking does not matter: reading a stream in two pieces gives the same payloads.\<close>

lemma payloads_append:
  "payloads F m (s @ t) =
     payloads F m s @ payloads F (fst (residue F m s)) (snd (residue F m s) @ t)"
proof (induction F m s rule: payloads.induct)
  case (1 F m s)
  show ?case
  proof (cases "next_frame F m s")
    case (Frame d r)
    with "1.IH" [OF Frame] show ?thesis
      by (simp add: payloads.simps [of F m] residue.simps [of F m s] next_frame_append [of F m s t])
  next
    case (More m' l)
    then show ?thesis
      by (simp add: payloads.simps [of F m] payloads.simps [of F m' "l @ t"]
          residue.simps [of F m s] next_frame_append [of F m s t])
  qed
qed

lemma residue_append:
  "residue F m (s @ t) = residue F (fst (residue F m s)) (snd (residue F m s) @ t)"
proof (induction F m s rule: residue.induct)
  case (1 F m s)
  show ?case
  proof (cases "next_frame F m s")
    case (Frame d r)
    with "1.IH" [OF Frame] show ?thesis
      by (simp add: residue.simps [of F m] next_frame_append [of F m s t])
  next
    case (More m' l)
    then show ?thesis
      by (simp add: residue.simps [of F m] residue.simps [of F m' "l @ t"] next_frame_append [of F m s t])
  qed
qed

lemma payloads_frames:
  assumes "\<And>d. d \<in> set ds \<Longrightarrow> ok_len F (int (length d)) \<and> length d < 32768 \<and> ok_frame F (mk_frame c d)"
  shows "payloads F Sync (concat (map (mk_frame c) ds) @ t) = ds @ payloads F Sync t"
  using assms
proof (induction ds)
  case Nil
  then show ?case by simp
next
  case (Cons d ds)
  then have "next_frame F Sync (mk_frame c d @ concat (map (mk_frame c) ds) @ t) =
      Frame d (concat (map (mk_frame c) ds) @ t)"
    by (intro next_frame_mk_frame) auto
  with Cons show ?case
    by (simp add: payloads.simps [of F Sync])
qed


subsection \<open>Streams without a framing error\<close>

function clean :: "frame_fmt \<Rightarrow> byte list \<Rightarrow> bool" where
  "clean F s =
     (if full_at F s then clean F (drop (nat (hdr s + 3)) s) else \<not> bad_at F s)"
  by pat_completeness auto
termination
  by (relation "measure (\<lambda>(F, s). length s)") (simp_all only: wf_measure full_at_shorter
      in_measure split_conv)

declare clean.simps [simp del]

lemma clean_Nil [simp]: "clean F []"
  by (simp add: clean.simps full_at_def bad_at_def)

lemma clean_mk_frame:
  assumes "ok_len F (int (length d))" "length d < 32768" "ok_frame F (mk_frame c d)"
  shows "clean F (mk_frame c d @ r) = clean F r"
proof -
  have full: "full_at F (mk_frame c d)"
    using assms by (rule full_at_mk_frame)
  have "nat (int (length d) + 3) = length d + 3"
    by simp
  then show ?thesis
    using assms full_at_append [OF full, of r] full_at_drop [OF full, of r]
    by (simp add: clean.simps [of F "mk_frame c d @ r"])
qed

lemma clean_frames:
  assumes "\<And>d. d \<in> set ds \<Longrightarrow> ok_len F (int (length d)) \<and> length d < 32768 \<and> ok_frame F (mk_frame c d)"
  shows "clean F (concat (map (mk_frame c) ds) @ t) = clean F t"
  using assms by (induction ds) (simp_all add: clean_mk_frame)

text \<open>Every prefix of a clean stream is clean, and so is the rest of it behind what a receiver
  has taken.\<close>

lemma clean_prefix: "clean F (s @ t) \<Longrightarrow> clean F s"
proof (induction F s rule: clean.induct)
  case (1 F s)
  show ?case
  proof (cases "full_at F s")
    case True
    with "1.prems" full_at_append [OF True, of t] full_at_drop [OF True, of t]
    have "clean F (drop (nat (hdr s + 3)) s @ t)"
      by (simp add: clean.simps [of F "s @ t"])
    with "1.IH" True show ?thesis by (simp add: clean.simps [of F s])
  next
    case False
    moreover have "\<not> bad_at F s"
      using "1.prems" bad_at_append [of F s t] bad_not_full [of F "s @ t"]
      by (auto simp: clean.simps [of F "s @ t"])
    ultimately show ?thesis by (simp add: clean.simps [of F s])
  qed
qed

lemma clean_next:
  assumes "clean F s"
  shows "(case next_frame F Sync s of
            Frame d r \<Rightarrow> clean F r
          | More m l \<Rightarrow> m = Sync \<and> l = s)"
  using assms by (auto simp: clean.simps [of F s] next_frame_Sync [of F s] split: if_splits)


section \<open>The data format\<close>

definition data_fmt :: frame_fmt where
  "data_fmt = \<lparr>ok_len = (\<lambda>dl. \<not> (dl > MTU_LEN \<or> dl < 20)),
     ok_frame = (\<lambda>f. last f = SPLIT_DATA), sep = SPLIT_DATA\<rparr>"

definition ip_packet :: "byte list \<Rightarrow> bool" where
  "ip_packet d \<longleftrightarrow> 20 \<le> length d \<and> int (length d) \<le> MTU_LEN"

lemma data_fmt_frame:
  "ip_packet d \<Longrightarrow> ok_len data_fmt (int (length d)) \<and> length d < 32768 \<and>
     ok_frame data_fmt (mk_frame SPLIT_DATA d)"
  by (simp add: data_fmt_def ip_packet_def MTU_LEN_def)

lemma data_payloads_frames:
  "(\<And>d. d \<in> set ds \<Longrightarrow> ip_packet d) \<Longrightarrow>
     payloads data_fmt Sync (concat (map (mk_frame SPLIT_DATA) ds) @ t) =
       ds @ payloads data_fmt Sync t"
  by (rule payloads_frames) (rule data_fmt_frame)

end
