(* ===== verification/Esp_Receive.thy ===== *)
theory Esp_Receive
  imports Frames
begin

text \<open>
  The receiving half of the firmware, \<open>uart_wifi_passthrough/main/uart2wifi.c\<close>: the UART0 read
  loop, the three blocking receivers of the start-up handshake (\<open>recv_ssid\<close>, \<open>recv_passwd\<close>,
  \<open>recv_netif_info\<close>) and the non-blocking packet path \<open>uart2wifi\<close>.

  The hardware is the list \<open>rxfifo\<close> of what the receive FIFO holds at the successive samples of
  \<open>rxfifo_cnt\<close>; an exhausted list is a FIFO that stays empty. A blocking receiver that has used up
  every sample is still in its busy-wait loop: its outcome is then \<open>Spinning\<close>.
\<close>

section \<open>State\<close>

record uart_rx =
  status :: status
  uartRecvLen :: int
  uartDataLen :: int
  uartRecvBuffer :: "byte list"
  send_pbuf :: "byte list option"
  dest :: "byte list"
  rxfifo :: "byte list list"
  netif_output :: "(byte list \<times> byte list) list"

datatype wait = Returned | Spinning

definition uart_rx_init :: "byte list list \<Rightarrow> uart_rx" where
  "uart_rx_init fifo = \<lparr>status = STATUS_LEN, uartRecvLen = 0, uartDataLen = 0,
     uartRecvBuffer = replicate (nat (MAX_FRAME_LEN + UART_FIFO_LEN)) 0,
     send_pbuf = None, dest = [], rxfifo = fifo, netif_output = []\<rparr>"


section \<open>Operations shared by the receivers\<close>

primrec read_fifo :: "byte list \<Rightarrow> byte list \<Rightarrow> int \<Rightarrow> byte list option" where
  "read_fifo [] buf off = Some buf"
| "read_fifo (b # bs) buf off = do { buf' \<leftarrow> blk_write buf off [b]; read_fifo bs buf' (off + 1) }"

definition uart0_recv_data :: "int \<Rightarrow> uart_rx \<Rightarrow> (int \<times> uart_rx) option" where
  "uart0_recv_data off s =
     (case rxfifo s of
        [] \<Rightarrow> Some (0, s)
      | c # cs \<Rightarrow>
          let fifo_data_cnt = int16 (int (length c)) in do {
            buf \<leftarrow> read_fifo (take (nat fifo_data_cnt) c) (uartRecvBuffer s) off;
            Some (fifo_data_cnt, s\<lparr>uartRecvBuffer := buf, rxfifo := cs\<rparr>) })"

definition load_len :: "uart_rx \<Rightarrow> int option" where
  \<comment> \<open>\<open>*((int16_t *)uartRecvBuffer)\<close>\<close>
  "load_len s = do {
     lo \<leftarrow> blk_get (uartRecvBuffer s) 0;
     hi \<leftarrow> blk_get (uartRecvBuffer s) 1;
     Some (load_i16 lo hi) }"

definition drop_frame :: "uart_rx \<Rightarrow> uart_rx option" where
  \<comment> \<open>the frame is processed: move the bytes of the next one to the front\<close>
  "drop_frame s =
     (let nextFrameByte = int16 (uartRecvLen s - (uartDataLen s + 3)) in do {
        buf \<leftarrow> (if nextFrameByte > 0
                then blk_move (uartRecvBuffer s) 0 (uartDataLen s + 3) nextFrameByte
                else Some (uartRecvBuffer s));
        Some (s\<lparr>uartRecvBuffer := buf, uartRecvLen := nextFrameByte, status := STATUS_LEN\<rparr>) })"

definition relocate :: "byte \<Rightarrow> uart_rx \<Rightarrow> (bool \<times> uart_rx) option" where
  \<comment> \<open>relocate the split flag: was one found, and the state behind it\<close>
  "relocate c s = do {
     r \<leftarrow> scan (uartRecvBuffer s) c 0 (uartRecvLen s);
     case r of
       Some i \<Rightarrow> do {
         buf \<leftarrow> blk_move (uartRecvBuffer s) 0 i (uartRecvLen s - i);
         Some (True, s\<lparr>uartRecvBuffer := buf, uartRecvLen := int16 (uartRecvLen s - i),
                       status := STATUS_LEN\<rparr>) }
     | None \<Rightarrow> Some (False, s\<lparr>uartRecvLen := 0\<rparr>) }"

definition rank :: "status \<Rightarrow> nat" where
  "rank st = (case st of STATUS_LEN \<Rightarrow> 2 | STATUS_DATA \<Rightarrow> 1 | STATUS_SPLIT \<Rightarrow> 0)"

lemma rank_simps [simp]: "rank STATUS_LEN = 2" "rank STATUS_DATA = 1" "rank STATUS_SPLIT = 0"
  by (simp_all add: rank_def)

lemma uart0_recv_data_frame:
  assumes "uart0_recv_data off s = Some (ret, s')"
  shows "rxfifo s' = tl (rxfifo s) \<and> uartRecvLen s' = uartRecvLen s \<and> status s' = status s \<and>
    (0 < ret \<longrightarrow> rxfifo s \<noteq> [])"
  using assms by (auto simp: uart0_recv_data_def Let_def split: list.splits bind_splits)

lemma scan_gt: "scan blk c i n = Some (Some j) \<Longrightarrow> i < j \<and> i < n"
proof (induction blk c i n rule: scan.induct)
  case (1 blk c i n)
  then show ?case
    by (subst (asm) (2) scan.simps) (fastforce split: if_splits bind_splits)
qed

lemma int16_le: "-32768 \<le> x \<Longrightarrow> int16 x \<le> x"
  using zmod_le_nonneg_dividend [of "x + 32768" 65536] by (simp add: int16_def)

lemma relocate_shrinks:
  assumes "relocate c s = Some (fnd, s')"
  shows "rxfifo s' = rxfifo s \<and> (uartRecvLen s \<noteq> 0 \<longrightarrow> nat \<bar>uartRecvLen s'\<bar> < nat \<bar>uartRecvLen s\<bar>)"
proof (cases fnd)
  case True
  with assms obtain i where i: "scan (uartRecvBuffer s) c 0 (uartRecvLen s) = Some (Some i)"
    and mv: "blk_move (uartRecvBuffer s) 0 i (uartRecvLen s - i) \<noteq> None"
    and s': "uartRecvLen s' = int16 (uartRecvLen s - i)" "rxfifo s' = rxfifo s"
    by (auto simp: relocate_def split: bind_splits option.splits)
  from mv have "0 \<le> uartRecvLen s - i"
    by (auto simp: blk_move_def blk_read_def split: if_splits)
  moreover from this have "int16 (uartRecvLen s - i) \<le> uartRecvLen s - i"
    by (intro int16_le) simp
  moreover have "- (uartRecvLen s - i) \<le> int16 (uartRecvLen s - i)"
    using calculation(1) int16_range(1) [of "uartRecvLen s - i"] int16_id [of "uartRecvLen s - i"]
    by linarith
  moreover have "0 < i"
    using scan_gt [OF i] by simp
  ultimately show ?thesis
    using s' by linarith
next
  case False
  with assms show ?thesis
    by (auto simp: relocate_def split: bind_splits option.splits)
qed

lemmas receiver_decreases = uart0_recv_data_frame relocate_shrinks


section \<open>The blocking receivers of the handshake\<close>

definition WPA_MIN_SSID_LEN :: int where "WPA_MIN_SSID_LEN = 1"

definition WPA_MIN_PASSWD_LEN :: int where "WPA_MIN_PASSWD_LEN = 8"

function recv_ssid :: "byte list \<Rightarrow> uart_rx \<Rightarrow> (wait \<times> byte list \<times> uart_rx) option" where
  "recv_ssid output s =
     (case status s of
        STATUS_LEN \<Rightarrow>
          if uartRecvLen s < 2 then
            (if rxfifo s = [] then Some (Spinning, output, s) else do {
               (ret, s) \<leftarrow> uart0_recv_data (uartRecvLen s) s;
               if ret \<le> 0 then recv_ssid output s
               else recv_ssid output (s\<lparr>uartRecvLen := int16 (uartRecvLen s + ret)\<rparr>) })
          else do {
            dl \<leftarrow> load_len s;
            if dl > WPA_MAX_SSID_LEN \<or> dl < WPA_MIN_SSID_LEN
            then recv_ssid output (s\<lparr>uartDataLen := dl, status := STATUS_SPLIT\<rparr>)
            else recv_ssid output (s\<lparr>uartDataLen := dl, status := STATUS_DATA\<rparr>) }
      | STATUS_DATA \<Rightarrow>
          if uartRecvLen s < uartDataLen s + 3 then
            (if rxfifo s = [] then Some (Spinning, output, s) else do {
               (ret, s) \<leftarrow> uart0_recv_data (uartRecvLen s) s;
               if ret \<le> 0 then recv_ssid output s
               else recv_ssid output (s\<lparr>uartRecvLen := int16 (uartRecvLen s + ret)\<rparr>) })
          else do {
            z \<leftarrow> blk_get (uartRecvBuffer s) (uartDataLen s + 1);
            bad \<leftarrow> (if z \<noteq> 0
                   then do { e \<leftarrow> blk_get (uartRecvBuffer s) (uartDataLen s + 2); Some (e \<noteq> SPLIT_CMD) }
                   else Some False);
            if bad then recv_ssid output (s\<lparr>status := STATUS_SPLIT\<rparr>)
            else do {
              bs \<leftarrow> blk_read (uartRecvBuffer s) 2 (uartDataLen s);
              out \<leftarrow> blk_write output 0 bs;
              s \<leftarrow> drop_frame s;
              Some (Returned, out, s) } }
      | STATUS_SPLIT \<Rightarrow>
          if uartRecvLen s = 0 then
            (if rxfifo s = [] then Some (Spinning, output, s) else do {
               (ret, s) \<leftarrow> uart0_recv_data 0 s;
               if ret \<le> 0 then recv_ssid output s
               else do {
                 (fnd, s) \<leftarrow> relocate SPLIT_CMD (s\<lparr>uartRecvLen := int16 (uartRecvLen s + ret)\<rparr>);
                 recv_ssid output s } })
          else do {
            (fnd, s) \<leftarrow> relocate SPLIT_CMD s;
            recv_ssid output s })"
  by pat_completeness auto
termination
  by (relation "measures [\<lambda>(out, s). length (rxfifo s), \<lambda>(out, s). nat \<bar>uartRecvLen s\<bar>,
      \<lambda>(out, s). rank (status s)]") (auto dest!: receiver_decreases)

function recv_passwd :: "byte list \<Rightarrow> uart_rx \<Rightarrow> (wait \<times> byte list \<times> uart_rx) option" where
  "recv_passwd output s =
     (case status s of
        STATUS_LEN \<Rightarrow>
          if uartRecvLen s < 2 then
            (if rxfifo s = [] then Some (Spinning, output, s) else do {
               (ret, s) \<leftarrow> uart0_recv_data (uartRecvLen s) s;
               if ret \<le> 0 then recv_passwd output s
               else recv_passwd output (s\<lparr>uartRecvLen := int16 (uartRecvLen s + ret)\<rparr>) })
          else do {
            dl \<leftarrow> load_len s;
            if dl > WPA_MAX_PASSWD_LEN \<or> dl < WPA_MIN_PASSWD_LEN
            then recv_passwd output (s\<lparr>uartDataLen := dl, status := STATUS_SPLIT\<rparr>)
            else recv_passwd output (s\<lparr>uartDataLen := dl, status := STATUS_DATA\<rparr>) }
      | STATUS_DATA \<Rightarrow>
          if uartRecvLen s < uartDataLen s + 3 then
            (if rxfifo s = [] then Some (Spinning, output, s) else do {
               (ret, s) \<leftarrow> uart0_recv_data (uartRecvLen s) s;
               if ret \<le> 0 then recv_passwd output s
               else recv_passwd output (s\<lparr>uartRecvLen := int16 (uartRecvLen s + ret)\<rparr>) })
          else do {
            z \<leftarrow> blk_get (uartRecvBuffer s) (uartDataLen s + 1);
            bad \<leftarrow> (if z \<noteq> 0
                   then do { e \<leftarrow> blk_get (uartRecvBuffer s) (uartDataLen s + 2); Some (e \<noteq> SPLIT_CMD) }
                   else Some False);
            if bad then recv_passwd output (s\<lparr>status := STATUS_SPLIT\<rparr>)
            else do {
              bs \<leftarrow> blk_read (uartRecvBuffer s) 2 (uartDataLen s);
              out \<leftarrow> blk_write output 0 bs;
              s \<leftarrow> drop_frame s;
              Some (Returned, out, s) } }
      | STATUS_SPLIT \<Rightarrow>
          if uartRecvLen s = 0 then
            (if rxfifo s = [] then Some (Spinning, output, s) else do {
               (ret, s) \<leftarrow> uart0_recv_data 0 s;
               if ret \<le> 0 then recv_passwd output s
               else do {
                 (fnd, s) \<leftarrow> relocate SPLIT_CMD (s\<lparr>uartRecvLen := int16 (uartRecvLen s + ret)\<rparr>);
                 recv_passwd output s } })
          else do {
            (fnd, s) \<leftarrow> relocate SPLIT_CMD s;
            recv_passwd output s })"
  by pat_completeness auto
termination
  by (relation "measures [\<lambda>(out, s). length (rxfifo s), \<lambda>(out, s). nat \<bar>uartRecvLen s\<bar>,
      \<lambda>(out, s). rank (status s)]") (auto dest!: receiver_decreases)

function recv_netif_info :: "byte list \<Rightarrow> int \<Rightarrow> uart_rx \<Rightarrow> (wait \<times>  uart_rx) option" where
  "recv_netif_info netif_info total_len s =
     (case status s of
        STATUS_LEN \<Rightarrow>
          if uartRecvLen s < 2 then
            (if rxfifo s = [] then Some (Spinning, s) else do {
               (ret, s) \<leftarrow> uart0_recv_data (uartRecvLen s) s;
               if ret \<le> 0 then recv_netif_info netif_info total_len s
               else recv_netif_info netif_info total_len (s\<lparr>uartRecvLen := int16 (uartRecvLen s + ret)\<rparr>) })
          else do {
            dl \<leftarrow> load_len s;
            lo \<leftarrow> blk_get netif_info 0;
            hi \<leftarrow> blk_get netif_info 1;
            if dl \<noteq> load_i16 lo hi
            then recv_netif_info netif_info total_len (s\<lparr>uartDataLen := dl, status := STATUS_SPLIT\<rparr>)
            else recv_netif_info netif_info total_len (s\<lparr>uartDataLen := dl, status := STATUS_DATA\<rparr>) }
      | STATUS_DATA \<Rightarrow>
          if uartRecvLen s < uartDataLen s + 3 then
            (if rxfifo s = [] then Some (Spinning, s) else do {
               (ret, s) \<leftarrow> uart0_recv_data (uartRecvLen s) s;
               if ret \<le> 0 then recv_netif_info netif_info total_len s
               else recv_netif_info netif_info total_len (s\<lparr>uartRecvLen := int16 (uartRecvLen s + ret)\<rparr>) })
          else do {
            e \<leftarrow> blk_get (uartRecvBuffer s) (uartDataLen s + 2);
            if e \<noteq> SPLIT_CMD
            then recv_netif_info netif_info total_len (s\<lparr>status := STATUS_SPLIT\<rparr>)
            else do {
              got \<leftarrow> blk_read (uartRecvBuffer s) 0 total_len;
              want \<leftarrow> blk_read netif_info 0 total_len;
              if got \<noteq> want
              then recv_netif_info netif_info total_len (s\<lparr>status := STATUS_SPLIT\<rparr>)
              else do {
                s \<leftarrow> drop_frame s;
                Some (Returned, s) } } }
      | STATUS_SPLIT \<Rightarrow>
          if uartRecvLen s = 0 then
            (if rxfifo s = [] then Some (Spinning, s) else do {
               (ret, s) \<leftarrow> uart0_recv_data 0 s;
               if ret \<le> 0 then recv_netif_info netif_info total_len s
               else do {
                 (fnd, s) \<leftarrow> relocate SPLIT_CMD (s\<lparr>uartRecvLen := int16 (uartRecvLen s + ret)\<rparr>);
                 recv_netif_info netif_info total_len s } })
          else do {
            (fnd, s) \<leftarrow> relocate SPLIT_CMD s;
            recv_netif_info netif_info total_len s })"
  by pat_completeness auto
termination
  by (relation "measures [\<lambda>(nif, n, s). length (rxfifo s), \<lambda>(nif, n, s). nat \<bar>uartRecvLen s\<bar>,
      \<lambda>(nif, n, s). rank (status s)]") (auto dest!: receiver_decreases)

declare recv_ssid.simps [simp del] recv_passwd.simps [simp del] recv_netif_info.simps [simp del]


section \<open>The packet path\<close>

text \<open>
  One call makes at most one \<open>pbuf_alloc\<close> and at most one call of the lwIP output routine of the
  interface; what they answer in this call (\<open>alloc_ok\<close>, \<open>err\<close>) is an argument. A packet that the
  output routine takes is appended to \<open>netif_output\<close> together with its destination address.
\<close>

function uart2wifi :: "bool \<Rightarrow> int \<Rightarrow> uart_rx \<Rightarrow> uart_rx option" where
  "uart2wifi alloc_ok err s =
     (case status s of
        STATUS_LEN \<Rightarrow>
          if uartRecvLen s < 2 then do {
            (ret, s) \<leftarrow> uart0_recv_data (uartRecvLen s) s;
            if ret \<le> 0 then Some s
            else uart2wifi alloc_ok err (s\<lparr>uartRecvLen := int16 (uartRecvLen s + ret)\<rparr>) }
          else do {
            dl \<leftarrow> load_len s;
            if dl > MTU_LEN \<or> dl < 20
            then uart2wifi alloc_ok err (s\<lparr>uartDataLen := dl, status := STATUS_SPLIT\<rparr>)
            else uart2wifi alloc_ok err (s\<lparr>uartDataLen := dl, status := STATUS_DATA\<rparr>) }
      | STATUS_DATA \<Rightarrow>
          if uartRecvLen s < uartDataLen s + 3 then do {
            (ret, s) \<leftarrow> uart0_recv_data (uartRecvLen s) s;
            if ret \<le> 0 then Some s
            else uart2wifi alloc_ok err (s\<lparr>uartRecvLen := int16 (uartRecvLen s + ret)\<rparr>) }
          else do {
            e \<leftarrow> blk_get (uartRecvBuffer s) (uartDataLen s + 2);
            if e \<noteq> SPLIT_DATA then uart2wifi alloc_ok err (s\<lparr>status := STATUS_SPLIT\<rparr>)
            else if send_pbuf s = None \<and> \<not> alloc_ok then Some s
            else do {
              s \<leftarrow> (case send_pbuf s of
                      Some p \<Rightarrow> Some s
                    | None \<Rightarrow> do {
                        p \<leftarrow> blk_read (uartRecvBuffer s) 2 (uartDataLen s);
                        d \<leftarrow> blk_read p 16 4;
                        Some (s\<lparr>send_pbuf := Some p, dest := d\<rparr>) });
              if err \<noteq> 0 then Some s
              else drop_frame (s\<lparr>netif_output := netif_output s @ [(the (send_pbuf s), dest s)],
                                send_pbuf := None\<rparr>) } }
      | STATUS_SPLIT \<Rightarrow>
          if uartRecvLen s = 0 then do {
            (ret, s) \<leftarrow> uart0_recv_data 0 s;
            if ret \<le> 0 then Some s
            else do {
              (fnd, s) \<leftarrow> relocate SPLIT_DATA (s\<lparr>uartRecvLen := int16 (uartRecvLen s + ret)\<rparr>);
              if fnd then uart2wifi alloc_ok err s else Some s } }
          else do {
            (fnd, s) \<leftarrow> relocate SPLIT_DATA s;
            if fnd then uart2wifi alloc_ok err s else Some s })"
  by pat_completeness auto
termination
  by (relation "measures [\<lambda>(a, e, s). length (rxfifo s), \<lambda>(a, e, s). nat \<bar>uartRecvLen s\<bar>,
      \<lambda>(a, e, s). rank (status s)]") (auto dest!: receiver_decreases)

declare uart2wifi.simps [simp del]


section \<open>What the operations do to the received bytes\<close>

text \<open>The received bytes are the first \<open>uartRecvLen\<close> of the buffer.\<close>

definition content :: "uart_rx \<Rightarrow> byte list" where
  "content s = take (nat (uartRecvLen s)) (uartRecvBuffer s)"

definition mode_of :: "uart_rx \<Rightarrow> mode" where
  "mode_of s = (case status s of STATUS_SPLIT \<Rightarrow> Hunt | _ \<Rightarrow> Sync)"

definition fifo_ok :: "byte list list \<Rightarrow> bool" where
  \<comment> \<open>the receive FIFO never holds more than its depth\<close>
  "fifo_ok fifo \<longleftrightarrow> (\<forall>c\<in>set fifo. int (length c) \<le> UART_FIFO_LEN)"

definition rx_inv :: "frame_fmt \<Rightarrow> uart_rx \<Rightarrow> bool" where
  "rx_inv F s \<longleftrightarrow>
     int (length (uartRecvBuffer s)) = MAX_FRAME_LEN + UART_FIFO_LEN \<and>
     0 \<le> uartRecvLen s \<and> uartRecvLen s \<le> MAX_FRAME_LEN + UART_FIFO_LEN \<and> fifo_ok (rxfifo s) \<and>
     (status s = STATUS_DATA \<longrightarrow>
        2 \<le> uartRecvLen s \<and> uartDataLen s = hdr (content s) \<and> ok_len F (uartDataLen s))"

text \<open>The receiver cannot go on without reading the FIFO.\<close>

definition waiting :: "uart_rx \<Rightarrow> bool" where
  "waiting s = (case status s of
     STATUS_LEN \<Rightarrow> uartRecvLen s < 2
   | STATUS_DATA \<Rightarrow> uartRecvLen s < uartDataLen s + 3
   | STATUS_SPLIT \<Rightarrow> uartRecvLen s = 0)"

definition fmt_ok :: "frame_fmt \<Rightarrow> bool" where
  "fmt_ok F \<longleftrightarrow> (\<forall>dl. ok_len F dl \<longrightarrow> 0 \<le> dl \<and> dl \<le> MTU_LEN)"

lemma mode_of_simps [simp]:
  "status s = STATUS_LEN \<Longrightarrow> mode_of s = Sync"
  "status s = STATUS_DATA \<Longrightarrow> mode_of s = Sync"
  "status s = STATUS_SPLIT \<Longrightarrow> mode_of s = Hunt"
  by (simp_all add: mode_of_def)

lemma content_upd [simp]:
  "content (s\<lparr>status := st\<rparr>) = content s"
  "content (s\<lparr>uartDataLen := dl\<rparr>) = content s"
  "content (s\<lparr>rxfifo := f\<rparr>) = content s"
  "content (s\<lparr>send_pbuf := p\<rparr>) = content s"
  "content (s\<lparr>dest := d\<rparr>) = content s"
  "content (s\<lparr>netif_output := w\<rparr>) = content s"
  by (simp_all add: content_def)

lemma rx_inv_length:
  "rx_inv F s \<Longrightarrow> int (length (content s)) = uartRecvLen s"
  by (auto simp: rx_inv_def content_def)

lemma read_fifo_end:
  assumes "0 \<le> off" "off + int (length bs) \<le> int (length buf)"
  shows "\<exists>buf'. read_fifo bs buf off = Some buf' \<and> length buf' = length buf \<and>
           take (nat (off + int (length bs))) buf' = take (nat off) buf @ bs"
  using assms
proof (induction bs arbitrary: buf off)
  case Nil
  then show ?case by simp
next
  case (Cons b bs)
  from blk_write_end [of off "[b]" buf] Cons.prems obtain buf1 where
    b1: "blk_write buf off [b] = Some buf1" "length buf1 = length buf"
      "take (nat (off + 1)) buf1 = take (nat off) buf @ [b]"
    by auto
  with Cons.IH [of "off + 1" buf1] Cons.prems show ?case
    by (simp add: add.assoc)
qed

lemma uart0_recv_data_push:
  assumes "rxfifo s = c # cs" "int (length c) \<le> UART_FIFO_LEN" "0 \<le> uartRecvLen s"
    "uartRecvLen s + int (length c) \<le> int (length (uartRecvBuffer s))"
  shows "\<exists>buf. uart0_recv_data (uartRecvLen s) s =
      Some (int (length c), s\<lparr>uartRecvBuffer := buf, rxfifo := cs\<rparr>) \<and>
      length buf = length (uartRecvBuffer s) \<and>
      take (nat (uartRecvLen s + int (length c))) buf = content s @ c"
  using read_fifo_end [of "uartRecvLen s" c "uartRecvBuffer s"] assms
  by (auto simp: uart0_recv_data_def content_def UART_FIFO_LEN_def c_int)

lemma load_len_hdr:
  assumes "rx_inv F s" "2 \<le> uartRecvLen s"
  shows "load_len s = Some (hdr (content s))"
  using assms by (auto simp: load_len_def blk_get_def hdr_def content_def rx_inv_def)

lemma drop_frame_content:
  assumes "rx_inv F s" "0 \<le> uartDataLen s" "uartDataLen s + 3 \<le> uartRecvLen s"
  shows "\<exists>buf. drop_frame s = Some (s\<lparr>uartRecvBuffer := buf,
        uartRecvLen := uartRecvLen s - (uartDataLen s + 3), status := STATUS_LEN\<rparr>) \<and>
      length buf = length (uartRecvBuffer s) \<and>
      take (nat (uartRecvLen s - (uartDataLen s + 3))) buf = drop (nat (uartDataLen s + 3)) (content s)"
proof -
  let ?k = "uartDataLen s + 3" and ?n = "uartRecvLen s"
  have id: "int16 (?n - ?k) = ?n - ?k"
    using assms by (intro int16_id) (auto simp: rx_inv_def link_consts)
  show ?thesis
  proof (cases "0 < ?n - ?k")
    case True
    with id blk_move_front [of ?k ?n "uartRecvBuffer s"] assms show ?thesis
      by (auto simp: drop_frame_def content_def rx_inv_def)
  next
    case False
    with id assms show ?thesis
      by (intro exI [of _ "uartRecvBuffer s"]) (auto simp: drop_frame_def content_def)
  qed
qed

lemma relocate_None:
  assumes "rx_inv F s" "after_split c (content s) = None"
  shows "relocate c s = Some (False, s\<lparr>uartRecvLen := 0\<rparr>)"
  using assms scan_window [of 0 "uartRecvLen s" "uartRecvBuffer s" c]
  by (simp add: relocate_def content_def rx_inv_def)

lemma relocate_Some:
  assumes "rx_inv F s" "after_split c (content s) = Some t"
  shows "\<exists>buf. relocate c s = Some (True, s\<lparr>uartRecvBuffer := buf, uartRecvLen := int (length t),
        status := STATUS_LEN\<rparr>) \<and>
      length buf = length (uartRecvBuffer s) \<and> take (length t) buf = t"
proof -
  let ?n = "uartRecvLen s" let ?i = "?n - int (length t)"
  obtain p where p: "content s = p @ c # t"
    using after_split_SomeD [OF assms(2)] by blast
  have n: "?n = int (length (content s))"
    using rx_inv_length [OF assms(1)] by simp
  have "drop (nat ?i) (content s) = t"
    using p n by (simp add: nat_add_distrib)
  then have t: "drop (nat ?i) (take (nat ?n) (uartRecvBuffer s)) = t"
    by (simp only: content_def)
  have "scan (uartRecvBuffer s) c 0 ?n = Some (Some ?i)"
    using assms scan_window [of 0 ?n "uartRecvBuffer s" c] by (simp add: content_def rx_inv_def)
  moreover obtain buf where "blk_move (uartRecvBuffer s) 0 ?i (?n - ?i) = Some buf"
    "length buf = length (uartRecvBuffer s)" "take (length t) buf = t"
    using blk_move_front [of ?i ?n "uartRecvBuffer s"] assms p n t by (auto simp: rx_inv_def)
  moreover have "int16 (?n - ?i) = int (length t)"
    using assms p n by (subst int16_id) (auto simp: rx_inv_def link_consts)
  ultimately show ?thesis
    by (auto simp: relocate_def)
qed


text \<open>Reads of the buffer inside the received frame are reads of the frame.\<close>

lemma frame_window:
  assumes "rx_inv F s" "0 \<le> dl" "dl + 3 \<le> uartRecvLen s"
  shows "length (take (nat (dl + 3)) (content s)) = nat dl + 3"
    and "blk_get (uartRecvBuffer s) (dl + 1) = Some (take (nat (dl + 3)) (content s) ! (nat dl + 1))"
    and "blk_get (uartRecvBuffer s) (dl + 2) = Some (last (take (nat (dl + 3)) (content s)))"
    and "blk_read (uartRecvBuffer s) 2 dl = Some (take (nat dl) (drop 2 (content s)))"
    and "blk_read (uartRecvBuffer s) 0 (dl + 3) = Some (take (nat (dl + 3)) (content s))"
proof -
  have n: "nat (dl + 3) = nat dl + 3" "nat (dl + 2) = nat dl + 2" "nat (dl + 1) = nat dl + 1"
    using assms(2) by auto
  have len: "nat dl + 3 \<le> nat (uartRecvLen s)" "nat (uartRecvLen s) \<le> length (uartRecvBuffer s)"
    using assms by (auto simp: rx_inv_def)
  show l: "length (take (nat (dl + 3)) (content s)) = nat dl + 3"
    using n len by (simp add: content_def)
  show "blk_get (uartRecvBuffer s) (dl + 1) = Some (take (nat (dl + 3)) (content s) ! (nat dl + 1))"
    using n len assms(2) by (simp add: blk_get_def content_def)
  have "last (take (nat (dl + 3)) (content s)) = take (nat (dl + 3)) (content s) ! (nat dl + 2)"
    using l by (subst last_conv_nth) (auto simp: n)
  then show "blk_get (uartRecvBuffer s) (dl + 2) = Some (last (take (nat (dl + 3)) (content s)))"
    using n len assms(2) by (simp add: blk_get_def content_def)
  show "blk_read (uartRecvBuffer s) 2 dl = Some (take (nat dl) (drop 2 (content s)))"
  proof -
    have "2 + dl \<le> int (length (uartRecvBuffer s))" "nat dl \<le> nat (uartRecvLen s) - 2"
      using len assms(2) by linarith+
    then show ?thesis
      using assms(2) by (simp add: blk_read_def content_def drop_take min_def)
  qed
  show "blk_read (uartRecvBuffer s) 0 (dl + 3) = Some (take (nat (dl + 3)) (content s))"
    using n len assms(2) by (simp add: blk_read_def content_def min_def)
qed


section \<open>The framing laws of a receiver\<close>

text \<open>
  What every receiver of the source does between two reads of the FIFO, in terms of single steps of
  its state machine. The consequence is proved once: the steps follow the abstract receiver until
  input is needed, a complete frame is there, or everything received so far has to be dropped.
\<close>

definition same_env :: "uart_rx \<Rightarrow> uart_rx \<Rightarrow> bool" where
  "same_env s s' \<longleftrightarrow> rxfifo s' = rxfifo s \<and> send_pbuf s' = send_pbuf s \<and> dest s' = dest s \<and>
     netif_output s' = netif_output s"

definition lost :: "frame_fmt \<Rightarrow> uart_rx \<Rightarrow> bool" where
  "lost F s \<longleftrightarrow> status s = STATUS_SPLIT \<and> uartRecvLen s \<noteq> 0 \<and> sep F \<notin> set (content s)"

definition settled :: "frame_fmt \<Rightarrow> uart_rx \<Rightarrow> bool" where
  "settled F s \<longleftrightarrow> waiting s \<or> status s = STATUS_DATA \<and> full_at F (content s) \<or> lost F s"

lemma same_env_refl [simp]: "same_env s s"
  by (simp add: same_env_def)

lemma same_env_trans: "same_env s s' \<Longrightarrow> same_env s' s'' \<Longrightarrow> same_env s s''"
  by (simp add: same_env_def)

lemma fmt_okD: "fmt_ok F \<Longrightarrow> ok_len F dl \<Longrightarrow> 0 \<le> dl \<and> dl \<le> MTU_LEN"
  by (simp add: fmt_ok_def)

lemma data_full_or_bad:
  assumes "fmt_ok F" "rx_inv F s" "status s = STATUS_DATA" "uartDataLen s + 3 \<le> uartRecvLen s"
  shows "full_at F (content s) \<longleftrightarrow> ok_frame F (take (nat (uartDataLen s + 3)) (content s))"
    and "bad_at F (content s) \<longleftrightarrow> \<not> ok_frame F (take (nat (uartDataLen s + 3)) (content s))"
  using assms rx_inv_length [OF assms(2)] fmt_okD [OF assms(1), of "hdr (content s)"]
  by (auto simp: full_at_def bad_at_def rx_inv_def)

lemma waiting_More:
  assumes "fmt_ok F" "rx_inv F s" "waiting s"
  shows "next_frame F (mode_of s) (content s) = More (mode_of s) (content s)"
proof (cases "status s")
  case STATUS_LEN
  with assms rx_inv_length [OF assms(2)] show ?thesis
    by (auto simp: waiting_def next_frame_Sync full_at_def bad_at_def)
next
  case STATUS_DATA
  with assms rx_inv_length [OF assms(2)] fmt_okD [OF assms(1), of "hdr (content s)"] show ?thesis
    by (auto simp: waiting_def next_frame_Sync full_at_def bad_at_def rx_inv_def)
next
  case STATUS_SPLIT
  with assms rx_inv_length [OF assms(2)] show ?thesis
    by (simp add: waiting_def next_frame_Hunt)
qed

locale receiver =
  fixes F :: frame_fmt
    and recv :: "uart_rx \<Rightarrow> 'r"
  assumes fmt: "fmt_ok F"
    and len_law: "status s = STATUS_LEN \<Longrightarrow> 2 \<le> uartRecvLen s \<Longrightarrow> load_len s = Some dl \<Longrightarrow>
      recv s = recv (s\<lparr>uartDataLen := dl, status := (if ok_len F dl then STATUS_DATA else STATUS_SPLIT)\<rparr>)"
    and bad_law: "rx_inv F s \<Longrightarrow> status s = STATUS_DATA \<Longrightarrow> uartDataLen s + 3 \<le> uartRecvLen s \<Longrightarrow>
      bad_at F (content s) \<Longrightarrow> recv s = recv (s\<lparr>status := STATUS_SPLIT\<rparr>)"
    and split_law: "status s = STATUS_SPLIT \<Longrightarrow> uartRecvLen s \<noteq> 0 \<Longrightarrow>
      relocate (sep F) s = Some (True, s') \<Longrightarrow> recv s = recv s'"
begin

definition settles_to :: "uart_rx \<Rightarrow> uart_rx \<Rightarrow> bool" where
  "settles_to s s' \<longleftrightarrow> recv s = recv s' \<and> rx_inv F s' \<and> settled F s' \<and> same_env s s' \<and>
     next_frame F (mode_of s') (content s') = next_frame F (mode_of s) (content s) \<and>
     length (content s') \<le> length (content s)"

lemma settles_to_step:
  assumes "recv s = recv s1" "same_env s s1" "settles_to s1 s'" "length (content s1) \<le> length (content s)"
    "next_frame F (mode_of s1) (content s1) = next_frame F (mode_of s) (content s)"
  shows "settles_to s s'"
  using assms by (auto simp: settles_to_def intro: same_env_trans)

lemma settles_to_refl: "rx_inv F s \<Longrightarrow> settled F s \<Longrightarrow> settles_to s s"
  by (simp add: settles_to_def)

lemma settle_data:
  assumes inv: "rx_inv F s" and st: "status s = STATUS_DATA"
    and bad: "bad_at F (content s) \<Longrightarrow> \<exists>s'. settles_to (s\<lparr>status := STATUS_SPLIT\<rparr>) s'"
  shows "\<exists>s'. settles_to s s'"
proof (cases "uartRecvLen s < uartDataLen s + 3 \<or> full_at F (content s)")
  case True
  with inv st have "settles_to s s"
    by (intro settles_to_refl) (auto simp: settled_def waiting_def)
  then show ?thesis by blast
next
  case False
  then have "uartDataLen s + 3 \<le> uartRecvLen s" "bad_at F (content s)"
    using data_full_or_bad [OF fmt inv st] by auto
  moreover from this bad obtain s' where "settles_to (s\<lparr>status := STATUS_SPLIT\<rparr>) s'" by blast
  ultimately have "settles_to s s'"
    using bad_law [OF inv st] st
    by (intro settles_to_step [of s "s\<lparr>status := STATUS_SPLIT\<rparr>"])
      (simp_all add: next_frame_Sync [of F "content s"] bad_not_full same_env_def)
  then show ?thesis ..
qed

lemma settle_len:
  assumes inv: "rx_inv F s" and st: "status s = STATUS_LEN"
    and bad: "\<And>s1. rx_inv F s1 \<Longrightarrow> status s1 = STATUS_SPLIT \<Longrightarrow> content s1 = content s \<Longrightarrow>
      \<exists>s'. settles_to s1 s'"
  shows "\<exists>s'. settles_to s s'"
proof (cases "uartRecvLen s < 2")
  case True
  with inv st have "settles_to s s"
    by (intro settles_to_refl) (auto simp: settled_def waiting_def)
  then show ?thesis by blast
next
  case False
  let ?dl = "hdr (content s)"
  let ?s = "s\<lparr>uartDataLen := ?dl, status := (if ok_len F ?dl then STATUS_DATA else STATUS_SPLIT)\<rparr>"
  have eq: "recv s = recv ?s"
    using inv st False by (intro len_law load_len_hdr) auto
  have inv': "rx_inv F ?s"
    using inv False by (auto simp: rx_inv_def)
  have "\<exists>s'. settles_to ?s s'"
  proof (cases "ok_len F ?dl")
    case True
    have split: "\<exists>s'. settles_to (?s\<lparr>status := STATUS_SPLIT\<rparr>) s'"
      using inv by (intro bad) (simp_all add: rx_inv_def)
    from True have "status ?s = STATUS_DATA" by simp
    from settle_data [OF inv' this split] show ?thesis .
  next
    case no: False
    with inv' show ?thesis by (intro bad) simp_all
  qed
  moreover have "next_frame F (mode_of ?s) (content ?s) = next_frame F (mode_of s) (content s)"
  proof (cases "ok_len F ?dl")
    case True
    then show ?thesis using st by simp
  next
    case no: False
    then have "bad_at F (content s)"
      using False rx_inv_length [OF inv] by (auto simp: bad_at_def)
    with no st show ?thesis by (simp add: next_frame_Sync bad_not_full)
  qed
  moreover have "same_env s ?s" "length (content ?s) \<le> length (content s)"
    by (simp_all add: same_env_def)
  ultimately show ?thesis
    using eq settles_to_step [of s ?s] by blast
qed

lemma settle_split:
  assumes inv: "rx_inv F s" and st: "status s = STATUS_SPLIT"
    and found: "\<And>s1 t. after_split (sep F) (content s) = Some t \<Longrightarrow> rx_inv F s1 \<Longrightarrow>
      content s1 = t \<Longrightarrow> \<exists>s'. settles_to s1 s'"
  shows "\<exists>s'. settles_to s s'"
proof (cases "uartRecvLen s = 0 \<or> sep F \<notin> set (content s)")
  case True
  with inv st have "settles_to s s"
    by (intro settles_to_refl) (auto simp: settled_def waiting_def lost_def)
  then show ?thesis by blast
next
  case False
  then obtain t where t: "after_split (sep F) (content s) = Some t"
    using after_split_None_iff by fastforce
  from relocate_Some [OF inv t] obtain buf where
    r: "relocate (sep F) s = Some (True, s\<lparr>uartRecvBuffer := buf, uartRecvLen := int (length t),
      status := STATUS_LEN\<rparr>)"
    and buf: "length buf = length (uartRecvBuffer s)" "take (length t) buf = t"
    by blast
  let ?s = "s\<lparr>uartRecvBuffer := buf, uartRecvLen := int (length t), status := STATUS_LEN\<rparr>"
  have con: "content ?s = t"
    using buf by (simp add: content_def)
  have "rx_inv F ?s"
    using inv buf after_split_shorter [OF t] rx_inv_length [OF inv] by (auto simp: rx_inv_def)
  then obtain s' where "settles_to ?s s'"
    using found [OF t _ con] by blast
  then have "settles_to s s'"
    using st con t False split_law [OF st _ r] after_split_shorter [OF t]
    by (intro settles_to_step [of s ?s]) (auto simp: same_env_def next_frame_Hunt)
  then show ?thesis by blast
qed

lemma settle: "rx_inv F s \<Longrightarrow> \<exists>s'. settles_to s s'"
proof (induction "length (content s)" arbitrary: s rule: less_induct)
  case less
  have split: "\<exists>s'. settles_to s1 s'"
    if "rx_inv F s1" "status s1 = STATUS_SPLIT" "length (content s1) = length (content s)" for s1
  proof (rule settle_split [OF that(1,2)])
    fix s2 t
    assume "after_split (sep F) (content s1) = Some t" "rx_inv F s2" "content s2 = t"
    with that(3) show "\<exists>s'. settles_to s2 s'"
      by (intro less.hyps) (auto dest: after_split_shorter)
  qed
  show ?case
  proof (cases "status s")
    case STATUS_LEN
    show ?thesis
    proof (rule settle_len [OF less.prems STATUS_LEN])
      fix s1 assume "rx_inv F s1" "status s1 = STATUS_SPLIT" "content s1 = content s"
      then show "\<exists>s'. settles_to s1 s'" by (intro split) simp_all
    qed
  next
    case STATUS_DATA
    have "rx_inv F (s\<lparr>status := STATUS_SPLIT\<rparr>)"
      using less.prems by (simp add: rx_inv_def)
    then have "\<exists>s'. settles_to (s\<lparr>status := STATUS_SPLIT\<rparr>) s'" by (rule split) simp_all
    then show ?thesis by (rule settle_data [OF less.prems STATUS_DATA])
  next
    case STATUS_SPLIT
    with less.prems show ?thesis by (rule split) simp
  qed
qed

end

text \<open>The received bytes after one more FIFO sample.\<close>

definition pushed :: "uart_rx \<Rightarrow> byte list \<Rightarrow> uart_rx \<Rightarrow> bool" where
  "pushed s c s' \<longleftrightarrow> content s' = content s @ c \<and> rxfifo s' = tl (rxfifo s) \<and> status s' = status s \<and>
     uartDataLen s' = uartDataLen s \<and> uartRecvLen s' = uartRecvLen s + int (length c) \<and>
     send_pbuf s' = send_pbuf s \<and> dest s' = dest s \<and> netif_output s' = netif_output s"

lemma fetch:
  assumes "fmt_ok F" and inv: "rx_inv F s" and wait: "waiting s" and fifo: "rxfifo s = c # cs"
  shows "\<exists>s1. uart0_recv_data (uartRecvLen s) s = Some (int (length c), s1) \<and> uartRecvLen s1 = uartRecvLen s \<and>
    status s1 = status s \<and> int16 (uartRecvLen s + int (length c)) = uartRecvLen s + int (length c) \<and>
    (let s' = s1\<lparr>uartRecvLen := uartRecvLen s + int (length c)\<rparr> in
      rx_inv F s' \<and> pushed s c s' \<and> (c = [] \<longrightarrow> s' = s1))"
proof -
  have len: "uartRecvLen s \<le> MAX_FRAME_LEN" "int (length c) \<le> UART_FIFO_LEN"
    using inv wait fifo fmt_okD [OF assms(1), of "uartDataLen s"]
    by (auto simp: rx_inv_def waiting_def link_consts fifo_ok_def split: status.splits)
  then obtain buf where get: "uart0_recv_data (uartRecvLen s) s =
      Some (int (length c), s\<lparr>uartRecvBuffer := buf, rxfifo := cs\<rparr>)"
    and buf: "length buf = length (uartRecvBuffer s)"
      "take (nat (uartRecvLen s + int (length c))) buf = content s @ c"
    using uart0_recv_data_push [OF fifo] inv by (auto simp: rx_inv_def)
  let ?s = "s\<lparr>uartRecvBuffer := buf, rxfifo := cs, uartRecvLen := uartRecvLen s + int (length c)\<rparr>"
  have id: "int16 (uartRecvLen s + int (length c)) = uartRecvLen s + int (length c)"
    using len inv by (intro int16_id) (auto simp: rx_inv_def link_consts)
  have con: "content ?s = content s @ c"
    using buf by (simp add: content_def)
  have "rx_inv F ?s"
    using inv len buf con fifo rx_inv_length [OF inv] by (auto simp: rx_inv_def fifo_ok_def)
  moreover have "pushed s c ?s"
    using con fifo by (simp add: pushed_def)
  ultimately show ?thesis
    using get id by auto
qed

end
