(* ===== verification/Esp_Handshake.thy ===== *)
theory Esp_Handshake
  imports Esp_Receive
begin

text \<open>
  Correctness of the blocking receivers of the start-up handshake. The three functions of the
  source share one control flow; the locale \<open>blocking_receiver\<close> states it once, as the unfolding
  law a receiver has to satisfy, together with what its acceptance test and its result are in terms
  of the received bytes. Inside the locale the receiver is shown to implement the abstract receiver
  of \<open>Frames\<close> on every byte stream and every division of it into FIFO samples. \<open>recv_ssid\<close>,
  \<open>recv_passwd\<close> and \<open>recv_netif_info\<close> are its interpretations.
\<close>

section \<open>The abstract blocking receiver\<close>

text \<open>Read the next frame, fetching one FIFO sample after the other while more bytes are needed:
  the payload, the bytes behind it and the samples not yet used, or what is kept while waiting.\<close>

primrec feed :: "frame_fmt \<Rightarrow> byte list list \<Rightarrow> mode \<Rightarrow> byte list \<Rightarrow>
    (byte list \<times> byte list \<times> byte list list) + (mode \<times> byte list)" where
  "feed F [] m l =
     (case next_frame F m l of Frame d r \<Rightarrow> Inl (d, r, []) | More m' l' \<Rightarrow> Inr (m', l'))"
| "feed F (c # cs) m l =
     (case next_frame F m l of
        Frame d r \<Rightarrow> Inl (d, r, c # cs)
      | More m' l' \<Rightarrow> feed F cs m' (l' @ c))"

text \<open>The division into samples does not matter.\<close>

lemma feed_stream:
  "next_frame F m (l @ concat cs) =
     (case feed F cs m l of
        Inl (d, r, cs') \<Rightarrow> Frame d (r @ concat cs')
      | Inr (m', l') \<Rightarrow> More m' l')"
proof (induction cs arbitrary: m l)
  case Nil
  then show ?case by (auto split: scan_result.splits)
next
  case (Cons c cs)
  show ?case
  proof (cases "next_frame F m l")
    case (Frame d r)
    then show ?thesis by (simp add: next_frame_append [of F m l])
  next
    case (More m' l')
    with Cons.IH [of m' "l' @ c"] show ?thesis
      by (simp add: next_frame_append [of F m l])
  qed
qed

lemma feed_Inl:
  assumes "next_frame F m (l @ concat cs) = Frame d r"
  obtains r' cs' where "feed F cs m l = Inl (d, r', cs')" "r = r' @ concat cs'"
  using assms feed_stream [of F m l cs] by (auto split: sum.splits prod.splits)


section \<open>Waiting for a frame\<close>

text \<open>The packet in progress and the packets handed over: none of the blocking receivers touches them.\<close>

definition handed :: "uart_rx \<Rightarrow> byte list option \<times> byte list \<times> (byte list \<times> byte list) list" where
  "handed s = (send_pbuf s, dest s, netif_output s)"

locale blocking_receiver = receiver F recv
  for F :: frame_fmt and recv :: "uart_rx \<Rightarrow> (wait \<times> 'o \<times> uart_rx) option" +
  fixes result :: "byte list \<Rightarrow> 'o option"
    and idle :: 'o
  assumes idle_law: "waiting s \<Longrightarrow> rxfifo s = [] \<Longrightarrow> recv s = Some (Spinning, idle, s)"
    and empty_law: "waiting s \<Longrightarrow> rxfifo s \<noteq> [] \<Longrightarrow>
      uart0_recv_data (uartRecvLen s) s = Some (0, s1) \<Longrightarrow> recv s = recv s1"
    and poll_law: "waiting s \<Longrightarrow> rxfifo s \<noteq> [] \<Longrightarrow>
      uart0_recv_data (uartRecvLen s) s = Some (ret, s1) \<Longrightarrow> 0 < ret \<Longrightarrow>
      int16 (uartRecvLen s + ret) = uartRecvLen s + ret \<Longrightarrow>
      recv s = recv (s1\<lparr>uartRecvLen := int16 (uartRecvLen s + ret)\<rparr>)"
    and lost_law: "status s = STATUS_SPLIT \<Longrightarrow> uartRecvLen s \<noteq> 0 \<Longrightarrow>
      relocate (sep F) s = Some (False, s') \<Longrightarrow> recv s = recv s'"
    and done_law: "rx_inv F s \<Longrightarrow> status s = STATUS_DATA \<Longrightarrow> uartDataLen s + 3 \<le> uartRecvLen s \<Longrightarrow>
      full_at F (content s) \<Longrightarrow> drop_frame s = Some s' \<Longrightarrow>
      recv s = map_option (\<lambda>out. (Returned, out, s')) (result (take (nat (uartDataLen s)) (drop 2 (content s))))"
begin

lemma recv_fetch:
  assumes inv: "rx_inv F s" and wait: "waiting s" and fifo: "rxfifo s = c # cs"
  shows "\<exists>s'. recv s = recv s' \<and> rx_inv F s' \<and> mode_of s' = mode_of s \<and>
    content s' = content s @ c \<and> rxfifo s' = cs \<and> handed s' = handed s"
proof -
  from fetch [OF fmt inv wait fifo] obtain s1 where
    get: "uart0_recv_data (uartRecvLen s) s = Some (int (length c), s1)"
    and id: "int16 (uartRecvLen s + int (length c)) = uartRecvLen s + int (length c)"
    and push: "rx_inv F (s1\<lparr>uartRecvLen := uartRecvLen s + int (length c)\<rparr>)"
      "pushed s c (s1\<lparr>uartRecvLen := uartRecvLen s + int (length c)\<rparr>)"
      "c = [] \<Longrightarrow> s1\<lparr>uartRecvLen := uartRecvLen s + int (length c)\<rparr> = s1"
    by (auto simp: Let_def)
  let ?s = "s1\<lparr>uartRecvLen := uartRecvLen s + int (length c)\<rparr>"
  have ne: "rxfifo s \<noteq> []" using fifo by simp
  have "recv s = recv ?s"
  proof (cases "c = []")
    case True
    with empty_law [OF wait ne] get push(3) show ?thesis by simp
  next
    case False
    with poll_law [OF wait ne get _ id] id show ?thesis by simp
  qed
  moreover have "mode_of ?s = mode_of s" "content ?s = content s @ c" "rxfifo ?s = cs"
    "handed ?s = handed s"
    using push(2) fifo by (simp_all add: pushed_def mode_of_def handed_def)
  ultimately show ?thesis using push(1) by blast
qed

text \<open>The receiver refines the abstract one.\<close>

definition agrees :: "uart_rx \<Rightarrow> bool" where
  "agrees s \<longleftrightarrow> (case feed F (rxfifo s) (mode_of s) (content s) of
     Inl (d, r, cs) \<Rightarrow> \<exists>s'. recv s = map_option (\<lambda>out. (Returned, out, s')) (result d) \<and>
       rx_inv F s' \<and> status s' = STATUS_LEN \<and> content s' = r \<and> rxfifo s' = cs \<and> handed s' = handed s
   | Inr (m, l) \<Rightarrow> \<exists>s'. recv s = Some (Spinning, idle, s') \<and> rx_inv F s' \<and> mode_of s' = m \<and>
       content s' = l \<and> rxfifo s' = [] \<and> handed s' = handed s)"

lemma feed_cong_next:
  "next_frame F m l = next_frame F m' l' \<Longrightarrow> feed F cs m l = feed F cs m' l'"
  by (cases cs) simp_all

lemma agrees_step:
  assumes "recv s = recv s'" "rxfifo s' = rxfifo s" "handed s' = handed s"
    "next_frame F (mode_of s') (content s') = next_frame F (mode_of s) (content s)" "agrees s'"
  shows "agrees s"
  using assms feed_cong_next [OF assms(4), of "rxfifo s"]
  by (auto simp: agrees_def split: sum.splits prod.splits)

lemma agrees_full:
  assumes inv: "rx_inv F s" and st: "status s = STATUS_DATA" and full: "full_at F (content s)"
  shows "agrees s"
proof -
  let ?n = "uartDataLen s + 3" let ?l = "content s"
  have l: "uartDataLen s = hdr ?l" "0 \<le> uartDataLen s" "?n \<le> uartRecvLen s"
    using inv st full rx_inv_length [OF inv] by (auto simp: rx_inv_def full_at_def)
  from drop_frame_content [OF inv l(2,3)] obtain buf where
    df: "drop_frame s = Some (s\<lparr>uartRecvBuffer := buf, uartRecvLen := uartRecvLen s - ?n,
      status := STATUS_LEN\<rparr>)"
    and buf: "length buf = length (uartRecvBuffer s)"
      "take (nat (uartRecvLen s - ?n)) buf = drop (nat ?n) ?l"
    by blast
  let ?s = "s\<lparr>uartRecvBuffer := buf, uartRecvLen := uartRecvLen s - ?n, status := STATUS_LEN\<rparr>"
  have "next_frame F (mode_of s) ?l =
      Frame (take (nat (uartDataLen s)) (drop 2 ?l)) (drop (nat ?n) ?l)"
    using st full l by (simp add: next_frame_Sync)
  then have "feed F (rxfifo s) (mode_of s) ?l =
      Inl (take (nat (uartDataLen s)) (drop 2 ?l), drop (nat ?n) ?l, rxfifo s)"
    by (cases "rxfifo s") simp_all
  moreover have "rx_inv F ?s" "content ?s = drop (nat ?n) ?l"
    using inv buf l by (auto simp: rx_inv_def content_def)
  ultimately show ?thesis
    using done_law [OF inv st l(3) full df] by (auto simp: agrees_def handed_def)
qed

lemma agrees_waiting:
  assumes inv: "rx_inv F s" and wait: "waiting s"
    and later: "\<And>s' c cs. rxfifo s = c # cs \<Longrightarrow> rx_inv F s' \<Longrightarrow> rxfifo s' = cs \<Longrightarrow> agrees s'"
  shows "agrees s"
proof -
  have more: "next_frame F (mode_of s) (content s) = More (mode_of s) (content s)"
    using inv wait by (rule waiting_More [OF fmt])
  show ?thesis
  proof (cases "rxfifo s")
    case Nil
    with idle_law [OF wait] inv more show ?thesis by (simp add: agrees_def)
  next
    case (Cons c cs)
    from recv_fetch [OF inv wait Cons] obtain s' where s': "recv s = recv s'" "rx_inv F s'"
      "mode_of s' = mode_of s" "content s' = content s @ c" "rxfifo s' = cs"
      "handed s' = handed s"
      by blast
    then have "agrees s'" using later [OF Cons] by blast
    with s' Cons more show ?thesis
      by (auto simp: agrees_def split: sum.splits prod.splits)
  qed
qed

lemma refines: "rx_inv F s \<Longrightarrow> agrees s"
proof (induction "rxfifo s" arbitrary: s rule: measure_induct_rule [of length])
  case less
  from settle [OF less.prems] obtain s1 where
    s1: "recv s = recv s1" "rx_inv F s1" "settled F s1" "rxfifo s1 = rxfifo s" "handed s1 = handed s"
      "next_frame F (mode_of s1) (content s1) = next_frame F (mode_of s) (content s)"
    by (auto simp: settles_to_def same_env_def handed_def)
  have waiting_case: "agrees s2" if "rx_inv F s2" "waiting s2" "rxfifo s2 = rxfifo s" for s2
  proof (rule agrees_waiting [OF that(1,2)])
    fix s' c cs
    assume "rxfifo s2 = c # cs" "rx_inv F s'" "rxfifo s' = cs"
    then show "agrees s'"
      using less.hyps [of s'] that(3) by simp
  qed
  have "agrees s1"
  proof (cases "waiting s1")
    case True
    with s1 show ?thesis by (intro waiting_case) simp_all
  next
    case False
    show ?thesis
    proof (cases "lost F s1")
      case True
      then have r: "relocate (sep F) s1 = Some (False, s1\<lparr>uartRecvLen := 0\<rparr>)"
        using relocate_None [OF s1(2)] by (simp add: lost_def after_split_None_iff)
      have "rx_inv F (s1\<lparr>uartRecvLen := 0\<rparr>)" "waiting (s1\<lparr>uartRecvLen := 0\<rparr>)"
        using s1(2) True by (auto simp: rx_inv_def waiting_def lost_def link_consts)
      then have "agrees (s1\<lparr>uartRecvLen := 0\<rparr>)"
        using s1(4) by (intro waiting_case) simp_all
      moreover have "next_frame F Hunt (content (s1\<lparr>uartRecvLen := 0\<rparr>)) =
          next_frame F Hunt (content s1)"
        using True by (simp add: lost_def after_split_None_iff [symmetric] next_frame_Hunt content_def)
      ultimately show ?thesis
        using True lost_law [OF _ _ r]
        by (intro agrees_step [of s1 "s1\<lparr>uartRecvLen := 0\<rparr>"]) (auto simp: lost_def handed_def)
    next
      case no: False
      with False s1(3) have "status s1 = STATUS_DATA" "full_at F (content s1)"
        by (auto simp: settled_def)
      then show ?thesis by (rule agrees_full [OF s1(2)])
    qed
  qed
  with s1 show ?case by (intro agrees_step [of s s1]) simp_all
qed

lemma receives:
  assumes "rx_inv F s"
  shows "case next_frame F (mode_of s) (content s @ concat (rxfifo s)) of
     Frame d r \<Rightarrow> \<exists>s'. recv s = map_option (\<lambda>out. (Returned, out, s')) (result d) \<and>
       rx_inv F s' \<and> status s' = STATUS_LEN \<and> content s' @ concat (rxfifo s') = r \<and> handed s' = handed s
   | More m l \<Rightarrow> \<exists>s'. recv s = Some (Spinning, idle, s') \<and> rx_inv F s' \<and> mode_of s' = m \<and>
       content s' = l \<and> rxfifo s' = [] \<and> handed s' = handed s"
  using refines [OF assms] feed_stream [of F "mode_of s" "content s" "rxfifo s"]
  by (auto simp: agrees_def split: sum.splits)

end


section \<open>The shared control flow\<close>

text \<open>The loop the three functions of the source have in common, around the test and the result that
  differ. A function that unfolds to it is a blocking receiver.\<close>

definition recv_body ::
  "frame_fmt \<Rightarrow> (uart_rx \<Rightarrow> bool option) \<Rightarrow> (uart_rx \<Rightarrow> 'o option) \<Rightarrow> 'o \<Rightarrow>
   (uart_rx \<Rightarrow> (wait \<times> 'o \<times> uart_rx) option) \<Rightarrow> uart_rx \<Rightarrow> (wait \<times> 'o \<times> uart_rx) option" where
  "recv_body F bad_frame finish idle recv s =
     (if waiting s then
        (if rxfifo s = [] then Some (Spinning, idle, s) else do {
           (ret, s) \<leftarrow> uart0_recv_data (uartRecvLen s) s;
           if ret \<le> 0 then recv s
           else if status s = STATUS_SPLIT then do {
             (fnd, s) \<leftarrow> relocate (sep F) (s\<lparr>uartRecvLen := int16 (uartRecvLen s + ret)\<rparr>);
             recv s }
           else recv (s\<lparr>uartRecvLen := int16 (uartRecvLen s + ret)\<rparr>) })
      else (case status s of
        STATUS_LEN \<Rightarrow> do {
          dl \<leftarrow> load_len s;
          recv (s\<lparr>uartDataLen := dl,
                  status := (if ok_len F dl then STATUS_DATA else STATUS_SPLIT)\<rparr>) }
      | STATUS_DATA \<Rightarrow> do {
          bad \<leftarrow> bad_frame s;
          if bad then recv (s\<lparr>status := STATUS_SPLIT\<rparr>)
          else do { out \<leftarrow> finish s; s \<leftarrow> drop_frame s; Some (Returned, out, s) } }
      | STATUS_SPLIT \<Rightarrow> do {
          (fnd, s) \<leftarrow> relocate (sep F) s;
          recv s }))"

lemma recv_body_receiver:
  assumes fmt: "fmt_ok F"
    and unfold: "\<And>s. recv s = recv_body F bad_frame finish idle recv s"
    and bad: "\<And>s. rx_inv F s \<Longrightarrow> status s = STATUS_DATA \<Longrightarrow> uartDataLen s + 3 \<le> uartRecvLen s \<Longrightarrow>
      bad_frame s = Some (\<not> ok_frame F (take (nat (uartDataLen s + 3)) (content s)))"
    and finish: "\<And>s. rx_inv F s \<Longrightarrow> status s = STATUS_DATA \<Longrightarrow> uartDataLen s + 3 \<le> uartRecvLen s \<Longrightarrow>
      finish s = result (take (nat (uartDataLen s)) (drop 2 (content s)))"
  shows "blocking_receiver F recv result idle"
proof
  show "fmt_ok F" by (rule fmt)
next
  fix s dl
  assume "status s = STATUS_LEN" "2 \<le> uartRecvLen s" "load_len s = Some dl"
  then show "recv s = recv (s\<lparr>uartDataLen := dl, status := if ok_len F dl then STATUS_DATA else STATUS_SPLIT\<rparr>)"
    by (subst unfold) (simp add: recv_body_def waiting_def)
next
  fix s
  assume "rx_inv F s" "status s = STATUS_DATA" "uartDataLen s + 3 \<le> uartRecvLen s" "bad_at F (content s)"
  then show "recv s = recv (s\<lparr>status := STATUS_SPLIT\<rparr>)"
    using bad [of s] data_full_or_bad [OF fmt, of s]
    by (subst unfold) (simp add: recv_body_def waiting_def)
next
  fix s s'
  assume "status s = STATUS_SPLIT" "uartRecvLen s \<noteq> 0" "relocate (sep F) s = Some (True, s')"
  then show "recv s = recv s'"
    by (subst unfold) (simp add: recv_body_def waiting_def)
next
  fix s
  assume "waiting s" "rxfifo s = []"
  then show "recv s = Some (Spinning, idle, s)"
    by (subst unfold) (simp add: recv_body_def)
next
  fix s s1
  assume "waiting s" "rxfifo s \<noteq> []" "uart0_recv_data (uartRecvLen s) s = Some (0, s1)"
  then show "recv s = recv s1"
    by (subst unfold) (simp add: recv_body_def)
next
  fix s s1 :: uart_rx and ret :: int
  let ?s = "s1\<lparr>uartRecvLen := int16 (uartRecvLen s + ret)\<rparr>"
  assume A: "waiting s" "rxfifo s \<noteq> []" "uart0_recv_data (uartRecvLen s) s = Some (ret, s1)" "0 < ret"
    "int16 (uartRecvLen s + ret) = uartRecvLen s + ret"
  note s1 = uart0_recv_data_frame [OF A(3)]
  show "recv s = recv ?s"
  proof (cases "status s = STATUS_SPLIT")
    case True
    with A s1 have "\<not> waiting ?s" by (simp add: waiting_def)
    with A s1 True unfold [of s] unfold [of ?s] show ?thesis by (simp add: recv_body_def)
  next
    case False
    with A s1 show ?thesis by (subst unfold) (simp add: recv_body_def)
  qed
next
  fix s s'
  assume "status s = STATUS_SPLIT" "uartRecvLen s \<noteq> 0" "relocate (sep F) s = Some (False, s')"
  then show "recv s = recv s'"
    by (subst unfold) (simp add: recv_body_def waiting_def)
next
  fix s s'
  assume A: "rx_inv F s" "status s = STATUS_DATA" "uartDataLen s + 3 \<le> uartRecvLen s"
    "full_at F (content s)" "drop_frame s = Some s'"
  then show "recv s = map_option (\<lambda>out. (Returned, out, s')) (result (take (nat (uartDataLen s)) (drop 2 (content s))))"
    using bad [OF A(1-3)] finish [OF A(1-3)] data_full_or_bad [OF fmt A(1-3)]
    by (subst unfold) (simp add: recv_body_def waiting_def map_option_case split: option.splits)
qed


section \<open>The receivers of the source\<close>

subsection \<open>Network name and password\<close>

definition ssid_fmt :: frame_fmt where
  "ssid_fmt = \<lparr>ok_len = (\<lambda>dl. \<not> (dl > WPA_MAX_SSID_LEN \<or> dl < WPA_MIN_SSID_LEN)),
     ok_frame = (\<lambda>f. \<not> (f ! (length f - 2) \<noteq> 0 \<and> last f \<noteq> SPLIT_CMD)), sep = SPLIT_CMD\<rparr>"

definition passwd_fmt :: frame_fmt where
  "passwd_fmt = \<lparr>ok_len = (\<lambda>dl. \<not> (dl > WPA_MAX_PASSWD_LEN \<or> dl < WPA_MIN_PASSWD_LEN)),
     ok_frame = (\<lambda>f. \<not> (f ! (length f - 2) \<noteq> 0 \<and> last f \<noteq> SPLIT_CMD)), sep = SPLIT_CMD\<rparr>"

definition wpa_bad_frame :: "uart_rx \<Rightarrow> bool option" where
  "wpa_bad_frame s = do {
     z \<leftarrow> blk_get (uartRecvBuffer s) (uartDataLen s + 1);
     if z \<noteq> 0
     then do { e \<leftarrow> blk_get (uartRecvBuffer s) (uartDataLen s + 2); Some (e \<noteq> SPLIT_CMD) }
     else Some False }"

definition wpa_finish :: "byte list \<Rightarrow> uart_rx \<Rightarrow> byte list option" where
  "wpa_finish output s = do {
     bs \<leftarrow> blk_read (uartRecvBuffer s) 2 (uartDataLen s);
     blk_write output 0 bs }"

lemma wpa_laws:
  assumes "rx_inv F s" "0 \<le> uartDataLen s" "uartDataLen s + 3 \<le> uartRecvLen s"
  shows "wpa_bad_frame s = Some (let f = take (nat (uartDataLen s + 3)) (content s) in
      f ! (length f - 2) \<noteq> 0 \<and> last f \<noteq> SPLIT_CMD)"
    and "wpa_finish output s = blk_write output 0 (take (nat (uartDataLen s)) (drop 2 (content s)))"
  using frame_window [OF assms] by (simp_all add: wpa_bad_frame_def wpa_finish_def Let_def)


lemma wpa_laws_fmt:
  assumes "fmt_ok F" "rx_inv F s" "status s = STATUS_DATA" "uartDataLen s + 3 \<le> uartRecvLen s"
  shows "wpa_bad_frame s = Some (let f = take (nat (uartDataLen s + 3)) (content s) in
      f ! (length f - 2) \<noteq> 0 \<and> last f \<noteq> SPLIT_CMD)"
    and "wpa_finish output s = blk_write output 0 (take (nat (uartDataLen s)) (drop 2 (content s)))"
proof -
  have "0 \<le> uartDataLen s"
    using assms fmt_okD [OF assms(1), of "uartDataLen s"] by (auto simp: rx_inv_def)
  with wpa_laws [OF assms(2) _ assms(4)]
  show "wpa_bad_frame s = Some (let f = take (nat (uartDataLen s + 3)) (content s) in
      f ! (length f - 2) \<noteq> 0 \<and> last f \<noteq> SPLIT_CMD)"
    and "wpa_finish output s = blk_write output 0 (take (nat (uartDataLen s)) (drop 2 (content s)))"
    by simp_all
qed

lemma wpa_fmt_ok: "fmt_ok ssid_fmt" "fmt_ok passwd_fmt"
  by (auto simp: fmt_ok_def ssid_fmt_def passwd_fmt_def link_consts WPA_MIN_SSID_LEN_def
      WPA_MIN_PASSWD_LEN_def)

interpretation ssid: blocking_receiver ssid_fmt "recv_ssid out" "blk_write out 0" out
  for out :: "byte list"
proof (rule recv_body_receiver [where bad_frame = wpa_bad_frame and finish = "wpa_finish out"])
  show "recv_ssid out s = recv_body ssid_fmt wpa_bad_frame (wpa_finish out) out (recv_ssid out) s" for s
    by (subst recv_ssid.simps)
      (auto simp: recv_body_def waiting_def ssid_fmt_def wpa_bad_frame_def wpa_finish_def
        split: status.splits intro!: Option.bind_cong [OF refl] dest!: uart0_recv_data_frame)
qed (simp_all add: wpa_fmt_ok wpa_laws_fmt [of ssid_fmt] ssid_fmt_def [THEN arg_cong, of ok_frame] Let_def)

interpretation passwd: blocking_receiver passwd_fmt "recv_passwd out" "blk_write out 0" out
  for out :: "byte list"
proof (rule recv_body_receiver [where bad_frame = wpa_bad_frame and finish = "wpa_finish out"])
  show "recv_passwd out s = recv_body passwd_fmt wpa_bad_frame (wpa_finish out) out (recv_passwd out) s" for s
    by (subst recv_passwd.simps)
      (auto simp: recv_body_def waiting_def passwd_fmt_def wpa_bad_frame_def wpa_finish_def
        split: status.splits intro!: Option.bind_cong [OF refl] dest!: uart0_recv_data_frame)
qed (simp_all add: wpa_fmt_ok wpa_laws_fmt [of passwd_fmt] passwd_fmt_def [THEN arg_cong, of ok_frame] Let_def)


subsection \<open>The echo of the interface configuration\<close>

text \<open>An address as the bytes of its \<open>ip4_addr_t\<close> in memory.\<close>

type_synonym ip4_addr = "byte \<times> byte \<times> byte \<times> byte"

fun ip4_bytes :: "ip4_addr \<Rightarrow> byte list" where
  "ip4_bytes (a, b, c, d) = [a, b, c, d]"

definition netif_info_frame :: "ip4_addr \<Rightarrow> ip4_addr \<Rightarrow> ip4_addr \<Rightarrow> byte list" where
  "netif_info_frame ip netmask gw =
     mk_frame SPLIT_CMD (ip4_bytes ip @ ip4_bytes netmask @ ip4_bytes gw)"

definition netif_fmt :: "byte list \<Rightarrow> frame_fmt" where
  "netif_fmt ni = \<lparr>ok_len = (\<lambda>dl. dl = 12), ok_frame = (\<lambda>f. f = ni), sep = SPLIT_CMD\<rparr>"

lemma length_ip4_bytes [simp]: "length (ip4_bytes a) = 4"
  by (cases a) simp

lemma length_netif_info_frame [simp]: "length (netif_info_frame ip netmask gw) = 15"
  by (simp add: netif_info_frame_def)

lemma netif_info_frame_hdr:
  "blk_get (netif_info_frame ip netmask gw) 0 = Some 12"
  "blk_get (netif_info_frame ip netmask gw) 1 = Some 0"
  by (simp_all add: blk_get_def netif_info_frame_def mk_frame_def store_u16_def)

definition netif_bad_frame :: "byte list \<Rightarrow> uart_rx \<Rightarrow> bool option" where
  "netif_bad_frame ni s = do {
     e \<leftarrow> blk_get (uartRecvBuffer s) (uartDataLen s + 2);
     if e \<noteq> SPLIT_CMD then Some True
     else do {
       got \<leftarrow> blk_read (uartRecvBuffer s) 0 15;
       want \<leftarrow> blk_read ni 0 15;
       Some (got \<noteq> want) } }"

lemma netif_fmt_ok: "fmt_ok (netif_fmt ni)"
  by (simp add: fmt_ok_def netif_fmt_def link_consts)

lemma netif_bad_law:
  assumes "rx_inv (netif_fmt ni) s" "status s = STATUS_DATA" "uartDataLen s + 3 \<le> uartRecvLen s"
    and ni: "ni = netif_info_frame ip netmask gw"
  shows "netif_bad_frame ni s = Some (take (nat (uartDataLen s + 3)) (content s) \<noteq> ni)"
proof -
  have dl: "uartDataLen s = 12"
    using assms by (simp add: rx_inv_def netif_fmt_def)
  have "last ni = SPLIT_CMD"
    by (simp add: ni netif_info_frame_def)
  then show ?thesis
    using frame_window [OF assms(1), of 12] assms(3) dl ni
    by (auto simp: netif_bad_frame_def blk_read_def)
qed

interpretation netif: blocking_receiver "netif_fmt (netif_info_frame ip netmask gw)"
  "\<lambda>s. map_option (\<lambda>(w, s'). (w, (), s')) (recv_netif_info (netif_info_frame ip netmask gw) 15 s)"
  "\<lambda>d. Some ()" "()"
  for ip netmask gw :: ip4_addr
proof (rule recv_body_receiver [where bad_frame = "netif_bad_frame (netif_info_frame ip netmask gw)"
        and finish = "\<lambda>s. Some ()"])
  let ?ni = "netif_info_frame ip netmask gw"
  let ?recv = "\<lambda>s. map_option (\<lambda>(w, s'). (w, (), s')) (recv_netif_info ?ni 15 s)"
  have 12: "load_i16 12 0 = 12"
    by (simp add: load_i16_def load_u16_def int16_def)
  show "?recv s = recv_body (netif_fmt ?ni) (netif_bad_frame ?ni) (\<lambda>s. Some ()) () ?recv s" for s
    by (subst recv_netif_info.simps)
      (auto simp: recv_body_def waiting_def netif_fmt_def netif_bad_frame_def netif_info_frame_hdr 12
        map_option_bind
        split: status.splits intro!: Option.bind_cong [OF refl] dest!: uart0_recv_data_frame)
  show "netif_bad_frame ?ni s = Some (\<not> ok_frame (netif_fmt ?ni) (take (nat (uartDataLen s + 3)) (content s)))"
    if "rx_inv (netif_fmt ?ni) s" "status s = STATUS_DATA" "uartDataLen s + 3 \<le> uartRecvLen s" for s
    using netif_bad_law [OF that refl] by (simp add: netif_fmt_def)
qed (simp_all add: netif_fmt_ok)


section \<open>Properties\<close>

lemma rx_inv_init: "fifo_ok fifo \<Longrightarrow> rx_inv F (uart_rx_init fifo)"
  by (simp add: uart_rx_init_def rx_inv_def link_consts)

lemma rx_init_simps:
  "mode_of (uart_rx_init fifo) = Sync" "content (uart_rx_init fifo) = []"
  "rxfifo (uart_rx_init fifo) = fifo"
  by (simp_all add: uart_rx_init_def content_def mode_of_def)

lemma blk_write_front: "length d \<le> length out \<Longrightarrow> blk_write out 0 d = Some (d @ drop (length d) out)"
  by (simp add: blk_write_def)

lemma next_frame_ok_len: "next_frame F m s = Frame d r \<Longrightarrow> ok_len F (int (length d))"
proof (induction F m s rule: next_frame.induct)
  case (1 F s)
  then show ?case by (auto simp: next_frame_Hunt [of F s] split: option.splits)
next
  case (2 F s)
  show ?case
  proof (cases "full_at F s")
    case True
    with "2.prems" have "d = take (nat (hdr s)) (drop 2 s)"
      by (simp add: next_frame_Sync [of F s])
    with True have "int (length d) = hdr s"
      by (auto simp: full_at_def)
    with True show ?thesis by (simp add: full_at_def)
  next
    case False
    with "2.prems" have "bad_at F s" "next_frame F Hunt s = Frame d r"
      by (auto simp: next_frame_Sync [of F s] split: if_splits)
    with "2.IH" show ?thesis
      by (cases "ok_len F (hdr s) \<and> 0 \<le> hdr s") (auto simp: bad_at_def)
  qed
qed

text \<open>C17: \<open>recv_ssid\<close> on every byte stream. With the 32 byte field of the Wi-Fi configuration as its
  output it never leaves its buffers. If the bytes received so far and the bytes to come contain a
  frame the format accepts (after skipping to a separator where one is needed), it returns, has
  copied the payload of the first such frame into the field and keeps everything behind the frame for
  the next receiver; otherwise it is still waiting.\<close>

theorem recv_ssid_receives:
  assumes "rx_inv ssid_fmt s" "length out = 32"
  shows "case next_frame ssid_fmt (mode_of s) (content s @ concat (rxfifo s)) of
     Frame d r \<Rightarrow> \<exists>s'. recv_ssid out s = Some (Returned, d @ drop (length d) out, s') \<and>
       rx_inv ssid_fmt s' \<and> status s' = STATUS_LEN \<and> content s' @ concat (rxfifo s') = r
   | More m l \<Rightarrow> \<exists>s'. recv_ssid out s = Some (Spinning, out, s') \<and> rx_inv ssid_fmt s' \<and>
       mode_of s' = m \<and> content s' = l \<and> rxfifo s' = []"
  using ssid.receives [OF assms(1), of out] assms(2)
    next_frame_ok_len [of ssid_fmt "mode_of s" "content s @ concat (rxfifo s)"]
  by (auto simp: blk_write_front ssid_fmt_def link_consts split: scan_result.splits)

theorem recv_ssid_receives_witness:
  "\<exists>s'. recv_ssid (replicate 32 0) (uart_rx_init [[5, 0, 0x6d], [0x6f, 0x74, 0x6f, 0, 0xaa, 8]]) =
      Some (Returned, [0x6d, 0x6f, 0x74, 0x6f, 0] @ replicate 27 0, s') \<and>
    rx_inv ssid_fmt s' \<and> status s' = STATUS_LEN \<and> content s' @ concat (rxfifo s') = [8]"
proof -
  let ?fifo = "[[5, 0, 0x6d], [0x6f, 0x74, 0x6f, 0, 0xaa, 8 :: byte]]"
  have "rx_inv ssid_fmt (uart_rx_init ?fifo)"
    by (rule rx_inv_init) (simp add: fifo_ok_def UART_FIFO_LEN_def)
  moreover have "concat ?fifo = mk_frame SPLIT_CMD [0x6d, 0x6f, 0x74, 0x6f, 0] @ [8]"
    by (simp add: mk_frame_def store_u16_def SPLIT_CMD_def)
  then have "next_frame ssid_fmt Sync (concat ?fifo) = Frame [0x6d, 0x6f, 0x74, 0x6f, 0] [8]"
    by (simp only:) (rule next_frame_mk_frame, simp_all add: ssid_fmt_def link_consts WPA_MIN_SSID_LEN_def)
  ultimately show ?thesis
    using recv_ssid_receives [of "uart_rx_init ?fifo" "replicate 32 0"]
    by (simp add: rx_init_simps)
qed

text \<open>C18: \<open>recv_passwd\<close> on every byte stream, with the 64 byte field of the Wi-Fi configuration as its
  output: as for \<open>recv_ssid\<close>, with the length bounds of a password.\<close>

theorem recv_passwd_receives:
  assumes "rx_inv passwd_fmt s" "length out = 64"
  shows "case next_frame passwd_fmt (mode_of s) (content s @ concat (rxfifo s)) of
     Frame d r \<Rightarrow> \<exists>s'. recv_passwd out s = Some (Returned, d @ drop (length d) out, s') \<and>
       rx_inv passwd_fmt s' \<and> status s' = STATUS_LEN \<and> content s' @ concat (rxfifo s') = r
   | More m l \<Rightarrow> \<exists>s'. recv_passwd out s = Some (Spinning, out, s') \<and> rx_inv passwd_fmt s' \<and>
       mode_of s' = m \<and> content s' = l \<and> rxfifo s' = []"
  using passwd.receives [OF assms(1), of out] assms(2)
    next_frame_ok_len [of passwd_fmt "mode_of s" "content s @ concat (rxfifo s)"]
  by (auto simp: blk_write_front passwd_fmt_def link_consts split: scan_result.splits)

theorem recv_passwd_receives_witness:
  "\<exists>s'. recv_passwd (replicate 64 0) (uart_rx_init [[3, 0]]) = Some (Spinning, replicate 64 0, s') \<and>
    rx_inv passwd_fmt s' \<and> mode_of s' = Hunt \<and> content s' = [] \<and> rxfifo s' = []"
proof -
  have "rx_inv passwd_fmt (uart_rx_init [[3, 0]])"
    by (rule rx_inv_init) (simp add: fifo_ok_def UART_FIFO_LEN_def)
  moreover have "next_frame passwd_fmt Sync [3, 0] = More Hunt []"
    by (simp add: next_frame_Sync next_frame_Hunt full_at_def bad_at_def hdr_def load_i16_def load_u16_def
        int16_def passwd_fmt_def link_consts WPA_MIN_PASSWD_LEN_def)
  ultimately show ?thesis
    using recv_passwd_receives [of "uart_rx_init [[3, 0]]" "replicate 64 0"]
    by (simp add: rx_init_simps)
qed


text \<open>C19: \<open>recv_netif_info\<close> waits for the echo of the configuration it has sent. On every byte stream it
  returns exactly when the stream contains a frame that equals the sent one byte by byte, and it
  keeps everything behind that frame.\<close>

theorem recv_netif_info_receives:
  assumes "rx_inv (netif_fmt (netif_info_frame ip netmask gw)) s"
  shows "case next_frame (netif_fmt (netif_info_frame ip netmask gw)) (mode_of s)
      (content s @ concat (rxfifo s)) of
     Frame d r \<Rightarrow> \<exists>s'. recv_netif_info (netif_info_frame ip netmask gw) 15 s = Some (Returned, s') \<and>
       rx_inv (netif_fmt (netif_info_frame ip netmask gw)) s' \<and> status s' = STATUS_LEN \<and>
       content s' @ concat (rxfifo s') = r
   | More m l \<Rightarrow> \<exists>s'. recv_netif_info (netif_info_frame ip netmask gw) 15 s = Some (Spinning, s') \<and>
       mode_of s' = m \<and> content s' = l \<and> rxfifo s' = []"
  using netif.receives [OF assms] by (auto split: scan_result.splits)

theorem recv_netif_info_receives_witness:
  "\<exists>s'. recv_netif_info (netif_info_frame (192, 168, 1, 2) (255, 255, 255, 0) (192, 168, 1, 1)) 15
      (uart_rx_init [netif_info_frame (192, 168, 1, 2) (255, 255, 255, 0) (192, 168, 1, 1) @ [0, 0]]) =
      Some (Returned, s') \<and>
    rx_inv (netif_fmt (netif_info_frame (192, 168, 1, 2) (255, 255, 255, 0) (192, 168, 1, 1))) s' \<and>
    status s' = STATUS_LEN \<and> content s' @ concat (rxfifo s') = [0, 0]"
proof -
  let ?ni = "netif_info_frame (192, 168, 1, 2) (255, 255, 255, 0) (192, 168, 1, 1)"
  have "rx_inv (netif_fmt ?ni) (uart_rx_init [?ni @ [0, 0]])"
    by (rule rx_inv_init) (simp add: fifo_ok_def UART_FIFO_LEN_def)
  moreover have "next_frame (netif_fmt ?ni) Sync (?ni @ [0, 0]) =
      Frame (ip4_bytes (192, 168, 1, 2) @ ip4_bytes (255, 255, 255, 0) @ ip4_bytes (192, 168, 1, 1)) [0, 0]"
    by (subst (2) netif_info_frame_def) (rule next_frame_mk_frame, simp_all add: netif_fmt_def netif_info_frame_def)
  ultimately show ?thesis
    using recv_netif_info_receives [of "(192, 168, 1, 2)" "(255, 255, 255, 0)" "(192, 168, 1, 1)"
        "uart_rx_init [?ni @ [0, 0]]"]
    by (simp add: rx_init_simps)
qed

text \<open>C24: the closing byte of a name frame is not checked. The test of \<open>recv_ssid\<close> rejects a frame only
  when the text is not terminated and the split byte is wrong; every frame with a terminated text is
  accepted whatever its last byte is, also when it is not \<open>SPLIT_CMD\<close>.\<close>

theorem recv_ssid_ignores_split_byte:
  assumes "fifo_ok fifo" "concat fifo = mk_frame e (name @ [0]) @ r" "length name \<le> 31" "length out = 32"
  shows "\<exists>s'. recv_ssid out (uart_rx_init fifo) = Some (Returned, name @ [0] @ drop (length name + 1) out, s') \<and>
    content s' @ concat (rxfifo s') = r"
proof -
  have "next_frame ssid_fmt Sync (mk_frame e (name @ [0]) @ r) = Frame (name @ [0]) r"
    using assms(3) by (intro next_frame_mk_frame)
      (simp_all add: ssid_fmt_def link_consts WPA_MIN_SSID_LEN_def mk_frame_def store_u16_def nth_append)
  then show ?thesis
    using ssid.receives [OF rx_inv_init [OF assms(1)], of out] assms
    by (auto simp: rx_init_simps blk_write_front)
qed

theorem recv_ssid_ignores_split_byte_witness:
  "\<exists>s'. recv_ssid (replicate 32 0) (uart_rx_init [mk_frame 0x00 ([0x6d] @ [0]) @ []]) =
      Some (Returned, [0x6d] @ [0] @ drop (length [0x6d :: byte] + 1) (replicate 32 0), s') \<and>
    content s' @ concat (rxfifo s') = [] \<and> (0x00 :: byte) \<noteq> SPLIT_CMD"
  using recv_ssid_ignores_split_byte [of "[mk_frame 0 ([0x6d] @ [0]) @ []]" 0 "[0x6d]" "[]" "replicate 32 0"]
  by (simp add: fifo_ok_def UART_FIFO_LEN_def SPLIT_CMD_def)

end
