(* ===== verification/Esp_Packets.thy ===== *)
theory Esp_Packets
  imports Esp_Receive
begin

text \<open>
  Correctness of \<open>uart2wifi\<close>, the packet path from the UART to the Wi-Fi interface: it never leaves
  its buffers, it hands exactly the packets of the byte stream to the interface, in order and each
  once, whatever the sizes of the FIFO samples and however often the allocation or the output fails,
  and after finitely many calls everything that has arrived has been handed over.
\<close>

interpretation u2w: receiver data_fmt "uart2wifi alloc_ok err"
  for alloc_ok :: bool and err :: int
proof
  show "fmt_ok data_fmt"
    by (auto simp: fmt_ok_def data_fmt_def)
next
  fix s dl
  assume "status s = STATUS_LEN" "2 \<le> uartRecvLen s" "load_len s = Some dl"
  then show "uart2wifi alloc_ok err s = uart2wifi alloc_ok err
      (s\<lparr>uartDataLen := dl, status := if ok_len data_fmt dl then STATUS_DATA else STATUS_SPLIT\<rparr>)"
    by (subst uart2wifi.simps) (auto simp: data_fmt_def)
next
  fix s
  assume A: "rx_inv data_fmt s" "status s = STATUS_DATA" "uartDataLen s + 3 \<le> uartRecvLen s"
    "bad_at data_fmt (content s)"
  then have "0 \<le> uartDataLen s"
    by (simp add: rx_inv_def data_fmt_def)
  with A frame_window(3) [OF A(1) _ A(3)]
  have "\<exists>e. blk_get (uartRecvBuffer s) (uartDataLen s + 2) = Some e \<and> e \<noteq> SPLIT_DATA"
    by (auto simp: bad_at_def rx_inv_def data_fmt_def)
  with A show "uart2wifi alloc_ok err s = uart2wifi alloc_ok err (s\<lparr>status := STATUS_SPLIT\<rparr>)"
    by (subst uart2wifi.simps) auto
next
  fix s s'
  assume "status s = STATUS_SPLIT" "uartRecvLen s \<noteq> 0" "relocate (sep data_fmt) s = Some (True, s')"
  then show "uart2wifi alloc_ok err s = uart2wifi alloc_ok err s'"
    by (subst uart2wifi.simps) (simp add: data_fmt_def)
qed


section \<open>One call\<close>

definition stream :: "uart_rx \<Rightarrow> byte list" where
  "stream s = content s @ concat (rxfifo s)"

definition todo :: "uart_rx \<Rightarrow> byte list list" where
  \<comment> \<open>the packets that are still in the received bytes and in the samples to come\<close>
  "todo s = payloads data_fmt (mode_of s) (stream s)"

definition with_dest :: "byte list \<Rightarrow> byte list \<times> byte list" where
  \<comment> \<open>a packet and the destination address of its IP header\<close>
  "with_dest p = (p, take 4 (drop 16 p))"

definition pk_inv :: "uart_rx \<Rightarrow> bool" where
  "pk_inv s \<longleftrightarrow> rx_inv data_fmt s \<and>
     (\<forall>p. send_pbuf s = Some p \<longrightarrow> status s = STATUS_DATA \<and> full_at data_fmt (content s) \<and>
        p = take (nat (uartDataLen s)) (drop 2 (content s)) \<and> dest s = take 4 (drop 16 p))"

definition weight :: "uart_rx \<Rightarrow> nat" where
  "weight s = length (rxfifo s) + length (stream s)"

definition call_ok :: "bool \<Rightarrow> int \<Rightarrow> uart_rx \<Rightarrow> uart_rx \<Rightarrow> bool" where
  "call_ok alloc_ok err s s' \<longleftrightarrow> pk_inv s' \<and>
     (\<exists>ds. length ds \<le> 1 \<and> netif_output s' = netif_output s @ map with_dest ds \<and> todo s = ds @ todo s') \<and>
     (alloc_ok \<and> err = 0 \<longrightarrow> weight s' < weight s \<or> todo s = [])"

lemma call_ok_quiet:
  assumes "pk_inv s'" "netif_output s' = netif_output s" "todo s = todo s'"
    "alloc_ok \<and> err = 0 \<longrightarrow> weight s' < weight s \<or> todo s = []"
  shows "call_ok alloc_ok err s s'"
  using assms by (auto simp: call_ok_def intro!: exI [of _ "[]"])

lemma todo_cong:
  assumes "next_frame data_fmt (mode_of s') (content s') = next_frame data_fmt (mode_of s) (content s)"
    "rxfifo s' = rxfifo s"
  shows "todo s' = todo s"
  using payloads_cong [OF assms(1)] assms(2) by (simp add: todo_def stream_def)

text \<open>A complete frame in the buffer: its payload is taken into a packet buffer once, and handed over when the
  interface takes it.\<close>

definition pbuf_taken :: "uart_rx \<Rightarrow> uart_rx" where
  "pbuf_taken s = (let p = take (nat (uartDataLen s)) (drop 2 (content s)) in s\<lparr>send_pbuf := Some p, dest := take 4 (drop 16 p)\<rparr>)"

definition handed_over :: "uart_rx \<Rightarrow> uart_rx" where
  "handed_over s = (pbuf_taken s)\<lparr>netif_output := netif_output s @ [with_dest (take (nat (uartDataLen s)) (drop 2 (content s)))],
     send_pbuf := None\<rparr>"

lemma full_lengths:
  assumes "rx_inv data_fmt s" "status s = STATUS_DATA" "full_at data_fmt (content s)"
  shows "uartDataLen s = hdr (content s)" "20 \<le> uartDataLen s" "0 \<le> uartDataLen s" "uartDataLen s + 3 \<le> uartRecvLen s"
  using assms rx_inv_length [OF assms(1)] by (auto simp: rx_inv_def full_at_def data_fmt_def)

lemma uart2wifi_full:
  assumes inv: "pk_inv s" and st: "status s = STATUS_DATA" and full: "full_at data_fmt (content s)"
  shows "uart2wifi alloc_ok err s =
    (if send_pbuf s = None \<and> \<not> alloc_ok then Some s
     else if err \<noteq> 0 then Some (pbuf_taken s) else drop_frame (handed_over s))"
proof -
  have rx: "rx_inv data_fmt s" using inv by (simp add: pk_inv_def)
  let ?p = "take (nat (uartDataLen s)) (drop 2 (content s))"
  note l = full_lengths [OF rx st full]
  have split: "blk_get (uartRecvBuffer s) (uartDataLen s + 2) = Some SPLIT_DATA"
    using frame_window(3) [OF rx l(3,4)] full l(1) by (simp add: full_at_def data_fmt_def)
  have "length ?p = nat (uartDataLen s)"
    using l rx_inv_length [OF rx] by simp
  then have dst: "blk_read ?p 16 4 = Some (take 4 (drop 16 ?p))"
    using l(2) by (simp add: blk_read_def)
  have "(case send_pbuf s of Some p \<Rightarrow> Some s | None \<Rightarrow> do {
       p \<leftarrow> blk_read (uartRecvBuffer s) 2 (uartDataLen s);
       d \<leftarrow> blk_read p 16 4;
       Some (s\<lparr>send_pbuf := Some p, dest := d\<rparr>) }) = Some (pbuf_taken s)"
    using inv frame_window(4) [OF rx l(3,4)] dst by (auto simp: pbuf_taken_def pk_inv_def Let_def split: option.split)
  then show ?thesis
    using st l split by (subst uart2wifi.simps) (simp add: pbuf_taken_def handed_over_def with_dest_def Let_def)
qed

lemma hand_over_ok:
  assumes inv: "pk_inv s" and st: "status s = STATUS_DATA" and full: "full_at data_fmt (content s)"
  shows "\<exists>s'. drop_frame (handed_over s) = Some s' \<and> call_ok alloc_ok err s s'"
proof -
  have rx: "rx_inv data_fmt s" using inv by (simp add: pk_inv_def)
  let ?n = "uartDataLen s + 3" let ?l = "content s" let ?s = "handed_over s"
  let ?p = "take (nat (uartDataLen s)) (drop 2 ?l)"
  note l = full_lengths [OF rx st full]
  have same: "uartRecvLen ?s = uartRecvLen s" "uartDataLen ?s = uartDataLen s" "uartRecvBuffer ?s = uartRecvBuffer s"
    "content ?s = ?l" "rxfifo ?s = rxfifo s" "netif_output ?s = netif_output s @ [with_dest ?p]" "rx_inv data_fmt ?s"
    "send_pbuf ?s = None"
    using rx by (auto simp: handed_over_def pbuf_taken_def Let_def rx_inv_def content_def)
  from drop_frame_content [OF same(7)] obtain buf where
    df: "drop_frame ?s = Some (?s\<lparr>uartRecvBuffer := buf, uartRecvLen := uartRecvLen s - ?n, status := STATUS_LEN\<rparr>)"
    and buf: "length buf = length (uartRecvBuffer s)" "take (nat (uartRecvLen s - ?n)) buf = drop (nat ?n) ?l"
    using l same by auto
  let ?s' = "?s\<lparr>uartRecvBuffer := buf, uartRecvLen := uartRecvLen s - ?n, status := STATUS_LEN\<rparr>"
  have con: "content ?s' = drop (nat ?n) ?l"
    using buf by (simp add: content_def)
  have pk: "pk_inv ?s'"
    using rx buf l same by (auto simp: pk_inv_def rx_inv_def)
  have fr: "next_frame data_fmt (mode_of s) (stream s) = Frame ?p (drop (nat ?n) ?l @ concat (rxfifo s))"
    using st full l by (simp add: stream_def next_frame_append [of _ _ ?l] next_frame_Sync)
  then have "todo s = ?p # todo ?s'"
    using con same(5) by (simp add: todo_def payloads.simps [of _ "mode_of s"] stream_def)
  moreover have "weight ?s' < weight s"
    using next_frame_Frame_shorter [OF fr] con same(5) by (simp add: weight_def stream_def)
  ultimately have "call_ok alloc_ok err s ?s'"
    using pk same(6) by (auto simp: call_ok_def intro!: exI [of _ "[?p]"])
  with df show ?thesis by blast
qed

lemma call_full:
  assumes inv: "pk_inv s" and st: "status s = STATUS_DATA" and full: "full_at data_fmt (content s)"
  shows "\<exists>s'. uart2wifi alloc_ok err s = Some s' \<and> call_ok alloc_ok err s s'"
proof (cases "err = 0 \<and> (send_pbuf s \<noteq> None \<or> alloc_ok)")
  case True
  then show ?thesis
    using uart2wifi_full [OF assms, of alloc_ok err] hand_over_ok [OF assms, of alloc_ok err] by auto
next
  case False
  have "pk_inv (pbuf_taken s)" "todo (pbuf_taken s) = todo s" "netif_output (pbuf_taken s) = netif_output s"
    using inv st full by (auto simp: pbuf_taken_def Let_def pk_inv_def rx_inv_def todo_def stream_def mode_of_def content_def)
  moreover have "uart2wifi alloc_ok err s = Some s \<and> \<not> alloc_ok \<or> uart2wifi alloc_ok err s = Some (pbuf_taken s) \<and> err \<noteq> 0"
    using False uart2wifi_full [OF assms, of alloc_ok err] by auto
  ultimately show ?thesis
    using inv by (auto intro!: call_ok_quiet)
qed

lemma call_lost:
  assumes inv: "pk_inv s" and lost: "lost data_fmt s"
  shows "\<exists>s'. uart2wifi alloc_ok err s = Some s' \<and> call_ok alloc_ok err s s'"
proof -
  have rx: "rx_inv data_fmt s" and pb: "send_pbuf s = None"
    using inv lost by (auto simp: pk_inv_def lost_def)
  let ?s = "s\<lparr>uartRecvLen := 0\<rparr>"
  have "relocate SPLIT_DATA s = Some (False, ?s)"
    using relocate_None [OF rx] lost by (simp add: lost_def after_split_None_iff data_fmt_def)
  then have "uart2wifi alloc_ok err s = Some ?s"
    using lost by (subst uart2wifi.simps) (simp add: lost_def)
  moreover have "pk_inv ?s"
    using rx pb lost by (auto simp: pk_inv_def rx_inv_def lost_def link_consts)
  moreover have "todo s = todo ?s"
    using lost by (intro todo_cong [symmetric])
      (auto simp: lost_def next_frame_Hunt after_split_None_iff [symmetric] content_def)
  moreover have "weight ?s < weight s"
    using lost rx_inv_length [OF rx] rx
    by (auto simp: weight_def stream_def content_def lost_def rx_inv_def)
  ultimately show ?thesis
    by (auto intro: call_ok_quiet)
qed

text \<open>Waiting for input: the call either goes on with one more sample or returns.\<close>

lemma uart2wifi_nothing: "waiting s \<Longrightarrow> uart0_recv_data (uartRecvLen s) s = Some (0, s1) \<Longrightarrow> uart2wifi alloc_ok err s = Some s1"
  by (subst uart2wifi.simps) (auto simp: waiting_def split: status.splits)

lemma uart2wifi_more:
  assumes wait: "waiting s" and get: "uart0_recv_data (uartRecvLen s) s = Some (n, s1)" and n: "0 < n"
    and s1: "uartRecvLen s1 = uartRecvLen s" "status s1 = status s" and id: "int16 (uartRecvLen s + n) = uartRecvLen s + n"
  shows "uart2wifi alloc_ok err s = uart2wifi alloc_ok err (s1\<lparr>uartRecvLen := uartRecvLen s + n\<rparr>)"
proof (cases "status s = STATUS_SPLIT")
  case True
  let ?s = "s1\<lparr>uartRecvLen := uartRecvLen s + n\<rparr>"
  have "uartRecvLen ?s \<noteq> 0" "status ?s = STATUS_SPLIT"
    using True wait n s1 by (auto simp: waiting_def)
  then show ?thesis
    using True wait get n s1 id uart2wifi.simps [of alloc_ok err s] uart2wifi.simps [of alloc_ok err ?s]
    by (simp add: waiting_def)
next
  case False
  then show ?thesis
    using wait get n s1 id by (subst uart2wifi.simps) (auto simp: waiting_def split: status.splits)
qed

lemma call_waiting:
  assumes inv: "pk_inv s" and wait: "waiting s"
    and later: "\<And>s1. pk_inv s1 \<Longrightarrow> length (rxfifo s1) < length (rxfifo s) \<Longrightarrow>
      \<exists>s'. uart2wifi alloc_ok err s1 = Some s' \<and> call_ok alloc_ok err s1 s'"
  shows "\<exists>s'. uart2wifi alloc_ok err s = Some s' \<and> call_ok alloc_ok err s s'"
proof (cases "rxfifo s")
  case Nil
  have rx: "rx_inv data_fmt s" using inv by (simp add: pk_inv_def)
  have "uart0_recv_data off s = Some (0, s)" for off
    using Nil by (simp add: uart0_recv_data_def)
  then have "uart2wifi alloc_ok err s = Some s"
    using wait by (subst uart2wifi.simps) (auto simp: waiting_def split: status.splits)
  moreover have "todo s = []"
    using waiting_More [OF u2w.fmt rx wait] Nil
    by (simp add: todo_def stream_def payloads.simps)
  ultimately show ?thesis
    using inv by (auto intro: call_ok_quiet)
next
  case (Cons c cs)
  have rx: "rx_inv data_fmt s" using inv by (simp add: pk_inv_def)
  have pb: "send_pbuf s = None"
    using inv wait rx_inv_length [OF rx]
    by (cases "send_pbuf s") (auto simp: pk_inv_def waiting_def full_at_def rx_inv_def)
  from fetch [OF u2w.fmt rx wait Cons] obtain s1 where
    get: "uart0_recv_data (uartRecvLen s) s = Some (int (length c), s1)"
    and s1: "uartRecvLen s1 = uartRecvLen s" "status s1 = status s"
    and id: "int16 (uartRecvLen s + int (length c)) = uartRecvLen s + int (length c)"
    and push: "rx_inv data_fmt (s1\<lparr>uartRecvLen := uartRecvLen s + int (length c)\<rparr>)"
      "pushed s c (s1\<lparr>uartRecvLen := uartRecvLen s + int (length c)\<rparr>)"
      "c = [] \<Longrightarrow> s1\<lparr>uartRecvLen := uartRecvLen s + int (length c)\<rparr> = s1"
    by (auto simp: Let_def)
  let ?s = "s1\<lparr>uartRecvLen := uartRecvLen s + int (length c)\<rparr>"
  have same: "stream ?s = stream s" "mode_of ?s = mode_of s" "netif_output ?s = netif_output s"
    "rxfifo ?s = cs" "pk_inv ?s"
    using push pb Cons by (auto simp: pushed_def stream_def mode_of_def pk_inv_def)
  then have todo: "todo ?s = todo s" and weight: "weight ?s < weight s"
    using Cons by (simp_all add: todo_def weight_def)
  show ?thesis
  proof (cases "c = []")
    case True
    then have "uart2wifi alloc_ok err s = Some ?s"
      using uart2wifi_nothing [OF wait] get push(3) by simp
    then show ?thesis
      using same todo weight by (auto intro!: call_ok_quiet)
  next
    case False
    then have "uart2wifi alloc_ok err s = uart2wifi alloc_ok err ?s"
      using uart2wifi_more [OF wait get _ s1 id] by simp
    moreover obtain s' where "uart2wifi alloc_ok err ?s = Some s'" "call_ok alloc_ok err ?s s'"
      using later [of ?s] same Cons by auto
    moreover from this have "call_ok alloc_ok err s s'"
      using same todo weight by (auto simp: call_ok_def)
    ultimately show ?thesis by auto
  qed
qed

lemma uart2wifi_call:
  "pk_inv s \<Longrightarrow> \<exists>s'. uart2wifi alloc_ok err s = Some s' \<and> call_ok alloc_ok err s s'"
proof (induction "rxfifo s" arbitrary: s rule: measure_induct_rule [of length])
  case less
  have rx: "rx_inv data_fmt s" using less.prems by (simp add: pk_inv_def)
  obtain s1 where s1: "uart2wifi alloc_ok err s = uart2wifi alloc_ok err s1" "pk_inv s1"
    "settled data_fmt s1" "rxfifo s1 = rxfifo s" "netif_output s1 = netif_output s"
    "todo s1 = todo s" "weight s1 \<le> weight s"
  proof (cases "send_pbuf s")
    case None
    obtain s1 where "u2w.settles_to alloc_ok err s s1"
      using u2w.settle [OF rx] by blast
    with None that [of s1] show thesis
      by (auto simp: u2w.settles_to_def same_env_def pk_inv_def weight_def stream_def intro!: todo_cong)
  next
    case (Some p)
    then have "settled data_fmt s"
      using less.prems by (simp add: settled_def pk_inv_def)
    with that [of s] less.prems show thesis by simp
  qed
  have "\<exists>s'. uart2wifi alloc_ok err s1 = Some s' \<and> call_ok alloc_ok err s1 s'"
  proof (cases "waiting s1")
    case True
    show ?thesis
    proof (rule call_waiting [OF s1(2) True])
      fix s2 assume "pk_inv s2" "length (rxfifo s2) < length (rxfifo s1)"
      then show "\<exists>s'. uart2wifi alloc_ok err s2 = Some s' \<and> call_ok alloc_ok err s2 s'"
        using less.hyps [of s2] s1(4) by simp
    qed
  next
    case False
    then show ?thesis
      using s1(2,3) call_full [OF s1(2)] call_lost [OF s1(2)] by (auto simp: settled_def)
  qed
  then show ?case
    using s1 by (auto simp: call_ok_def)
qed


section \<open>Repeated calls\<close>

text \<open>The main loop calls \<open>uart2wifi\<close> again and again; what the allocator and the interface answer
  in each call is a list.\<close>

primrec uart2wifi_calls :: "(bool \<times> int) list \<Rightarrow> uart_rx \<Rightarrow> uart_rx option" where
  "uart2wifi_calls [] s = Some s"
| "uart2wifi_calls (x # xs) s = do { s \<leftarrow> uart2wifi (fst x) (snd x) s; uart2wifi_calls xs s }"

lemma uart2wifi_calls_conserve:
  "pk_inv s \<Longrightarrow> \<exists>s' ds. uart2wifi_calls xs s = Some s' \<and> pk_inv s' \<and>
     netif_output s' = netif_output s @ map with_dest ds \<and> todo s = ds @ todo s'"
proof (induction xs arbitrary: s)
  case Nil
  then show ?case by (auto intro!: exI [of _ "[]"])
next
  case (Cons x xs)
  from uart2wifi_call [OF Cons.prems] obtain s1 ds1 where
    "uart2wifi (fst x) (snd x) s = Some s1" "pk_inv s1"
    "netif_output s1 = netif_output s @ map with_dest ds1" "todo s = ds1 @ todo s1"
    unfolding call_ok_def by blast
  moreover from Cons.IH [OF this(2)] obtain s' ds2 where
    "uart2wifi_calls xs s1 = Some s'" "pk_inv s'"
    "netif_output s' = netif_output s1 @ map with_dest ds2" "todo s1 = ds2 @ todo s'"
    by blast
  ultimately show ?case by (auto intro!: exI [of _ "ds1 @ ds2"])
qed

lemma uart2wifi_calls_drain:
  "pk_inv s \<Longrightarrow> weight s \<le> n \<Longrightarrow>
     \<exists>s'. uart2wifi_calls (replicate n (True, 0)) s = Some s' \<and> pk_inv s' \<and> todo s' = []"
proof (induction n arbitrary: s)
  case 0
  then show ?case
    by (simp add: weight_def todo_def payloads.simps next_frame_Hunt next_frame_Sync mode_of_def
        full_at_def bad_at_def split: status.split)
next
  case (Suc n)
  from uart2wifi_call [OF Suc.prems(1)] obtain s1 where
    s1: "uart2wifi True 0 s = Some s1" "call_ok True 0 s s1" by blast
  show ?case
  proof (cases "weight s1 < weight s")
    case True
    with Suc s1 show ?thesis by (auto simp: call_ok_def)
  next
    case False
    with s1(2) have "todo s1 = []" "pk_inv s1" by (auto simp: call_ok_def)
    with uart2wifi_calls_conserve [of s1 "replicate n (True, 0)"] s1(1) show ?thesis by auto
  qed
qed


section \<open>Properties\<close>

lemma pk_inv_init: "fifo_ok fifo \<Longrightarrow> pk_inv (uart_rx_init fifo)"
  by (simp add: pk_inv_def uart_rx_init_def rx_inv_def link_consts)

lemma todo_init: "todo (uart_rx_init fifo) = payloads data_fmt Sync (concat fifo)"
  by (simp add: todo_def stream_def uart_rx_init_def content_def)

lemma weight_init: "weight (uart_rx_init fifo) = length fifo + length (concat fifo)"
  by (simp add: weight_def stream_def uart_rx_init_def content_def)

text \<open>From the start, enough calls hand over every packet of the stream.\<close>

lemma uart2wifi_calls_all:
  assumes "fifo_ok fifo" "length fifo + length (concat fifo) \<le> n"
  shows "\<exists>s'. uart2wifi_calls (replicate n (True, 0)) (uart_rx_init fifo) = Some s' \<and>
    netif_output s' = map with_dest (payloads data_fmt Sync (concat fifo))"
proof -
  let ?s = "uart_rx_init fifo" let ?xs = "replicate n (True, 0 :: int)"
  obtain s' where s': "uart2wifi_calls ?xs ?s = Some s'" "todo s' = []"
    using uart2wifi_calls_drain [OF pk_inv_init [OF assms(1)]] assms(2) by (auto simp: weight_init)
  moreover have "netif_output s' = map with_dest (todo ?s)"
    using uart2wifi_calls_conserve [OF pk_inv_init [OF assms(1)], of ?xs] s'
    by (auto simp: uart_rx_init_def)
  ultimately show ?thesis by (auto simp: todo_init)
qed

text \<open>C13: memory safety of the packet path. From every state that satisfies the invariant, whatever the
  allocator and the interface answer, a call of \<open>uart2wifi\<close> returns without an access outside its
  buffers and establishes the invariant again; in particular the received length stays within the
  receive buffer.\<close>

theorem uart2wifi_memory_safe:
  assumes "pk_inv s"
  shows "\<exists>s'. uart2wifi alloc_ok err s = Some s' \<and> pk_inv s' \<and>
    0 \<le> uartRecvLen s' \<and> uartRecvLen s' \<le> MAX_FRAME_LEN + UART_FIFO_LEN"
  using uart2wifi_call [OF assms, of alloc_ok err] by (auto simp: call_ok_def pk_inv_def rx_inv_def)

theorem uart2wifi_memory_safe_witness:
  "\<exists>s'. uart2wifi False 0 (uart_rx_init [[1, 2, 3], []]) = Some s' \<and> pk_inv s' \<and>
    0 \<le> uartRecvLen s' \<and> uartRecvLen s' \<le> MAX_FRAME_LEN + UART_FIFO_LEN"
  by (rule uart2wifi_memory_safe, rule pk_inv_init) (simp add: fifo_ok_def UART_FIFO_LEN_def)

text \<open>C4: exactly once and in order. For any sequence of calls of \<open>uart2wifi\<close> and any pattern of failing
  packet buffer allocations and failing output calls, the packets handed to the interface followed by
  the packets still contained in the received bytes and in the FIFO are the packets of the byte
  stream at the start: none is lost, duplicated or reordered, and each goes to the destination
  address in its own IP header.\<close>

theorem uart2wifi_exactly_once:
  assumes "pk_inv s"
  shows "\<exists>s' ds. uart2wifi_calls xs s = Some s' \<and> pk_inv s' \<and>
    netif_output s' = netif_output s @ map with_dest ds \<and>
    payloads data_fmt (mode_of s) (stream s) = ds @ payloads data_fmt (mode_of s') (stream s')"
  using uart2wifi_calls_conserve [OF assms, of xs] by (simp add: todo_def)

theorem uart2wifi_exactly_once_witness:
  "\<exists>s' ds. uart2wifi_calls [(False, 0), (True, -1), (True, 0)]
      (uart_rx_init [mk_frame SPLIT_DATA (replicate 20 7)]) = Some s' \<and> pk_inv s' \<and>
    netif_output s' = netif_output (uart_rx_init [mk_frame SPLIT_DATA (replicate 20 7)]) @ map with_dest ds \<and>
    payloads data_fmt (mode_of (uart_rx_init [mk_frame SPLIT_DATA (replicate 20 7)]))
      (stream (uart_rx_init [mk_frame SPLIT_DATA (replicate 20 7)])) =
      ds @ payloads data_fmt (mode_of s') (stream s')"
  by (rule uart2wifi_exactly_once, rule pk_inv_init) (simp add: fifo_ok_def UART_FIFO_LEN_def)

text \<open>C12: the packets of a stream all arrive. When the host has sent the frames of the packets \<open>ds\<close>,
  followed by any bytes \<open>t\<close>, and these arrive in FIFO samples of any sizes, then so many calls of
  \<open>uart2wifi\<close> as there are samples and bytes, with an allocator and an interface that succeed, hand
  over exactly \<open>ds\<close> and then whatever packets \<open>t\<close> holds.\<close>

theorem uart2wifi_delivers:
  assumes "fifo_ok fifo" "concat fifo = concat (map (mk_frame SPLIT_DATA) ds) @ t"
    "\<And>d. d \<in> set ds \<Longrightarrow> ip_packet d" "length fifo + length (concat fifo) \<le> n"
  shows "\<exists>s'. uart2wifi_calls (replicate n (True, 0)) (uart_rx_init fifo) = Some s' \<and>
    netif_output s' = map with_dest (ds @ payloads data_fmt Sync t)"
  using uart2wifi_calls_all [OF assms(1,4)] data_payloads_frames [of ds t] assms(2,3) by simp

theorem uart2wifi_delivers_witness:
  "\<exists>s'. uart2wifi_calls (replicate 25 (True, 0))
      (uart_rx_init [take 5 (mk_frame SPLIT_DATA (replicate 20 7)), drop 5 (mk_frame SPLIT_DATA (replicate 20 7))]) = Some s' \<and>
    netif_output s' = map with_dest ([replicate 20 7] @ payloads data_fmt Sync [])"
  by (rule uart2wifi_delivers) (simp_all add: fifo_ok_def link_consts ip_packet_def del: map_append)

end
