(* ===== verification/Esp_Queue.thy ===== *)
theory Esp_Queue
  imports Prelude "HOL-Library.Finite_Map"
begin

text \<open>
  The packet queue of the firmware, the first half of
  \<open>uart_wifi_passthrough/main/wifi2uart.c\<close>: a singly linked list of heap cells with a bound on the
  total number of payload bytes. The heap is explicit: one finite map for the cells and one for the
  payload blocks, so that a dangling pointer, a double free and a leak are visible. Address \<open>0\<close> is
  the null pointer.

  FreeRTOS is a parameter: what \<open>pvPortMalloc\<close> returns (an address, or \<open>0\<close>) is the argument
  \<open>malloc\<close>, whether \<open>xSemaphoreTake\<close> succeeds is the argument \<open>lock_ok\<close>.
\<close>

section \<open>Data\<close>

type_synonym addr = nat

record QueueElement =
  qe_data :: addr
  qe_length :: int
  qe_next :: addr

record ThreadSafeQueue =
  head :: addr
  tail :: addr
  max_total_length :: int
  current_total_length :: int

record heap =
  elems :: "(addr, QueueElement) fmap"
  bufs :: "(addr, byte list) fmap"

type_synonym allocator = "heap \<Rightarrow> nat \<Rightarrow> addr"

datatype queue_ret = QUEUE_OK | QUEUE_FULL | QUEUE_ERROR

definition MAX_QUEUE_LENGTH :: int where "MAX_QUEUE_LENGTH = 1024 * 32"

definition sizeof_QueueElement :: nat where "sizeof_QueueElement = 12"

definition sizeof_ThreadSafeQueue :: nat where "sizeof_ThreadSafeQueue = 16"


section \<open>Operations\<close>

definition queue_init :: "allocator \<Rightarrow> bool \<Rightarrow> heap \<Rightarrow> ThreadSafeQueue option \<Rightarrow>
    int \<times> ThreadSafeQueue option" where
  \<comment> \<open>the return value and the new \<open>eth_recv_queue\<close>\<close>
  "queue_init malloc mutex_ok h eth_recv_queue =
     (if malloc h sizeof_ThreadSafeQueue = 0 then (-1, eth_recv_queue)
      else if \<not> mutex_ok then (-1, eth_recv_queue)
      else (0, Some \<lparr>head = 0, tail = 0, max_total_length = uint16 MAX_QUEUE_LENGTH,
                     current_total_length = 0\<rparr>))"

definition queue_enqueue :: "allocator \<Rightarrow> bool \<Rightarrow> byte list option \<Rightarrow> int \<Rightarrow>
    heap \<times> ThreadSafeQueue option \<Rightarrow> (queue_ret \<times> heap \<times> ThreadSafeQueue option) option" where
  "queue_enqueue malloc lock_ok data len hq =
     (case (snd hq, data) of
        (Some q, Some d) \<Rightarrow>
          if len = 0 then Some (QUEUE_ERROR, hq)
          else if \<not> lock_ok then Some (QUEUE_ERROR, hq)
          else if current_total_length q + len > max_total_length q then Some (QUEUE_FULL, hq)
          else
            let h = fst hq; a = malloc h sizeof_QueueElement in
            if a = 0 then Some (QUEUE_ERROR, hq)
            else
              let h1 = h\<lparr>elems := fmupd a \<lparr>qe_data = 0, qe_length = 0, qe_next = 0\<rparr> (elems h)\<rparr>;
                  b = malloc h1 (nat len) in
              if b = 0 then Some (QUEUE_ERROR, h1\<lparr>elems := fmdrop a (elems h1)\<rparr>, Some q)
              else do {
                bs \<leftarrow> blk_read d 0 len;
                let h2 = h1\<lparr>bufs := fmupd b bs (bufs h1),
                           elems := fmupd a \<lparr>qe_data = b, qe_length = len, qe_next = 0\<rparr> (elems h1)\<rparr>;
                (h3, q3) \<leftarrow>
                  (if tail q = 0 then Some (h2, q\<lparr>head := a, tail := a\<rparr>)
                   else do {
                     t \<leftarrow> fmlookup (elems h2) (tail q);
                     Some (h2\<lparr>elems := fmupd (tail q) (t\<lparr>qe_next := a\<rparr>) (elems h2)\<rparr>, q\<lparr>tail := a\<rparr>) });
                Some (QUEUE_OK, h3,
                  Some (q3\<lparr>current_total_length := uint16 (current_total_length q3 + len)\<rparr>)) }
      | _ \<Rightarrow> Some (QUEUE_ERROR, hq))"

definition queue_dequeue :: "bool \<Rightarrow> bool \<Rightarrow> heap \<times> ThreadSafeQueue option \<Rightarrow>
    (queue_ret \<times> (addr \<times> int) option \<times> heap \<times> ThreadSafeQueue option) option" where
  \<comment> \<open>\<open>dst_ok\<close>: the result pointers \<open>data\<close> and \<open>length\<close> are not null; the second component is
    what is stored through them, if anything\<close>
  "queue_dequeue dst_ok lock_ok hq =
     (case snd hq of
        None \<Rightarrow> Some (QUEUE_ERROR, None, hq)
      | Some q \<Rightarrow>
          if \<not> dst_ok then Some (QUEUE_ERROR, None, hq)
          else if \<not> lock_ok then Some (QUEUE_ERROR, None, hq)
          else if head q = 0 then Some (QUEUE_ERROR, None, hq)
          else do {
            e \<leftarrow> fmlookup (elems (fst hq)) (head q);
            let q1 = q\<lparr>head := qe_next e\<rparr>;
            let q2 = (if head q1 = 0 then q1\<lparr>tail := 0\<rparr> else q1);
            let q3 = q2\<lparr>current_total_length := uint16 (current_total_length q2 - qe_length e)\<rparr>;
            Some (QUEUE_OK, Some (qe_data e, qe_length e),
              (fst hq)\<lparr>elems := fmdrop (head q) (elems (fst hq))\<rparr>, Some q3) })"

definition free_buf :: "addr \<Rightarrow> heap \<Rightarrow> heap option" where
  \<comment> \<open>\<open>vPortFree\<close> of a payload block\<close>
  "free_buf b h = (if fmlookup (bufs h) b = None then None else Some (h\<lparr>bufs := fmdrop b (bufs h)\<rparr>))"

lemma free_buf_elems: "free_buf b h = Some h' \<Longrightarrow> elems h' = elems h"
  by (auto simp: free_buf_def split: if_splits)

lemma fcard_fmdrop: "fmlookup m a = Some e \<Longrightarrow> fcard (fmdom (fmdrop a m)) < fcard (fmdom m)"
  by (metis Diff_iff fcard_seteq finsertI1 fminus_iff fmdomI fmdom_drop fsubsetI linorder_not_less)

function queue_clear_loop :: "addr \<Rightarrow> heap \<Rightarrow> heap option" where
  "queue_clear_loop current h =
     (if current = 0 then Some h
      else case fmlookup (elems h) current of
        None \<Rightarrow> None
      | Some temp \<Rightarrow>
          (case free_buf (qe_data temp) h of
             None \<Rightarrow> None
           | Some h1 \<Rightarrow>
               queue_clear_loop (qe_next temp) (h1\<lparr>elems := fmdrop current (elems h1)\<rparr>)))"
  by pat_completeness auto
termination
  by (relation "measure (\<lambda>(c, h). fcard (fmdom (elems h)))") (auto simp del: fmdom_drop simp: fcard_fmdrop dest!: free_buf_elems)

declare queue_clear_loop.simps [simp del]

definition queue_clear :: "bool \<Rightarrow> heap \<times> ThreadSafeQueue option \<Rightarrow>
    (heap \<times> ThreadSafeQueue option) option" where
  "queue_clear lock_ok hq =
     (case snd hq of
        None \<Rightarrow> Some hq
      | Some q \<Rightarrow>
          if \<not> lock_ok then Some hq
          else do {
            h \<leftarrow> queue_clear_loop (head q) (fst hq);
            Some (h, Some (q\<lparr>head := 0, tail := 0, current_total_length := 0\<rparr>)) })"

definition queue_destroy :: "bool \<Rightarrow> heap \<times> ThreadSafeQueue option \<Rightarrow>
    (heap \<times> ThreadSafeQueue option) option" where
  \<comment> \<open>\<open>None\<close> as the queue afterwards: the structure itself has been freed\<close>
  "queue_destroy lock_ok hq =
     (case snd hq of
        None \<Rightarrow> Some hq
      | Some q \<Rightarrow> do { hq' \<leftarrow> queue_clear lock_ok hq; Some (fst hq', None) })"



section \<open>The list a queue represents\<close>

text \<open>A path of cells from \<open>p\<close> to \<open>r\<close>.\<close>

primrec chain :: "(addr \<times> QueueElement) list \<Rightarrow> addr \<Rightarrow> addr \<Rightarrow> bool" where
  "chain [] p r \<longleftrightarrow> p = r"
| "chain (c # cs) p r \<longleftrightarrow> p = fst c \<and> p \<noteq> 0 \<and> chain cs (qe_next (snd c)) r"

definition cell_holds :: "heap \<Rightarrow> addr \<times> QueueElement \<Rightarrow> byte list \<Rightarrow> bool" where
  "cell_holds h c d \<longleftrightarrow> fmlookup (elems h) (fst c) = Some (snd c) \<and>
     fmlookup (bufs h) (qe_data (snd c)) = Some d \<and> qe_length (snd c) = int (length d)"

definition total :: "byte list list \<Rightarrow> int" where
  "total ds = (\<Sum>d\<leftarrow>ds. int (length d))"

definition queue_cells :: "heap \<Rightarrow> ThreadSafeQueue \<Rightarrow> (addr \<times> QueueElement) list \<Rightarrow>
    byte list list \<Rightarrow> bool" where
  "queue_cells h q cs ds \<longleftrightarrow>
     chain cs (head q) 0 \<and> tail q = (if cs = [] then 0 else fst (last cs)) \<and>
     list_all2 (cell_holds h) cs ds \<and>
     distinct (map fst cs) \<and> distinct (map (qe_data \<circ> snd) cs) \<and>
     max_total_length q = MAX_QUEUE_LENGTH \<and> current_total_length q = total ds \<and>
     total ds \<le> MAX_QUEUE_LENGTH"

definition queue_rep :: "heap \<times> ThreadSafeQueue option \<Rightarrow> byte list list \<Rightarrow> bool" where
  "queue_rep hq ds \<longleftrightarrow> (\<exists>q cs. snd hq = Some q \<and> queue_cells (fst hq) q cs ds)"

definition malloc_fresh :: "allocator \<Rightarrow> bool" where
  \<comment> \<open>an address handed out is not in use\<close>
  "malloc_fresh malloc \<longleftrightarrow>
     (\<forall>h n. malloc h n \<noteq> 0 \<longrightarrow> malloc h n |\<notin>| fmdom (elems h) \<and> malloc h n |\<notin>| fmdom (bufs h))"

lemma total_simps [simp]: "total [] = 0" "total (d # ds) = int (length d) + total ds"
  "total (ds @ ds') = total ds + total ds'"
  by (simp_all add: total_def)

lemma total_nonneg [simp]: "0 \<le> total ds"
  by (induction ds) simp_all

lemma chain_append: "chain (cs @ cs') p r \<longleftrightarrow> (\<exists>p'. chain cs p p' \<and> chain cs' p' r)"
  by (induction cs arbitrary: p) auto

lemma chain_snoc:
  "chain (cs @ [c]) p r \<longleftrightarrow> chain cs p (fst c) \<and> fst c \<noteq> 0 \<and> qe_next (snd c) = r"
  by (auto simp: chain_append)

text \<open>Cells keep what they hold when the heap changes elsewhere.\<close>

lemma cells_cong:
  assumes "list_all2 (cell_holds h) cs ds"
    and "\<And>c. c \<in> set cs \<Longrightarrow> fmlookup (elems h') (fst c) = fmlookup (elems h) (fst c) \<and>
      fmlookup (bufs h') (qe_data (snd c)) = fmlookup (bufs h) (qe_data (snd c))"
  shows "list_all2 (cell_holds h') cs ds"
  using assms by (auto simp: list_all2_conv_all_nth cell_holds_def)

lemma cells_alloc:
  assumes "list_all2 (cell_holds h) cs ds" "c \<in> set cs"
  shows "fst c |\<in>| fmdom (elems h)" "qe_data (snd c) |\<in>| fmdom (bufs h)"
proof -
  from assms obtain d where "cell_holds h c d"
    by (auto simp: list_all2_conv_all_nth in_set_conv_nth)
  then show "fst c |\<in>| fmdom (elems h)" "qe_data (snd c) |\<in>| fmdom (bufs h)"
    by (auto simp: cell_holds_def intro: fmdomI)
qed

lemma cells_drop:
  assumes cells: "list_all2 (cell_holds h) cs ds" and a: "a \<notin> fst ` set cs"
  shows "list_all2 (cell_holds (h\<lparr>elems := fmdrop a (elems h)\<rparr>)) cs ds"
    and "b \<notin> (qe_data \<circ> snd) ` set cs \<Longrightarrow>
      list_all2 (cell_holds (h\<lparr>bufs := fmdrop b (bufs h), elems := fmdrop a (elems h)\<rparr>)) cs ds"
proof -
  have n: "fst c \<noteq> a" if "c \<in> set cs" for c
    using a that by auto
  show "list_all2 (cell_holds (h\<lparr>elems := fmdrop a (elems h)\<rparr>)) cs ds"
    using cells by (rule cells_cong) (simp add: n)
  assume "b \<notin> (qe_data \<circ> snd) ` set cs"
  then have "qe_data (snd c) \<noteq> b" if "c \<in> set cs" for c
    using that by auto
  then show "list_all2 (cell_holds (h\<lparr>bufs := fmdrop b (bufs h), elems := fmdrop a (elems h)\<rparr>)) cs ds"
    by (intro cells_cong [OF cells]) (simp add: n)
qed


section \<open>What the operations do\<close>

lemma queue_repI: "queue_cells h q cs ds \<Longrightarrow> queue_rep (h, Some q) ds"
  by (auto simp: queue_rep_def)

lemma queue_init_rep:
  "queue_init malloc mutex_ok h q = (0, q') \<Longrightarrow> queue_rep (h, q') []"
  by (auto simp: queue_init_def queue_rep_def queue_cells_def MAX_QUEUE_LENGTH_def uint16_def
      split: if_splits)

lemma enqueue_empty:
  assumes "queue_cells h q [] ds" "a \<noteq> 0" "total [d] \<le> MAX_QUEUE_LENGTH"
  shows "queue_cells (h\<lparr>bufs := fmupd b d (bufs h),
      elems := fmupd a \<lparr>qe_data = b, qe_length = int (length d), qe_next = 0\<rparr> (elems h)\<rparr>)
    (q\<lparr>head := a, tail := a, current_total_length := int (length d)\<rparr>)
    [(a, \<lparr>qe_data = b, qe_length = int (length d), qe_next = 0\<rparr>)] [d]"
  using assms by (simp add: queue_cells_def cell_holds_def)

lemma enqueue_snoc:
  assumes rep: "queue_cells h q (cs @ [(t, e)]) ds" and a: "a \<noteq> 0" "a |\<notin>| fmdom (elems h)"
    and b: "b |\<notin>| fmdom (bufs h)" and le: "total (ds @ [d]) \<le> MAX_QUEUE_LENGTH"
  shows "queue_cells (h\<lparr>bufs := fmupd b d (bufs h),
      elems := fmupd t (e\<lparr>qe_next := a\<rparr>)
        (fmupd a \<lparr>qe_data = b, qe_length = int (length d), qe_next = 0\<rparr> (elems h))\<rparr>)
    (q\<lparr>tail := a, current_total_length := current_total_length q + int (length d)\<rparr>)
    (cs @ [(t, e\<lparr>qe_next := a\<rparr>), (a, \<lparr>qe_data = b, qe_length = int (length d), qe_next = 0\<rparr>)])
    (ds @ [d])"
    (is "queue_cells ?h ?q (cs @ [?t, ?a]) _")
proof -
  obtain ds' dt where ds: "ds = ds' @ [dt]" "list_all2 (cell_holds h) cs ds'" "cell_holds h (t, e) dt"
    using rep by (auto simp: queue_cells_def list_all2_append1 list_all2_Cons1)
  have all: "list_all2 (cell_holds h) (cs @ [(t, e)]) ds"
    using rep by (simp add: queue_cells_def)
  have fresh: "a \<noteq> fst c" "b \<noteq> qe_data (snd c)" if "c \<in> set (cs @ [(t, e)])" for c
    using cells_alloc [OF all that] a b by auto
  have "list_all2 (cell_holds ?h) cs ds'"
    using ds(2) fresh rep by (elim cells_cong) (auto simp: queue_cells_def)
  moreover have "cell_holds ?h ?t dt" "cell_holds ?h ?a d"
    using ds(3) fresh [of "(t, e)"] by (auto simp: cell_holds_def)
  ultimately have "list_all2 (cell_holds ?h) (cs @ [?t, ?a]) (ds @ [d])"
    using ds(1) by (auto intro!: list_all2_appendI)
  moreover have "chain (cs @ [?t, ?a]) (head ?q) 0"
    using rep a by (auto simp: queue_cells_def chain_append)
  moreover have "a \<notin> fst ` set (cs @ [(t, e)])" "b \<notin> (qe_data \<circ> snd) ` set (cs @ [(t, e)])"
    using fresh by (auto simp del: set_append)
  then have "distinct (map fst (cs @ [?t, ?a]))" "distinct (map (qe_data \<circ> snd) (cs @ [?t, ?a]))"
    using rep by (simp_all add: queue_cells_def)
  ultimately show ?thesis
    using rep le by (simp add: queue_cells_def)
qed


definition queue_has_room :: "heap \<times> ThreadSafeQueue option \<Rightarrow> int \<Rightarrow> bool" where
  "queue_has_room hq len = (case snd hq of None \<Rightarrow> False
     | Some q \<Rightarrow> current_total_length q + len \<le> max_total_length q)"

text \<open>Every outcome of \<open>queue_enqueue\<close>: only \<open>QUEUE_OK\<close> changes the list, by one element at the end,
  and a failed allocation leaves the heap as it was.\<close>

lemma queue_enqueue_cases:
  assumes rep: "queue_rep hq ds" and fresh: "malloc_fresh malloc" and d: "d \<noteq> []"
  shows "\<exists>r hq'. queue_enqueue malloc lock_ok (Some d) (int (length d)) hq = Some (r, hq') \<and>
    (r = QUEUE_OK \<longrightarrow> queue_rep hq' (ds @ [d])) \<and>
    (r \<noteq> QUEUE_OK \<longrightarrow> hq' = hq) \<and>
    (r = QUEUE_FULL \<longleftrightarrow> lock_ok \<and> total ds + int (length d) > MAX_QUEUE_LENGTH)"
proof -
  obtain h q cs where hq: "hq = (h, Some q)" and cells: "queue_cells h q cs ds"
    using rep by (cases hq) (auto simp: queue_rep_def)
  let ?len = "int (length d)"
  let ?a = "malloc h sizeof_QueueElement"
  let ?h1 = "h\<lparr>elems := fmupd ?a \<lparr>qe_data = 0, qe_length = 0, qe_next = 0\<rparr> (elems h)\<rparr>"
  let ?b = "malloc ?h1 (length d)"
  have room: "current_total_length q + ?len > max_total_length q \<longleftrightarrow>
      total ds + ?len > MAX_QUEUE_LENGTH"
    using cells by (simp add: queue_cells_def)
  have undo: "fmdrop ?a (elems ?h1) = elems h" if "?a \<noteq> 0"
    using fresh that by (intro fmap_ext) (auto simp: malloc_fresh_def fmlookup_dom_iff)
  consider "\<not> lock_ok" | "lock_ok" "total ds + ?len > MAX_QUEUE_LENGTH"
    | "lock_ok" "\<not> total ds + ?len > MAX_QUEUE_LENGTH" "?a = 0"
    | "lock_ok" "\<not> total ds + ?len > MAX_QUEUE_LENGTH" "?a \<noteq> 0" "?b = 0"
    | "lock_ok" "\<not> total ds + ?len > MAX_QUEUE_LENGTH" "?a \<noteq> 0" "?b \<noteq> 0"
    by blast
  then show ?thesis
  proof cases
    case 4
    then have "queue_enqueue malloc lock_ok (Some d) ?len hq = Some (QUEUE_ERROR, hq)"
      using d room undo by (simp add: queue_enqueue_def hq Let_def)
    with 4 show ?thesis by auto
  next
    case 5
    have ab: "?a |\<notin>| fmdom (elems h)" "?b |\<notin>| fmdom (bufs h)"
      using 5 fresh [unfolded malloc_fresh_def, rule_format, of h sizeof_QueueElement]
        fresh [unfolded malloc_fresh_def, rule_format, of ?h1 "length d"] by simp_all
    have sum: "uint16 (total ds + ?len) = total ds + ?len"
      using 5 by (intro uint16_id) (simp_all add: MAX_QUEUE_LENGTH_def)
    have cur: "current_total_length q = total ds"
      using cells by (simp add: queue_cells_def)
    show ?thesis
    proof (cases cs rule: rev_cases)
      case Nil
      then have nil: "tail q = 0" "ds = []"
        using cells by (auto simp: queue_cells_def)
      from 5 nil enqueue_empty [of h q ds ?a d ?b] cells Nil
      show ?thesis
        using d room sum cur
        by (auto simp: queue_enqueue_def hq Let_def blk_read_def intro: queue_repI)
    next
      case (snoc cs' c)
      obtain t e where c: "c = (t, e)" by (cases c)
      have te: "tail q = t" "fmlookup (elems h) t = Some e" "t \<noteq> 0" "t \<noteq> ?a"
        using cells ab snoc c
        by (auto simp: queue_cells_def chain_append list_all2_append1 list_all2_Cons1 cell_holds_def
            intro: fmdomI)
      have le: "total (ds @ [d]) \<le> MAX_QUEUE_LENGTH" using 5 by simp
      from queue_repI [OF enqueue_snoc [OF cells [unfolded snoc c] 5(3) ab le]] 5 show ?thesis
        using d room sum cur te by (auto simp: queue_enqueue_def hq Let_def blk_read_def)
    qed
  qed (use d room in \<open>auto simp: queue_enqueue_def hq Let_def\<close>)
qed


lemma queue_dequeue_Nil:
  "queue_rep hq [] \<Longrightarrow> queue_dequeue True True hq = Some (QUEUE_ERROR, None, hq)"
  by (cases hq) (auto simp: queue_rep_def queue_cells_def queue_dequeue_def)

text \<open>A dequeue hands over the first element; its payload block is the caller's to free.\<close>

lemma queue_dequeue_Cons:
  assumes "queue_rep hq (d # ds)"
  shows "\<exists>a hq' h'. queue_dequeue True True hq = Some (QUEUE_OK, Some (a, int (length d)), hq') \<and>
    fmlookup (bufs (fst hq')) a = Some d \<and> queue_rep hq' ds \<and>
    free_buf a (fst hq') = Some h' \<and> queue_rep (h', snd hq') ds"
proof -
  obtain h q c cs where hq: "hq = (h, Some q)" and cells: "queue_cells h q (c # cs) (d # ds)"
    using assms by (cases hq) (auto simp: queue_rep_def queue_cells_def list_all2_Cons2)
  obtain a e where c: "c = (a, e)" by (cases c)
  note facts = cells [unfolded queue_cells_def c, simplified]
  let ?h = "h\<lparr>elems := fmdrop a (elems h)\<rparr>"
  let ?h' = "h\<lparr>bufs := fmdrop (qe_data e) (bufs h), elems := fmdrop a (elems h)\<rparr>"
  let ?q1 = "q\<lparr>head := qe_next e\<rparr>"
  let ?q = "(if qe_next e = 0 then ?q1\<lparr>tail := 0\<rparr> else ?q1)\<lparr>current_total_length := total ds\<rparr>"
  have e: "head q = a" "a \<noteq> 0" "fmlookup (elems h) a = Some e"
    "fmlookup (bufs h) (qe_data e) = Some d" "qe_length e = int (length d)"
    using facts by (auto simp: cell_holds_def)
  have "uint16 (total ds) = total ds"
    using facts by (intro uint16_id) (auto simp: MAX_QUEUE_LENGTH_def intro: order_trans)
  then have deq: "queue_dequeue True True hq = Some (QUEUE_OK, Some (qe_data e, int (length d)), ?h, Some ?q)"
    using e facts by (auto simp: queue_dequeue_def hq)
  have tl: "chain cs (qe_next e) 0" "list_all2 (cell_holds h) cs ds" "(qe_next e = 0) = (cs = [])"
    using facts by (auto, cases cs, auto)
  have "list_all2 (cell_holds ?h) cs ds" "list_all2 (cell_holds ?h') cs ds"
    using cells_drop [OF tl(2), of a] facts by (simp_all add: comp_def)
  then have "queue_cells ?h ?q cs ds" "queue_cells ?h' ?q cs ds"
    using tl facts by (auto simp: queue_cells_def)
  moreover have "free_buf (qe_data e) ?h = Some ?h'"
    using e by (simp add: free_buf_def)
  ultimately show ?thesis
    using deq e by (auto intro: queue_repI)
qed

text \<open>Clearing frees exactly the cells and the payload blocks of the queue.\<close>

lemma queue_clear_loop_frees:
  assumes "list_all2 (cell_holds h) cs ds" "chain cs p 0" "distinct (map fst cs)"
    "distinct (map (qe_data \<circ> snd) cs)"
  shows "\<exists>h'. queue_clear_loop p h = Some h' \<and>
    elems h' = fmdrop_set (fst ` set cs) (elems h) \<and>
    bufs h' = fmdrop_set ((qe_data \<circ> snd) ` set cs) (bufs h)"
  using assms
proof (induction cs arbitrary: p h ds)
  case Nil
  then show ?case by (auto simp: queue_clear_loop.simps)
next
  case (Cons c cs)
  obtain a e where c: "c = (a, e)" by (cases c)
  from Cons.prems(1) c obtain d ds' where ds: "ds = d # ds'" "list_all2 (cell_holds h) cs ds'"
    and hd: "cell_holds h (a, e) d"
    by (auto simp: list_all2_Cons1)
  then have e: "p = a" "a \<noteq> 0" "fmlookup (elems h) a = Some e" "fmlookup (bufs h) (qe_data e) = Some d"
    using Cons.prems(2) c by (auto simp: cell_holds_def)
  let ?h = "h\<lparr>bufs := fmdrop (qe_data e) (bufs h), elems := fmdrop a (elems h)\<rparr>"
  have "list_all2 (cell_holds ?h) cs ds'"
    using cells_drop(2) [OF ds(2), of a "qe_data e"] Cons.prems(3,4) c by (simp add: comp_def)
  with Cons.IH [of ?h ds' "qe_next e"] Cons.prems c obtain h' where
    "queue_clear_loop (qe_next e) ?h = Some h'"
    "elems h' = fmdrop_set (fst ` set cs) (fmdrop a (elems h))"
    "bufs h' = fmdrop_set ((qe_data \<circ> snd) ` set cs) (fmdrop (qe_data e) (bufs h))"
    by auto
  moreover have "queue_clear_loop p h = queue_clear_loop (qe_next e) ?h"
    using e by (subst queue_clear_loop.simps) (simp add: free_buf_def)
  ultimately show ?case
    using c by (auto intro!: exI [of _ h'] fmap_ext)
qed

text \<open>A heap that holds nothing but the queue.\<close>

definition heap_is_queue :: "heap \<times> ThreadSafeQueue option \<Rightarrow> byte list list \<Rightarrow> bool" where
  "heap_is_queue hq ds \<longleftrightarrow> (\<exists>q cs. snd hq = Some q \<and> queue_cells (fst hq) q cs ds \<and>
     fset (fmdom (elems (fst hq))) = fst ` set cs \<and>
     fset (fmdom (bufs (fst hq))) = (qe_data \<circ> snd) ` set cs)"

lemma queue_clear_no_leak:
  assumes "heap_is_queue hq ds"
  shows "\<exists>hq'. queue_clear True hq = Some hq' \<and> queue_rep hq' [] \<and>
    elems (fst hq') = fmempty \<and> bufs (fst hq') = fmempty"
proof -
  obtain h q cs where hq: "hq = (h, Some q)" and cells: "queue_cells h q cs ds"
    and dom: "fset (fmdom (elems h)) = fst ` set cs" "fset (fmdom (bufs h)) = (qe_data \<circ> snd) ` set cs"
    using assms by (cases hq) (auto simp: heap_is_queue_def)
  from queue_clear_loop_frees [of h cs ds "head q"] cells obtain h' where
    h': "queue_clear_loop (head q) h = Some h'"
      "elems h' = fmdrop_set (fst ` set cs) (elems h)"
      "bufs h' = fmdrop_set ((qe_data \<circ> snd) ` set cs) (bufs h)"
    by (auto simp: queue_cells_def)
  have "elems h' = fmempty" "bufs h' = fmempty"
    unfolding h' dom [symmetric] by (auto intro!: fmap_ext simp: fmlookup_dom_iff)
  moreover have "queue_cells h' (q\<lparr>head := 0, tail := 0, current_total_length := 0\<rparr>) [] []"
    using cells by (auto simp: queue_cells_def MAX_QUEUE_LENGTH_def)
  ultimately show ?thesis
    using h'(1) by (auto simp: queue_clear_def hq intro: queue_repI)
qed


section \<open>The queue as its clients see it\<close>

text \<open>
  The Wi-Fi task puts packets in and the main loop takes them out. The contract speaks of the list
  of queued packets only; \<open>take_packet\<close> is a dequeue followed by reading and freeing the block.
\<close>

locale packet_queue =
  fixes holds :: "'q \<Rightarrow> byte list list \<Rightarrow> bool"
    and put :: "byte list \<Rightarrow> 'q \<Rightarrow> (queue_ret \<times> 'q) option"
    and take_packet :: "'q \<Rightarrow> (byte list option \<times> 'q) option"
  assumes put_law: "holds q ds \<Longrightarrow> d \<noteq> [] \<Longrightarrow>
      \<exists>r q'. put d q = Some (r, q') \<and> holds q' (if r = QUEUE_OK then ds @ [d] else ds)"
    and take_Nil: "holds q [] \<Longrightarrow> \<exists>q'. take_packet q = Some (None, q') \<and> holds q' []"
    and take_Cons: "holds q (d # ds) \<Longrightarrow> \<exists>q'. take_packet q = Some (Some d, q') \<and> holds q' ds"
begin

text \<open>Any interleaving of the two tasks: what was accepted is what was taken followed by what is
  still queued, in the same order.\<close>

primrec run :: "byte list option list \<Rightarrow> 'q \<Rightarrow> (byte list list \<times> byte list list \<times> 'q) option" where
  \<comment> \<open>\<open>Some d\<close>: put \<open>d\<close>; \<open>None\<close>: take. Accepted packets, taken packets, final queue.\<close>
  "run [] q = Some ([], [], q)"
| "run (x # xs) q = (case x of
     Some d \<Rightarrow> do {
       (r, q) \<leftarrow> put d q;
       (acc, out, q) \<leftarrow> run xs q;
       Some (if r = QUEUE_OK then d # acc else acc, out, q) }
   | None \<Rightarrow> do {
       (p, q) \<leftarrow> take_packet q;
       (acc, out, q) \<leftarrow> run xs q;
       Some (acc, (case p of None \<Rightarrow> out | Some d \<Rightarrow> d # out), q) })"

lemma run_fifo:
  assumes "holds q ds" "Some [] \<notin> set xs"
  shows "\<exists>acc out q' ds'. run xs q = Some (acc, out, q') \<and> holds q' ds' \<and> ds @ acc = out @ ds'"
  using assms
proof (induction xs arbitrary: q ds)
  case Nil
  then show ?case by auto
next
  case (Cons x xs)
  show ?case
  proof (cases x)
    case (Some d)
    with Cons.prems obtain r q1 where q1: "put d q = Some (r, q1)"
      "holds q1 (if r = QUEUE_OK then ds @ [d] else ds)"
      using put_law [of q ds d] by auto
    with Cons.IH [OF q1(2)] Cons.prems Some show ?thesis
      by (cases "r = QUEUE_OK") auto
  next
    case None
    show ?thesis
    proof (cases ds)
      case Nil
      with Cons.prems None take_Nil [of q] Cons.IH show ?thesis by fastforce
    next
      case ds: (Cons d ds')
      with Cons.prems take_Cons [of q d ds'] obtain q1 where
        q1: "take_packet q = Some (Some d, q1)" "holds q1 ds'" by auto
      with Cons.IH [OF q1(2)] Cons.prems None ds show ?thesis by auto
    qed
  qed
qed

end



section \<open>Properties\<close>

definition empty_heap :: heap where
  "empty_heap = \<lparr>elems = fmempty, bufs = fmempty\<rparr>"

definition new_queue :: ThreadSafeQueue where
  "new_queue = \<lparr>head = 0, tail = 0, max_total_length = MAX_QUEUE_LENGTH, current_total_length = 0\<rparr>"

lemma new_queue_rep: "queue_rep (h, Some new_queue) []"
  by (simp add: queue_rep_def queue_cells_def new_queue_def MAX_QUEUE_LENGTH_def)

text \<open>An allocator to run the model with: the address above every one in use.\<close>

definition bump :: allocator where
  "bump h n = Suc (Max (insert 0 (fset (fmdom (elems h)) \<union> fset (fmdom (bufs h)))))"

lemma bump_fresh: "malloc_fresh bump"
proof -
  have "bump h n \<notin> fset (fmdom (elems h)) \<union> fset (fmdom (bufs h))" for h n
  proof
    let ?S = "insert 0 (fset (fmdom (elems h)) \<union> fset (fmdom (bufs h)))"
    assume "bump h n \<in> fset (fmdom (elems h)) \<union> fset (fmdom (bufs h))"
    then have "bump h n \<le> Max ?S" by (intro Max_ge) simp_all
    then show False by (simp add: bump_def)
  qed
  then show ?thesis by (simp add: malloc_fresh_def)
qed

text \<open>C14: \<open>queue_enqueue\<close> refines appending to a list, on every path. It never follows a dangling
  pointer; \<open>QUEUE_OK\<close> means the packet is now the last element, every other result leaves queue and
  heap exactly as they were (a cell whose payload cannot be allocated is given back), and the queue is
  reported full exactly when the payload bytes would exceed the limit.\<close>

theorem queue_enqueue_refines:
  assumes "queue_rep hq ds" "malloc_fresh malloc" "d \<noteq> []"
  shows "\<exists>r hq'. queue_enqueue malloc lock_ok (Some d) (int (length d)) hq = Some (r, hq') \<and>
    (r = QUEUE_OK \<longrightarrow> queue_rep hq' (ds @ [d])) \<and> (r \<noteq> QUEUE_OK \<longrightarrow> hq' = hq) \<and>
    (r = QUEUE_FULL \<longleftrightarrow> lock_ok \<and> total ds + int (length d) > MAX_QUEUE_LENGTH)"
  using assms by (rule queue_enqueue_cases)

theorem queue_enqueue_refines_witness:
  "\<exists>r hq'. queue_enqueue bump True (Some [1, 2]) (int (length [1, 2 :: byte])) (empty_heap, Some new_queue) = Some (r, hq') \<and>
    (r = QUEUE_OK \<longrightarrow> queue_rep hq' ([] @ [[1, 2]])) \<and> (r \<noteq> QUEUE_OK \<longrightarrow> hq' = (empty_heap, Some new_queue)) \<and>
    (r = QUEUE_FULL \<longleftrightarrow> True \<and> total [] + int (length [1, 2 :: byte]) > MAX_QUEUE_LENGTH)"
  by (rule queue_enqueue_refines) (simp_all add: new_queue_rep bump_fresh)

text \<open>C15: \<open>queue_dequeue\<close> refines taking the head of the list: it returns the block and the length of the
  oldest packet, the block can be freed once, and the queue then represents the rest.\<close>

theorem queue_dequeue_refines:
  assumes "queue_rep hq (d # ds)"
  shows "\<exists>a hq' h'. queue_dequeue True True hq = Some (QUEUE_OK, Some (a, int (length d)), hq') \<and>
    fmlookup (bufs (fst hq')) a = Some d \<and> queue_rep hq' ds \<and>
    free_buf a (fst hq') = Some h' \<and> queue_rep (h', snd hq') ds"
  using assms by (rule queue_dequeue_Cons)

definition one_packet :: "heap \<times> ThreadSafeQueue option" where
  "one_packet = (\<lparr>elems = fmupd 1 \<lparr>qe_data = 2, qe_length = 3, qe_next = 0\<rparr> fmempty,
      bufs = fmupd 2 [7, 8, 9] fmempty\<rparr>,
    Some \<lparr>head = 1, tail = 1, max_total_length = MAX_QUEUE_LENGTH, current_total_length = 3\<rparr>)"

lemma one_packet_rep: "heap_is_queue one_packet [[7, 8, 9]]"
  by (auto simp: heap_is_queue_def one_packet_def queue_cells_def cell_holds_def MAX_QUEUE_LENGTH_def
      intro!: exI [of _ "[(1, \<lparr>qe_data = 2, qe_length = 3, qe_next = 0\<rparr>)]"])

theorem queue_dequeue_refines_witness:
  "\<exists>a hq' h'. queue_dequeue True True one_packet = Some (QUEUE_OK, Some (a, int (length [7, 8, 9 :: byte])), hq') \<and>
    fmlookup (bufs (fst hq')) a = Some [7, 8, 9] \<and> queue_rep hq' [] \<and>
    free_buf a (fst hq') = Some h' \<and> queue_rep (h', snd hq') []"
  by (rule queue_dequeue_refines) (use one_packet_rep in \<open>auto simp: heap_is_queue_def queue_rep_def\<close>)

text \<open>C20: \<open>queue_clear\<close> leaks nothing: on a heap that holds nothing but the queue it terminates, frees
  every cell and every payload block once, and leaves an empty queue.\<close>

theorem queue_clear_frees_all:
  assumes "heap_is_queue hq ds"
  shows "\<exists>hq'. queue_clear True hq = Some hq' \<and> queue_rep hq' [] \<and>
    elems (fst hq') = fmempty \<and> bufs (fst hq') = fmempty"
  using assms by (rule queue_clear_no_leak)

theorem queue_clear_frees_all_witness:
  "\<exists>hq'. queue_clear True one_packet = Some hq' \<and> queue_rep hq' [] \<and>
    elems (fst hq') = fmempty \<and> bufs (fst hq') = fmempty"
  by (rule queue_clear_frees_all) (rule one_packet_rep)

end
