(* ===== verification/Esp_Send.thy ===== *)
theory Esp_Send
  imports Esp_Queue Esp_Receive
begin

text \<open>
  The sending half of the firmware, the second half of
  \<open>uart_wifi_passthrough/main/wifi2uart.c\<close>: \<open>uart_wifi_recv\<close>, which the patched lwIP stack calls
  with every received packet, \<open>uart0_fill_txfifo\<close>, \<open>wifi2uart\<close>, which the main loop calls, and the
  blocking \<open>send_to_uart0_sync\<close> of the handshake.

  The hardware is the list \<open>txfifo_cnts\<close> of the successive samples of \<open>txfifo_cnt\<close> (a FIFO that
  stays full once the list is exhausted) and the sequence \<open>wire\<close> of the bytes written to the FIFO.
\<close>

section \<open>Filling the transmit FIFO\<close>

primrec write_fifo :: "nat \<Rightarrow> byte list \<Rightarrow> int \<Rightarrow> byte list option" where
  \<comment> \<open>the bytes that the loop over \<open>buffer[i]\<close> writes\<close>
  "write_fifo 0 buf off = Some []"
| "write_fifo (Suc n) buf off = do {
     b \<leftarrow> blk_get buf off;
     bs \<leftarrow> write_fifo n buf (off + 1);
     Some (b # bs) }"

definition uart0_fill_txfifo :: "int \<Rightarrow> byte list \<Rightarrow> int \<Rightarrow> int \<Rightarrow> (int \<times> byte list) option" where
  "uart0_fill_txfifo txfifo_cnt buf off len =
     (let tx_fifo_cnt = uint8 txfifo_cnt;
          tx_remain_fifo_cnt = uint8 (UART_FIFO_LEN - tx_fifo_cnt);
          copy_cnt = uint8 (if len \<ge> tx_remain_fifo_cnt then tx_remain_fifo_cnt else len)
      in do { bs \<leftarrow> write_fifo (nat copy_cnt) buf off; Some (copy_cnt, bs) })"

primrec send_to_uart0_sync :: "int list \<Rightarrow> byte list \<Rightarrow> int \<Rightarrow> int \<Rightarrow> byte list \<Rightarrow>
    (wait \<times> byte list \<times> int list) option" where
  \<comment> \<open>samples, block, \<open>uartSendPtr\<close>, \<open>uartSendLen\<close>, bytes on the wire; the loop spins while the
    FIFO is full\<close>
  "send_to_uart0_sync [] buf off len wire =
     Some (if len = 0 then Returned else Spinning, wire, [])"
| "send_to_uart0_sync (c # cs) buf off len wire =
     (if len = 0 then Some (Returned, wire, c # cs)
      else do {
        (ret, bs) \<leftarrow> uart0_fill_txfifo c buf off len;
        send_to_uart0_sync cs buf (off + ret) (uint16 (len - ret)) (wire @ bs) })"


section \<open>State and operations of the packet path\<close>

record uart_tx =
  eth_recv_queue :: "heap \<times> ThreadSafeQueue option"
  uartSendLen :: int
  uartSendbuffer :: "byte list"
  uartSendPtr :: int
  txfifo_cnts :: "int list"
  wire :: "byte list"

definition uart_wifi_recv :: "allocator \<Rightarrow> bool \<Rightarrow> byte list \<Rightarrow> uart_tx \<Rightarrow>
    (queue_ret \<times> uart_tx) option" where
  \<comment> \<open>the payload of the packet buffer, of length \<open>p->len\<close>; a failure is only logged\<close>
  "uart_wifi_recv malloc lock_ok p s = do {
     (r, hq) \<leftarrow> queue_enqueue malloc lock_ok (Some p) (uint16 (int (length p))) (eth_recv_queue s);
     Some (r, s\<lparr>eth_recv_queue := hq\<rparr>) }"

definition queue_take :: "bool \<Rightarrow> heap \<times> ThreadSafeQueue option \<Rightarrow>
    (byte list option \<times> heap \<times> ThreadSafeQueue option) option" where
  \<comment> \<open>dequeue, read the \<open>length\<close> bytes of the block, free the block\<close>
  "queue_take lock_ok hq = do {
     (r, p, hq) \<leftarrow> queue_dequeue True lock_ok hq;
     case p of
       None \<Rightarrow> Some (None, hq)
     | Some (data, len) \<Rightarrow> do {
         blk \<leftarrow> fmlookup (bufs (fst hq)) data;
         bs \<leftarrow> blk_read blk 0 len;
         h \<leftarrow> free_buf data (fst hq);
         Some (Some bs, h, snd hq) } }"

definition wifi2uart :: "bool \<Rightarrow> uart_tx \<Rightarrow> uart_tx option" where
  "wifi2uart lock_ok s = do {
     s \<leftarrow> (if uartSendLen s \<le> 0
           then do {
             (p, hq) \<leftarrow> queue_take lock_ok (eth_recv_queue s);
             case p of
               None \<Rightarrow> Some (s\<lparr>eth_recv_queue := hq\<rparr>)
             | Some data \<Rightarrow> do {
                 let len = int (length data);
                 buf \<leftarrow> blk_write (uartSendbuffer s) 2 data;
                 buf \<leftarrow> blk_write buf 0 (store_u16 len);
                 let n = uint16 (len + 3);
                 buf \<leftarrow> blk_write buf (n - 1) [SPLIT_DATA];
                 Some (s\<lparr>eth_recv_queue := hq, uartSendbuffer := buf, uartSendLen := n,
                         uartSendPtr := 0\<rparr>) } }
           else Some s);
     if uartSendLen s > 0
     then do {
       (ret, bs) \<leftarrow> uart0_fill_txfifo (case txfifo_cnts s of [] \<Rightarrow> UART_FIFO_LEN | c # cs \<Rightarrow> c)
                     (uartSendbuffer s) (uartSendPtr s) (uartSendLen s);
       Some (s\<lparr>uartSendLen := uint16 (uartSendLen s - ret), uartSendPtr := uartSendPtr s + ret,
               txfifo_cnts := tl (txfifo_cnts s), wire := wire s @ bs\<rparr>) }
     else Some s }"


section \<open>The transmit FIFO is never overrun\<close>

lemma write_fifo_read:
  assumes "0 \<le> off" "off + int n \<le> int (length buf)"
  shows "write_fifo n buf off = Some (take n (drop (nat off) buf))"
  using assms
proof (induction n arbitrary: off)
  case 0
  then show ?case by simp
next
  case (Suc n)
  have "nat (off + 1) = Suc (nat off)" "nat off < length buf"
    using Suc.prems by auto
  moreover have "write_fifo n buf (off + 1) = Some (take n (drop (nat (off + 1)) buf))"
    using Suc.prems by (intro Suc.IH) simp_all
  ultimately show ?case
    using Suc.prems by (simp add: blk_get_def Cons_nth_drop_Suc [symmetric])
qed

definition cnt_ok :: "int \<Rightarrow> bool" where
  \<comment> \<open>what the hardware reports as the fill level of the transmit FIFO\<close>
  "cnt_ok c \<longleftrightarrow> 0 \<le> c \<and> c \<le> UART_FIFO_LEN"

lemma uart0_fill_txfifo_copies:
  assumes "cnt_ok c" "0 \<le> off" "0 \<le> len" "off + len \<le> int (length buf)"
  shows "uart0_fill_txfifo c buf off len =
    (let n = min len (UART_FIFO_LEN - c) in Some (n, take (nat n) (drop (nat off) buf)))"
proof -
  have "uint8 c = c" "uint8 (UART_FIFO_LEN - c) = UART_FIFO_LEN - c"
    using assms by (auto simp: cnt_ok_def UART_FIFO_LEN_def intro!: uint8_id)
  moreover have "uint8 (if UART_FIFO_LEN - c \<le> len then UART_FIFO_LEN - c else len) =
      min len (UART_FIFO_LEN - c)"
    using assms by (subst uint8_id) (auto simp: cnt_ok_def UART_FIFO_LEN_def)
  moreover have "write_fifo (nat (min len (UART_FIFO_LEN - c))) buf off =
      Some (take (nat (min len (UART_FIFO_LEN - c))) (drop (nat off) buf))"
    using assms by (intro write_fifo_read) (auto simp: cnt_ok_def)
  ultimately show ?thesis
    by (auto simp: uart0_fill_txfifo_def Let_def min_def split: if_splits)
qed


section \<open>Nothing is lost or reordered on the way to the wire\<close>

definition unsent :: "uart_tx \<Rightarrow> byte list" where
  "unsent s = take (nat (uartSendLen s)) (drop (nat (uartSendPtr s)) (uartSendbuffer s))"

definition tx_inv :: "uart_tx \<Rightarrow> byte list list \<Rightarrow> bool" where
  "tx_inv s ds \<longleftrightarrow> queue_rep (eth_recv_queue s) ds \<and> (\<forall>d\<in>set ds. int (length d) \<le> MTU_LEN) \<and>
     int (length (uartSendbuffer s)) = MAX_FRAME_LEN \<and> 0 \<le> uartSendLen s \<and> 0 \<le> uartSendPtr s \<and>
     uartSendPtr s + uartSendLen s \<le> MAX_FRAME_LEN \<and> (\<forall>c\<in>set (txfifo_cnts s). cnt_ok c)"

definition frames :: "byte list list \<Rightarrow> byte list" where
  "frames ds = concat (map (mk_frame SPLIT_DATA) ds)"

lemma frames_simps [simp]:
  "frames [] = []" "frames (d # ds) = mk_frame SPLIT_DATA d @ frames ds"
  "frames (ds @ ds') = frames ds @ frames ds'"
  by (simp_all add: frames_def)

lemma queue_take_Nil: "queue_rep hq [] \<Longrightarrow> queue_take True hq = Some (None, hq)"
  by (simp add: queue_take_def queue_dequeue_Nil)

lemma queue_take_Cons:
  assumes "queue_rep hq (d # ds)"
  shows "\<exists>hq'. queue_take True hq = Some (Some d, hq') \<and> queue_rep hq' ds"
  using queue_dequeue_Cons [OF assms] by (auto simp: queue_take_def blk_read_def)

lemma queue_take_locked: "queue_rep hq ds \<Longrightarrow> queue_take False hq = Some (None, hq)"
  by (cases hq) (auto simp: queue_take_def queue_dequeue_def queue_rep_def)

interpretation pq: packet_queue
  "\<lambda>hq ds. malloc_fresh malloc \<and> queue_rep hq ds"
  "\<lambda>d. queue_enqueue malloc True (Some d) (int (length d))"
  "queue_take True"
  for malloc :: allocator
proof
  fix q ds and d :: "byte list"
  assume "malloc_fresh malloc \<and> queue_rep q ds" "d \<noteq> []"
  with queue_enqueue_cases [of q ds malloc d True]
  show "\<exists>r q'. queue_enqueue malloc True (Some d) (int (length d)) q = Some (r, q') \<and>
      malloc_fresh malloc \<and> queue_rep q' (if r = QUEUE_OK then ds @ [d] else ds)"
    by fastforce
qed (auto simp: queue_take_Nil dest: queue_take_Cons)


text \<open>Loading the next packet: the send buffer then holds exactly its frame.\<close>

lemma load_frame:
  assumes buf: "int (length buf) = MAX_FRAME_LEN" and d: "int (length d) \<le> MTU_LEN"
  shows "\<exists>b1 b2 b3. blk_write buf 2 d = Some b1 \<and> blk_write b1 0 (store_u16 (int (length d))) = Some b2 \<and>
    blk_write b2 (uint16 (int (length d) + 3) - 1) [SPLIT_DATA] = Some b3 \<and>
    length b3 = length buf \<and> uint16 (int (length d) + 3) = int (length d) + 3 \<and>
    take (length d + 3) b3 = mk_frame SPLIT_DATA d"
proof -
  have len: "length buf = 1503" "length d \<le> 1500"
    using assms by (simp_all add: link_consts)
  then have n: "uint16 (int (length d) + 3) = int (length d) + 3"
    by (intro uint16_id) simp_all
  let ?b1 = "take 2 buf @ d @ drop (2 + length d) buf"
  let ?b2 = "store_u16 (int (length d)) @ d @ drop (2 + length d) buf"
  let ?b3 = "(store_u16 (int (length d)) @ d) @ [SPLIT_DATA] @ drop (3 + length d) buf"
  have "blk_write buf 2 d = Some ?b1"
    using len by (simp add: blk_write_def)
  moreover have "blk_write ?b1 0 (store_u16 (int (length d))) = Some ?b2"
    using len by (simp add: blk_write_def)
  moreover have "blk_write ?b2 (int (length d) + 3 - 1) [SPLIT_DATA] = Some ?b3"
    using len by (simp add: blk_write_def nat_add_distrib numeral_3_eq_3)
  moreover have "length ?b3 = length buf" "take (length d + 3) ?b3 = mk_frame SPLIT_DATA d"
    using len by (simp_all add: mk_frame_def)
  ultimately show ?thesis
    using n by auto
qed

text \<open>The bytes a sending step takes from the front of the unsent ones.\<close>

lemma send_step:
  assumes inv: "tx_inv s ds" and pos: "0 < uartSendLen s"
  shows "\<exists>s'. wifi2uart lock_ok s = Some s' \<and> tx_inv s' ds \<and> wire s' @ unsent s' = wire s @ unsent s \<and>
    txfifo_cnts s' = tl (txfifo_cnts s) \<and> eth_recv_queue s' = eth_recv_queue s \<and>
    (txfifo_cnts s \<noteq> [] \<and> hd (txfifo_cnts s) < UART_FIFO_LEN \<longrightarrow> length (unsent s') < length (unsent s))"
proof -
  let ?c = "case txfifo_cnts s of [] \<Rightarrow> UART_FIFO_LEN | c # cs \<Rightarrow> c"
  let ?n = "min (uartSendLen s) (UART_FIFO_LEN - ?c)"
  have c: "cnt_ok ?c"
    using inv by (auto simp: tx_inv_def cnt_ok_def UART_FIFO_LEN_def split: list.split)
  have bounds: "0 \<le> ?n" "?n \<le> uartSendLen s" "uartSendLen s \<le> MAX_FRAME_LEN"
    using c pos inv by (auto simp: cnt_ok_def tx_inv_def)
  have fill: "uart0_fill_txfifo ?c (uartSendbuffer s) (uartSendPtr s) (uartSendLen s) =
      Some (?n, take (nat ?n) (drop (nat (uartSendPtr s)) (uartSendbuffer s)))"
    using uart0_fill_txfifo_copies [OF c] inv by (simp add: tx_inv_def Let_def)
  have id: "uint16 (uartSendLen s - ?n) = uartSendLen s - ?n"
    using bounds by (intro uint16_id) (auto simp: link_consts)
  let ?s = "s\<lparr>uartSendLen := uartSendLen s - ?n, uartSendPtr := uartSendPtr s + ?n,
      txfifo_cnts := tl (txfifo_cnts s),
      wire := wire s @ take (nat ?n) (drop (nat (uartSendPtr s)) (uartSendbuffer s))\<rparr>"
  have call: "wifi2uart lock_ok s = Some ?s"
    using pos fill id by (simp add: wifi2uart_def)
  have "tx_inv ?s ds"
    using inv bounds by (cases "txfifo_cnts s") (auto simp: tx_inv_def)
  moreover have "wire ?s @ unsent ?s = wire s @ unsent s"
  proof -
    have "nat (uartSendPtr s + ?n) = nat (uartSendPtr s) + nat ?n" "nat (uartSendLen s - ?n) = nat (uartSendLen s) - nat ?n"
      using inv bounds by (auto simp: tx_inv_def nat_add_distrib nat_diff_distrib)
    moreover have "nat ?n \<le> nat (uartSendLen s)"
      using bounds by simp
    ultimately show ?thesis
      by (simp add: unsent_def add.commute [of "nat (uartSendPtr s)"] drop_drop [symmetric] take_add [symmetric] del: drop_drop)
  qed
  moreover have "length (unsent ?s) < length (unsent s)" if "txfifo_cnts s \<noteq> []" "hd (txfifo_cnts s) < UART_FIFO_LEN"
  proof -
    have "0 < ?n"
      using that pos by (cases "txfifo_cnts s") auto
    then show ?thesis
      using inv bounds pos by (auto simp: unsent_def tx_inv_def)
  qed
  ultimately show ?thesis
    using call by auto
qed


definition can_send :: "uart_tx \<Rightarrow> bool" where
  "can_send s \<longleftrightarrow> txfifo_cnts s \<noteq> [] \<and> hd (txfifo_cnts s) < UART_FIFO_LEN"

lemma wifi2uart_step:
  assumes inv: "tx_inv s ds"
  shows "\<exists>s' ds'. wifi2uart lock_ok s = Some s' \<and> tx_inv s' ds' \<and>
    wire s' @ unsent s' @ frames ds' = wire s @ unsent s @ frames ds \<and>
    (s' = s \<or> txfifo_cnts s' = tl (txfifo_cnts s) \<and> unsent s @ frames ds \<noteq> []) \<and>
    (lock_ok \<and> can_send s \<longrightarrow>
       length (unsent s' @ frames ds') < length (unsent s @ frames ds) \<or> unsent s @ frames ds = [])"
proof (cases "0 < uartSendLen s")
  case True
  from send_step [OF inv this] obtain s' where "wifi2uart lock_ok s = Some s'" "tx_inv s' ds"
    "wire s' @ unsent s' = wire s @ unsent s" "txfifo_cnts s' = tl (txfifo_cnts s)"
    "can_send s \<longrightarrow> length (unsent s') < length (unsent s)"
    unfolding can_send_def by blast
  moreover have "unsent s \<noteq> []"
    using inv True by (auto simp: unsent_def tx_inv_def)
  ultimately show ?thesis
    by (intro exI [of _ s'] exI [of _ ds]) auto
next
  case False
  then have zero: "uartSendLen s = 0" and none: "unsent s = []" and rep: "queue_rep (eth_recv_queue s) ds"
    using inv by (auto simp: tx_inv_def unsent_def)
  show ?thesis
  proof (cases "lock_ok \<and> ds \<noteq> []")
    case False
    then have "queue_take lock_ok (eth_recv_queue s) = Some (None, eth_recv_queue s)"
      using rep queue_take_Nil queue_take_locked by (cases lock_ok) auto
    then have "wifi2uart lock_ok s = Some s"
      using zero by (simp add: wifi2uart_def)
    then show ?thesis
      using inv none False by auto
  next
    case True
    then obtain d ds' where ds: "ds = d # ds'" by (cases ds) auto
    from queue_take_Cons [OF rep [unfolded ds]] True obtain hq where
      take: "queue_take lock_ok (eth_recv_queue s) = Some (Some d, hq)" "queue_rep hq ds'" by auto
    from load_frame [of "uartSendbuffer s" d] inv ds obtain b1 b2 b3 where
      b: "blk_write (uartSendbuffer s) 2 d = Some b1"
        "blk_write b1 0 (store_u16 (int (length d))) = Some b2"
        "blk_write b2 (uint16 (int (length d) + 3) - 1) [SPLIT_DATA] = Some b3"
      and b3: "length b3 = length (uartSendbuffer s)" "uint16 (int (length d) + 3) = int (length d) + 3"
        "take (length d + 3) b3 = mk_frame SPLIT_DATA d"
      by (auto simp: tx_inv_def)
    let ?s = "s\<lparr>eth_recv_queue := hq, uartSendbuffer := b3, uartSendLen := int (length d) + 3,
        uartSendPtr := 0\<rparr>"
    have call: "wifi2uart lock_ok s = wifi2uart lock_ok ?s"
      using zero take b b3 by (simp add: wifi2uart_def)
    have "tx_inv ?s ds'"
      using inv take ds b3 by (auto simp: tx_inv_def link_consts)
    moreover have "unsent ?s = mk_frame SPLIT_DATA d"
      using b3 by (simp add: unsent_def nat_add_distrib)
    moreover note send_step [OF calculation(1), of lock_ok]
    ultimately show ?thesis
      using call none ds by (fastforce simp: can_send_def)
  qed
qed

text \<open>The two tasks in any interleaving: \<open>uart_wifi_recv\<close> in the TCP/IP task, \<open>wifi2uart\<close> in the main
  loop. The accepted packets are recorded.\<close>

datatype tx_event = WifiPacket "byte list" bool | MainLoop bool

fun tx_run :: "allocator \<Rightarrow> tx_event list \<Rightarrow> byte list list \<times> uart_tx \<Rightarrow>
    (byte list list \<times> uart_tx) option" where
  "tx_run malloc [] x = Some x"
| "tx_run malloc (WifiPacket p lock_ok # es) (acc, s) = do {
     (r, s) \<leftarrow> uart_wifi_recv malloc lock_ok p s;
     tx_run malloc es (if r = QUEUE_OK then acc @ [p] else acc, s) }"
| "tx_run malloc (MainLoop lock_ok # es) (acc, s) = do {
     s \<leftarrow> wifi2uart lock_ok s;
     tx_run malloc es (acc, s) }"

definition wifi_packet :: "byte list \<Rightarrow> bool" where
  "wifi_packet p \<longleftrightarrow> p \<noteq> [] \<and> int (length p) \<le> MTU_LEN"

definition event_packets_ok :: "tx_event list \<Rightarrow> bool" where
  "event_packets_ok es = list_all (\<lambda>e. case e of WifiPacket p l \<Rightarrow> wifi_packet p | MainLoop l \<Rightarrow> True) es"

lemma uart_wifi_recv_step:
  assumes inv: "tx_inv s ds" and "malloc_fresh malloc" "wifi_packet p"
  shows "\<exists>r s'. uart_wifi_recv malloc lock_ok p s = Some (r, s') \<and>
    tx_inv s' (if r = QUEUE_OK then ds @ [p] else ds) \<and> wire s' = wire s \<and> unsent s' = unsent s \<and>
    txfifo_cnts s' = txfifo_cnts s"
proof -
  have len: "uint16 (int (length p)) = int (length p)"
    using assms(3) by (intro uint16_id) (simp_all add: wifi_packet_def MTU_LEN_def)
  obtain r hq where "queue_enqueue malloc lock_ok (Some p) (int (length p)) (eth_recv_queue s) = Some (r, hq)"
    "r = QUEUE_OK \<longrightarrow> queue_rep hq (ds @ [p])" "r \<noteq> QUEUE_OK \<longrightarrow> hq = eth_recv_queue s"
    using queue_enqueue_cases [of "eth_recv_queue s" ds malloc p lock_ok] assms
    by (auto simp: tx_inv_def wifi_packet_def)
  then show ?thesis
    using inv len assms(3) by (auto simp: uart_wifi_recv_def tx_inv_def unsent_def wifi_packet_def)
qed

lemma tx_run_conserve:
  assumes "malloc_fresh malloc" "event_packets_ok es" "tx_inv s ds"
    "wire s @ unsent s @ frames ds = frames acc"
  shows "\<exists>acc' s' ds'. tx_run malloc es (acc, s) = Some (acc', s') \<and> tx_inv s' ds' \<and>
    wire s' @ unsent s' @ frames ds' = frames acc'"
  using assms(2-)
proof (induction es arbitrary: acc s ds)
  case Nil
  then show ?case by auto
next
  case (Cons e es)
  show ?case
  proof (cases e)
    case (WifiPacket p l)
    have p: "wifi_packet p" "event_packets_ok es"
      using Cons.prems(1) WifiPacket by (simp_all add: event_packets_ok_def)
    with uart_wifi_recv_step [OF Cons.prems(2) assms(1), of p l] obtain r s1 where
      s1: "uart_wifi_recv malloc l p s = Some (r, s1)" "tx_inv s1 (if r = QUEUE_OK then ds @ [p] else ds)"
        "wire s1 = wire s" "unsent s1 = unsent s"
      by auto
    let ?acc = "if r = QUEUE_OK then acc @ [p] else acc"
    have "wire s1 @ unsent s1 @ frames (if r = QUEUE_OK then ds @ [p] else ds) = frames ?acc"
      using s1 Cons.prems(3) by (auto simp flip: append_assoc)
    from Cons.IH [OF p(2) s1(2) this] s1(1) WifiPacket show ?thesis by simp
  next
    case (MainLoop l)
    from wifi2uart_step [OF Cons.prems(2), of l] obtain s1 ds1 where
      s1: "wifi2uart l s = Some s1" "tx_inv s1 ds1"
        "wire s1 @ unsent s1 @ frames ds1 = wire s @ unsent s @ frames ds"
      by blast
    with Cons.IH [OF _ s1(2), of acc] Cons.prems MainLoop show ?thesis
      by (simp add: event_packets_ok_def)
  qed
qed

text \<open>Enough calls with room in the FIFO put everything on the wire.\<close>

lemma wifi2uart_drain:
  assumes "tx_inv s ds" "length (unsent s @ frames ds) \<le> n" "n \<le> length (txfifo_cnts s)"
    "\<forall>c\<in>set (txfifo_cnts s). c < UART_FIFO_LEN"
  shows "\<exists>s'. tx_run malloc (replicate n (MainLoop True)) (acc, s) = Some (acc, s') \<and> tx_inv s' [] \<and>
    wire s' = wire s @ unsent s @ frames ds \<and> unsent s' = []"
  using assms
proof (induction n arbitrary: s ds)
  case 0
  then have "ds = []" by (cases ds) auto
  with 0 show ?case by auto
next
  case (Suc n)
  from wifi2uart_step [OF Suc.prems(1), of True] obtain s1 ds1 where
    s1: "wifi2uart True s = Some s1" "tx_inv s1 ds1"
      "wire s1 @ unsent s1 @ frames ds1 = wire s @ unsent s @ frames ds"
      "s1 = s \<or> txfifo_cnts s1 = tl (txfifo_cnts s) \<and> unsent s @ frames ds \<noteq> []"
      "can_send s \<longrightarrow> length (unsent s1 @ frames ds1) < length (unsent s @ frames ds) \<or> unsent s @ frames ds = []"
    by blast
  have "can_send s"
    using Suc.prems by (cases "txfifo_cnts s") (auto simp: can_send_def)
  then have "unsent s1 @ frames ds1 = [] \<or> length (unsent s1 @ frames ds1) < length (unsent s @ frames ds)"
    using s1(3-5) by (cases "unsent s @ frames ds = []") auto
  then have "length (unsent s1 @ frames ds1) \<le> n"
    using Suc.prems(2) by auto
  moreover have "n \<le> length (txfifo_cnts s1)" "\<forall>c\<in>set (txfifo_cnts s1). c < UART_FIFO_LEN"
    using s1(4) Suc.prems(3,4) by (cases "txfifo_cnts s"; auto)+
  ultimately obtain s' where "tx_run malloc (replicate n (MainLoop True)) (acc, s1) = Some (acc, s')"
    "tx_inv s' []" "wire s' = wire s1 @ unsent s1 @ frames ds1" "unsent s' = []"
    using Suc.IH [OF s1(2)] by blast
  with s1 show ?case by auto
qed



section \<open>The blocking send\<close>

definition room :: "int list \<Rightarrow> int" where
  "room cs = (\<Sum>c\<leftarrow>cs. UART_FIFO_LEN - c)"

lemma room_nonneg: "\<forall>c\<in>set cs. cnt_ok c \<Longrightarrow> 0 \<le> room cs"
  by (induction cs) (auto simp: room_def cnt_ok_def)

lemma send_sync_cnts: "send_to_uart0_sync cs buf off len w = Some (r, w', cs') \<Longrightarrow> set cs' \<subseteq> set cs"
  by (induction cs arbitrary: off len w) (fastforce split: if_splits bind_splits)+

lemma send_sync_copies:
  assumes "\<forall>c\<in>set cs. cnt_ok c" "0 \<le> off" "0 \<le> len" "len < 65536" "off + len \<le> int (length buf)"
  shows "\<exists>cs'. send_to_uart0_sync cs buf off len w =
    Some (if len \<le> room cs then Returned else Spinning,
          w @ take (nat (min len (room cs))) (drop (nat off) buf), cs')"
  using assms
proof (induction cs arbitrary: off len w)
  case Nil
  then show ?case by (auto simp: room_def)
next
  case (Cons c cs)
  show ?case
  proof (cases "len = 0")
    case True
    then show ?thesis
      using room_nonneg [OF Cons.prems(1)] by simp
  next
    case False
    let ?n = "min len (UART_FIFO_LEN - c)"
    have c: "cnt_ok c" "0 \<le> ?n" "?n \<le> len" "0 \<le> room cs"
      using Cons.prems room_nonneg [of cs] by (auto simp: cnt_ok_def)
    have id: "uint16 (len - ?n) = len - ?n"
      using c Cons.prems by (intro uint16_id) auto
    have "send_to_uart0_sync (c # cs) buf off len w =
        send_to_uart0_sync cs buf (off + ?n) (len - ?n) (w @ take (nat ?n) (drop (nat off) buf))"
      using False uart0_fill_txfifo_copies [OF c(1), of off len buf] Cons.prems id
      by (simp add: Let_def)
    moreover obtain cs' where "send_to_uart0_sync cs buf (off + ?n) (len - ?n)
          (w @ take (nat ?n) (drop (nat off) buf)) =
        Some (if len - ?n \<le> room cs then Returned else Spinning,
          (w @ take (nat ?n) (drop (nat off) buf)) @
            take (nat (min (len - ?n) (room cs))) (drop (nat (off + ?n)) buf), cs')"
      using Cons.IH [of "off + ?n" "len - ?n" "w @ take (nat ?n) (drop (nat off) buf)"] Cons.prems c by auto
    moreover have "(len - ?n \<le> room cs) = (len \<le> room (c # cs))"
      using c by (auto simp: room_def min_def)
    moreover have "take (nat ?n) (drop (nat off) buf) @
        take (nat (min (len - ?n) (room cs))) (drop (nat (off + ?n)) buf) =
      take (nat (min len (room (c # cs)))) (drop (nat off) buf)"
    proof -
      have "nat (min len (room (c # cs))) = nat ?n + nat (min (len - ?n) (room cs))"
        using c by (auto simp: room_def min_def)
      moreover have "nat (off + ?n) = nat ?n + nat off"
        using c Cons.prems by auto
      ultimately show ?thesis
        by (simp only: take_add drop_drop)
    qed
    ultimately show ?thesis by simp
  qed
qed


section \<open>Properties\<close>

definition uart_tx_init :: "int list \<Rightarrow> uart_tx" where
  \<comment> \<open>the state after a successful \<open>queue_init\<close>\<close>
  "uart_tx_init cnts = \<lparr>eth_recv_queue = (empty_heap, Some new_queue), uartSendLen = 0,
     uartSendbuffer = replicate (nat MAX_FRAME_LEN) 0, uartSendPtr = 0, txfifo_cnts = cnts, wire = []\<rparr>"

lemma tx_inv_init: "\<forall>c\<in>set cnts. cnt_ok c \<Longrightarrow> tx_inv (uart_tx_init cnts) []"
  by (simp add: tx_inv_def uart_tx_init_def new_queue_rep link_consts)

lemma unsent_init: "unsent (uart_tx_init cnts) = []" "wire (uart_tx_init cnts) = []"
  by (simp_all add: unsent_def uart_tx_init_def)

text \<open>C22: the transmit FIFO is never overrun: \<open>uart0_fill_txfifo\<close> writes the longest prefix of the data
  that fits into the free part of the FIFO, despite its 8-bit counters, and reads only that prefix.\<close>

theorem uart0_fill_txfifo_fits:
  assumes "cnt_ok c" "0 \<le> off" "0 \<le> len" "off + len \<le> int (length buf)"
  shows "\<exists>n bs. uart0_fill_txfifo c buf off len = Some (n, bs) \<and> n = min len (UART_FIFO_LEN - c) \<and>
    c + int (length bs) \<le> UART_FIFO_LEN \<and> bs = take (nat n) (drop (nat off) buf)"
  using uart0_fill_txfifo_copies [OF assms] assms by (auto simp: Let_def cnt_ok_def)

theorem uart0_fill_txfifo_fits_witness:
  "\<exists>n bs. uart0_fill_txfifo 126 [1, 2, 3, 4] 1 3 = Some (n, bs) \<and> n = min 3 (UART_FIFO_LEN - 126) \<and>
    126 + int (length bs) \<le> UART_FIFO_LEN \<and> bs = take (nat n) (drop (nat 1) [1, 2, 3, 4])"
  by (rule uart0_fill_txfifo_fits) (simp_all add: cnt_ok_def UART_FIFO_LEN_def)

text \<open>C5: no packet is lost, reordered or damaged between the Wi-Fi stack and the wire. For every
  interleaving of packets received from the Wi-Fi stack with calls of \<open>wifi2uart\<close>, and every fill level
  of the transmit FIFO, the model runs without a memory fault and the bytes on the wire, the unsent
  part of the send buffer and the frames of the queued packets are together the frames of the packets
  the queue accepted, in order.\<close>

theorem tx_frames_in_order:
  assumes "malloc_fresh malloc" "event_packets_ok es" "\<forall>c\<in>set cnts. cnt_ok c"
  shows "\<exists>acc s ds. tx_run malloc es ([], uart_tx_init cnts) = Some (acc, s) \<and> tx_inv s ds \<and>
    wire s @ unsent s @ frames ds = frames acc"
  using tx_run_conserve [OF assms(1,2) tx_inv_init [OF assms(3)]] by (simp add: unsent_init)

theorem tx_frames_in_order_witness:
  "\<exists>acc s ds. tx_run bump [MainLoop True, WifiPacket [1, 2] True, MainLoop True, WifiPacket [3] False]
      ([], uart_tx_init [128, 0]) = Some (acc, s) \<and> tx_inv s ds \<and>
    wire s @ unsent s @ frames ds = frames acc"
  by (rule tx_frames_in_order)
    (simp_all add: bump_fresh event_packets_ok_def wifi_packet_def cnt_ok_def link_consts)

text \<open>C16: everything queued reaches the wire: from any state of the packet path, as many calls of
  \<open>wifi2uart\<close> as there are bytes left, each finding room in the transmit FIFO, put the rest of the
  current frame and the frames of all queued packets on the wire and leave the queue empty.\<close>

theorem wifi2uart_drains:
  assumes "tx_inv s ds" "length (unsent s @ frames ds) \<le> n" "n \<le> length (txfifo_cnts s)"
    "\<forall>c\<in>set (txfifo_cnts s). c < UART_FIFO_LEN"
  shows "\<exists>s'. tx_run malloc (replicate n (MainLoop True)) (acc, s) = Some (acc, s') \<and>
    queue_rep (eth_recv_queue s') [] \<and> wire s' = wire s @ unsent s @ frames ds \<and> unsent s' = []"
  using wifi2uart_drain [OF assms, of malloc acc] by (auto simp: tx_inv_def)

theorem wifi2uart_drains_witness:
  "\<exists>s'. tx_run bump (replicate 6 (MainLoop True)) ([], (uart_tx_init (replicate 6 0))\<lparr>eth_recv_queue := one_packet\<rparr>) =
      Some ([], s') \<and>
    queue_rep (eth_recv_queue s') [] \<and> wire s' = [] @ [] @ frames [[7, 8, 9]] \<and> unsent s' = []"
proof -
  let ?s = "(uart_tx_init (replicate 6 0))\<lparr>eth_recv_queue := one_packet\<rparr>"
  have inv: "tx_inv ?s [[7, 8, 9]]"
    using one_packet_rep
    by (auto simp: tx_inv_def uart_tx_init_def heap_is_queue_def queue_rep_def link_consts cnt_ok_def)
  have "unsent ?s = []" "wire ?s = []" "txfifo_cnts ?s = replicate 6 0"
    by (simp_all add: unsent_def uart_tx_init_def)
  then show ?thesis
    using wifi2uart_drains [OF inv, of 6 bump "[]"] by (simp add: UART_FIFO_LEN_def)
qed

text \<open>C23: the blocking send of the handshake. \<open>send_to_uart0_sync\<close> writes the block byte by byte in order;
  it returns as soon as the free space the FIFO has offered in total covers the block, and until then
  exactly that many bytes of it are on the wire.\<close>

theorem send_to_uart0_sync_sends:
  assumes "\<forall>c\<in>set cs. cnt_ok c" "length buf < 65536"
  shows "\<exists>cs'. send_to_uart0_sync cs buf 0 (int (length buf)) w =
    Some (if int (length buf) \<le> room cs then Returned else Spinning,
          w @ take (nat (room cs)) buf, cs')"
proof -
  have "take (nat (min (int (length buf)) (room cs))) buf = take (nat (room cs)) buf"
    using room_nonneg [OF assms(1)] by (auto simp: min_def)
  then show ?thesis
    using send_sync_copies [OF assms(1), of 0 "int (length buf)" buf w] assms(2) by simp
qed

theorem send_to_uart0_sync_sends_witness:
  "\<exists>cs'. send_to_uart0_sync [128, 127, 0] [1, 2, 3] 0 (int (length [1, 2, 3 :: byte])) [9] =
    Some (if int (length [1, 2, 3 :: byte]) \<le> room [128, 127, 0] then Returned else Spinning,
          [9] @ take (nat (room [128, 127, 0])) [1, 2, 3], cs')"
  by (rule send_to_uart0_sync_sends) (simp_all add: cnt_ok_def UART_FIFO_LEN_def)

text \<open>C21: the queue is first in, first out for its two tasks. For every interleaving of non-empty packets
  put in by the Wi-Fi task and packets taken out by the main loop, the accepted packets are the taken
  ones followed by those still queued.\<close>

theorem queue_fifo_interleaving:
  assumes "malloc_fresh malloc" "queue_rep hq []" "Some [] \<notin> set xs"
  shows "\<exists>acc out hq' ds. packet_queue.run (\<lambda>d. queue_enqueue malloc True (Some d) (int (length d)))
      (queue_take True) xs hq = Some (acc, out, hq') \<and> queue_rep hq' ds \<and> acc = out @ ds"
  using pq.run_fifo [of malloc hq "[]" xs] assms by auto

theorem queue_fifo_interleaving_witness:
  "\<exists>acc out hq' ds. packet_queue.run (\<lambda>d. queue_enqueue bump True (Some d) (int (length d)))
      (queue_take True) [Some [1], None, None, Some [2, 3]] (empty_heap, Some new_queue) =
      Some (acc, out, hq') \<and> queue_rep hq' ds \<and> acc = out @ ds"
  by (rule queue_fifo_interleaving) (simp_all add: bump_fresh new_queue_rep)

end
