(* ===== verification/Line_Settings.thy ===== *)
theory Line_Settings
  imports Prelude
begin

text \<open>
  The settings of the serial line at its two ends: the \<open>ktermios\<close> that \<open>ttyio_init\<close> of
  \<open>uart_wifi_driver/uart.c\<close> builds, and the \<open>uart_config\<close> in \<open>init\<close> of
  \<open>uart_wifi_passthrough/main/main.c\<close>. The values of the flags belong to the kernel and are a parameter.
\<close>

unbundle bit_operations_syntax

section \<open>The host\<close>

record termios_flags =
  CREAD :: "32 word"
  CLOCAL :: "32 word"
  CRTSCTS :: "32 word"
  CSIZE :: "32 word"
  CS8 :: "32 word"
  PARENB :: "32 word"
  CSTOPB :: "32 word"
  IXON :: "32 word"
  IXOFF :: "32 word"
  OPOST :: "32 word"
  ICANON :: "32 word"
  ECHO :: "32 word"
  ECHOE :: "32 word"
  ISIG :: "32 word"

record ktermios =
  c_iflag :: "32 word"
  c_oflag :: "32 word"
  c_cflag :: "32 word"
  c_lflag :: "32 word"
  c_cc_VTIME :: int
  c_cc_VMIN :: int
  c_ispeed :: int
  c_ospeed :: int

definition zero_termios :: ktermios where
  \<comment> \<open>\<open>memset\<close>\<close>
  "zero_termios = \<lparr>c_iflag = 0, c_oflag = 0, c_cflag = 0, c_lflag = 0, c_cc_VTIME = 0, c_cc_VMIN = 0,
     c_ispeed = 0, c_ospeed = 0\<rparr>"

definition newtio_cflag :: "termios_flags \<Rightarrow> 32 word" where
  "newtio_cflag F =
     (let c = 0;
          c = c OR CREAD F;
          c = c OR CLOCAL F;
          c = c OR CRTSCTS F;
          c = c AND NOT (CSIZE F);
          c = c OR CS8 F;
          c = c AND NOT (PARENB F);
          c = c AND NOT (CSTOPB F)
      in c)"

definition newtio :: "termios_flags \<Rightarrow> (ktermios \<Rightarrow> int \<Rightarrow> int \<Rightarrow> ktermios) \<Rightarrow> ktermios" where
  \<comment> \<open>the flags and \<open>tty_termios_encode_baud_rate\<close>\<close>
  "newtio F encode_baud_rate =
     encode_baud_rate (zero_termios\<lparr>
       c_cflag := newtio_cflag F, c_cc_VTIME := 0, c_cc_VMIN := 0,
       c_iflag := 0 AND NOT (IXON F OR IXOFF F),
       c_oflag := 0 AND NOT (OPOST F),
       c_lflag := 0 AND NOT (ICANON F OR ECHO F OR ECHOE F OR ISIG F)\<rparr>) 921600 921600"


section \<open>The firmware\<close>

datatype uart_word_length = UART_DATA_5_BITS | UART_DATA_6_BITS | UART_DATA_7_BITS | UART_DATA_8_BITS

datatype uart_parity = UART_PARITY_DISABLE | UART_PARITY_EVEN | UART_PARITY_ODD

datatype uart_stop_bits = UART_STOP_BITS_1 | UART_STOP_BITS_1_5 | UART_STOP_BITS_2

datatype uart_hw_flowcontrol = UART_HW_FLOWCTRL_DISABLE | UART_HW_FLOWCTRL_RTS | UART_HW_FLOWCTRL_CTS | UART_HW_FLOWCTRL_CTS_RTS

record uart_config =
  baud_rate :: int
  data_bits :: uart_word_length
  parity :: uart_parity
  stop_bits :: uart_stop_bits
  flow_ctrl :: uart_hw_flowcontrol
  rx_flow_ctrl_thresh :: int

definition uart0_config :: uart_config where
  "uart0_config = \<lparr>baud_rate = 921600, data_bits = UART_DATA_8_BITS, parity = UART_PARITY_DISABLE,
     stop_bits = UART_STOP_BITS_1, flow_ctrl = UART_HW_FLOWCTRL_CTS_RTS, rx_flow_ctrl_thresh = 126\<rparr>"


section \<open>What both mean for the line\<close>

record line_settings =
  rx_baud :: int
  tx_baud :: int
  eight_bits :: bool
  has_parity :: bool
  one_stop_bit :: bool
  hw_flow :: bool

definition host_line :: "termios_flags \<Rightarrow> ktermios \<Rightarrow> line_settings" where
  "host_line F t = \<lparr>rx_baud = c_ispeed t, tx_baud = c_ospeed t, eight_bits = (c_cflag t AND CSIZE F = CS8 F),
     has_parity = (c_cflag t AND PARENB F \<noteq> 0), one_stop_bit = (c_cflag t AND CSTOPB F = 0),
     hw_flow = (c_cflag t AND CRTSCTS F = CRTSCTS F)\<rparr>"

definition esp_line :: "uart_config \<Rightarrow> line_settings" where
  "esp_line c = \<lparr>rx_baud = baud_rate c, tx_baud = baud_rate c, eight_bits = (data_bits c = UART_DATA_8_BITS),
     has_parity = (parity c \<noteq> UART_PARITY_DISABLE), one_stop_bit = (stop_bits c = UART_STOP_BITS_1),
     hw_flow = (flow_ctrl c = UART_HW_FLOWCTRL_CTS_RTS)\<rparr>"

text \<open>The fields of the control flags do not overlap, and the encoding of the speed keeps all but the speed.\<close>

definition flags_ok :: "termios_flags \<Rightarrow> bool" where
  "flags_ok F \<longleftrightarrow> CS8 F AND CSIZE F = CS8 F \<and>
     CSIZE F AND PARENB F = 0 \<and> CSIZE F AND CSTOPB F = 0 \<and> CSIZE F AND CRTSCTS F = 0 \<and>
     CRTSCTS F AND PARENB F = 0 \<and> CRTSCTS F AND CSTOPB F = 0"

definition encode_ok :: "termios_flags \<Rightarrow> (ktermios \<Rightarrow> int \<Rightarrow> int \<Rightarrow> ktermios) \<Rightarrow> bool" where
  "encode_ok F enc \<longleftrightarrow> (\<forall>t i o'. c_ispeed (enc t i o') = i \<and> c_ospeed (enc t i o') = o' \<and>
     (\<forall>m\<in>{CSIZE F, PARENB F, CSTOPB F, CRTSCTS F}. c_cflag (enc t i o') AND m = c_cflag t AND m))"

lemma newtio_cflag_fields:
  assumes "flags_ok F"
  shows "newtio_cflag F AND CSIZE F = CS8 F" "newtio_cflag F AND PARENB F = 0" "newtio_cflag F AND CSTOPB F = 0"
    "newtio_cflag F AND CRTSCTS F = CRTSCTS F"
  using assms unfolding flags_ok_def newtio_cflag_def Let_def bit_eq_iff
  by (auto simp: bit_simps)

lemma newtio_line:
  assumes "flags_ok F" "encode_ok F enc"
  shows "host_line F (newtio F enc) = esp_line uart0_config"
  using assms newtio_cflag_fields [OF assms(1)]
  by (simp add: host_line_def esp_line_def newtio_def uart0_config_def encode_ok_def zero_termios_def)

text \<open>The values of the generic Linux headers, and an encoding that stores the speeds.\<close>

definition linux_flags :: termios_flags where
  "linux_flags = \<lparr>CREAD = 0x80, CLOCAL = 0x800, CRTSCTS = 0x80000000, CSIZE = 0x30, CS8 = 0x30, PARENB = 0x100,
     CSTOPB = 0x40, IXON = 0x400, IXOFF = 0x1000, OPOST = 1, ICANON = 2, ECHO = 8, ECHOE = 0x10, ISIG = 1\<rparr>"

definition store_speed :: "ktermios \<Rightarrow> int \<Rightarrow> int \<Rightarrow> ktermios" where
  "store_speed t i o' = t\<lparr>c_ispeed := i, c_ospeed := o'\<rparr>"

lemma linux_flags_ok: "flags_ok linux_flags" "encode_ok F store_speed"
  by (simp_all add: flags_ok_def linux_flags_def encode_ok_def store_speed_def)

end
