(* ===== verification/Esp_Main.thy ===== *)
theory Esp_Main
  imports Esp_Handshake Esp_Packets Esp_Send Line_Settings
begin

text \<open>
  The firmware as a whole, \<open>uart_wifi_passthrough/main/main.c\<close>: receiving the credentials, the handshake
  \<open>start_hock\<close> when an address has been assigned, the Wi-Fi events, and the main loop with the task that
  feeds it. The state combines the receiving half (\<open>uart_rx\<close>) and the sending half (\<open>uart_tx\<close>) with
  the globals of \<open>main.c\<close>.
\<close>

section \<open>State\<close>

record lwip_netif =
  nif_ip :: ip4_addr
  nif_netmask :: ip4_addr
  nif_gw :: ip4_addr

record esp =
  rx :: uart_rx
  tx :: uart_tx
  runFlag :: bool
  mutex_given :: bool
  target_wifi_netif :: "lwip_netif option"
  netif_info_buf :: "byte list"
  gpio5 :: bool
  uart0_cfg :: "uart_config option"
  wifi_connects :: nat

definition esp_init :: "byte list list \<Rightarrow> int list \<Rightarrow> esp" where
  \<comment> \<open>where \<open>wifi_init_sta\<close> starts: the queue is created, the pin high and the serial port configured\<close>
  "esp_init fifo cnts = \<lparr>rx = uart_rx_init fifo, tx = uart_tx_init cnts, runFlag = False, mutex_given = False,
     target_wifi_netif = None, netif_info_buf = replicate 15 0, gpio5 = True, uart0_cfg = Some uart0_config, wifi_connects = 0\<rparr>"


definition esp_reset :: "bool \<Rightarrow> byte list list \<Rightarrow> int list \<Rightarrow> esp" where
  \<comment> \<open>the globals before \<open>init\<close>: no queue yet, the pin at any level, the serial port as the boot loader left it\<close>
  "esp_reset g fifo cnts = (esp_init fifo cnts)\<lparr>tx := (uart_tx_init cnts)\<lparr>eth_recv_queue := (empty_heap, None)\<rparr>, gpio5 := g,
     uart0_cfg := None\<rparr>"


section \<open>Operations\<close>

definition fill_netif_info :: "byte list \<Rightarrow> lwip_netif \<Rightarrow> byte list option" where
  "fill_netif_info buf n = do {
     buf \<leftarrow> blk_write buf 0 (store_u16 12);
     buf \<leftarrow> blk_write buf 2 (ip4_bytes (nif_ip n));
     buf \<leftarrow> blk_write buf 6 (ip4_bytes (nif_netmask n));
     buf \<leftarrow> blk_write buf 10 (ip4_bytes (nif_gw n));
     blk_write buf 14 [SPLIT_CMD] }"

definition start_hock :: "ip4_addr \<Rightarrow> lwip_netif list \<Rightarrow> esp \<Rightarrow> (wait \<times> esp) option" where
  \<comment> \<open>the assigned address and \<open>netif_list\<close>\<close>
  "start_hock ip netif_list s =
     (case find (\<lambda>n. nif_ip n = ip) netif_list of
        None \<Rightarrow> Some (Returned, s)
      | Some netif \<Rightarrow> do {
          ni \<leftarrow> fill_netif_info (netif_info_buf s) netif;
          let s = s\<lparr>netif_info_buf := ni\<rparr>;
          (w, wr, cnts) \<leftarrow> send_to_uart0_sync (txfifo_cnts (tx s)) ni 0 (int (length ni)) (wire (tx s));
          let s = s\<lparr>tx := (tx s)\<lparr>wire := wr, txfifo_cnts := cnts\<rparr>\<rparr>;
          if w = Spinning then Some (Spinning, s)
          else do {
            (w, r) \<leftarrow> recv_netif_info ni (int (length ni)) (rx s);
            let s = s\<lparr>rx := r\<rparr>;
            if w = Spinning then Some (Spinning, s)
            else Some (Returned, s\<lparr>target_wifi_netif := Some netif, gpio5 := False, runFlag := True,
                                   mutex_given := True\<rparr>) } })"

datatype wifi_event =
    WIFI_EVENT_STA_START
  | WIFI_EVENT_STA_CONNECTED
  | WIFI_EVENT_STA_DISCONNECTED
  | WIFI_EVENT_STA_AUTHMODE_CHANGE
  | WIFI_EVENT_OTHER
  | IP_EVENT_STA_GOT_IP ip4_addr
  | OTHER_EVENT

definition wifi_event_handler :: "lwip_netif list \<Rightarrow> wifi_event \<Rightarrow> esp \<Rightarrow> (wait \<times> esp) option" where
  "wifi_event_handler netif_list e s =
     (case e of
        WIFI_EVENT_STA_START \<Rightarrow> Some (Returned, s\<lparr>wifi_connects := Suc (wifi_connects s)\<rparr>)
      | WIFI_EVENT_STA_DISCONNECTED \<Rightarrow> Some (Returned, s\<lparr>runFlag := False\<rparr>)
      | IP_EVENT_STA_GOT_IP ip \<Rightarrow> start_hock ip netif_list s
      | _ \<Rightarrow> Some (Returned, s))"

text \<open>The credentials are received into the zero-initialised fields of the station configuration.\<close>

definition wifi_init_sta :: "esp \<Rightarrow> (wait \<times> byte list \<times> byte list \<times> esp) option" where
  "wifi_init_sta s = do {
     (w, name, r) \<leftarrow> recv_ssid (replicate 32 0) (rx s);
     if w = Spinning then Some (Spinning, name, replicate 64 0, s\<lparr>rx := r\<rparr>)
     else do {
       (w, pw, r) \<leftarrow> recv_passwd (replicate 64 0) r;
       Some (w, name, pw, s\<lparr>rx := r\<rparr>) } }"

text \<open>\<open>init\<close> up to the wait for the link: it can fail to create its semaphore or the queue, still wait for the
  credentials, or have configured the station.\<close>

datatype init_end = Init_Failed | Init_No_Credentials | Init_Configured "byte list" "byte list"

definition init :: "allocator \<Rightarrow> bool \<Rightarrow> bool \<Rightarrow> esp \<Rightarrow> (init_end \<times> esp) option" where
  "init malloc sem_ok queue_sem_ok s =
     (if \<not> sem_ok then Some (Init_Failed, s)
      else
        let (h, q) = eth_recv_queue (tx s);
            (ret, q) = queue_init malloc queue_sem_ok h q;
            s = s\<lparr>tx := (tx s)\<lparr>eth_recv_queue := (h, q)\<rparr>\<rparr>
        in if ret \<noteq> 0 then Some (Init_Failed, s)
        else do {
          (w, name, pw, s) \<leftarrow> wifi_init_sta (s\<lparr>gpio5 := True, uart0_cfg := Some uart0_config\<rparr>);
          Some (if w = Spinning then Init_No_Credentials else Init_Configured name pw, s) })"

definition read_uart0 :: "esp \<Rightarrow> esp option" where
  "read_uart0 s = do { (ret, r) \<leftarrow> uart0_recv_data 0 (rx s); Some (s\<lparr>rx := r\<rparr>) }"

definition main_iteration :: "bool \<Rightarrow> int \<Rightarrow> bool \<Rightarrow> esp \<Rightarrow> esp option" where
  \<comment> \<open>one round of \<open>while(runFlag)\<close>: the answers of the allocator, of the interface and of the queue lock\<close>
  "main_iteration alloc_ok err lock_ok s = do {
     r \<leftarrow> uart2wifi alloc_ok err (rx s);
     t \<leftarrow> wifi2uart lock_ok (tx s);
     Some (s\<lparr>rx := r, tx := t\<rparr>) }"

definition ip4_input_hook :: "allocator \<Rightarrow> bool \<Rightarrow> byte list \<Rightarrow> esp \<Rightarrow> esp option" where
  \<comment> \<open>the patched \<open>ip4_input\<close>: packets go to the host once the interface is set\<close>
  "ip4_input_hook malloc lock_ok p s =
     (if target_wifi_netif s = None then Some s
      else do {
        (r, t) \<leftarrow> uart_wifi_recv malloc lock_ok p (tx s);
        Some (s\<lparr>tx := t\<rparr>) })"


section \<open>The running firmware\<close>

text \<open>
  The steps of the running firmware: rounds of the main loop, packets that arrive from the Wi-Fi stack in
  another task, a lost connection, and after it the final state, in which the pin is high and the receive
  FIFO is drained for ever.
\<close>

inductive esp_step :: "allocator \<Rightarrow> esp \<Rightarrow> esp \<Rightarrow> bool" for malloc :: allocator where
  iteration: "runFlag s \<Longrightarrow> main_iteration alloc_ok err lock_ok s = Some s' \<Longrightarrow> esp_step malloc s s'"
| packet: "wifi_packet p \<Longrightarrow> ip4_input_hook malloc lock_ok p s = Some s' \<Longrightarrow> esp_step malloc s s'"
| disconnect: "wifi_event_handler nifs WIFI_EVENT_STA_DISCONNECTED s = Some (w, s') \<Longrightarrow> esp_step malloc s s'"
| link_down: "\<not> runFlag s \<Longrightarrow> read_uart0 (s\<lparr>gpio5 := True\<rparr>) = Some s' \<Longrightarrow> esp_step malloc s s'"

text \<open>The receive buffer holds a packet in progress only while the main loop runs; afterwards it is a place to
  read into. While the loop runs, the pin tells the host that the link is up.\<close>

definition esp_inv :: "esp \<Rightarrow> bool" where
  "esp_inv s \<longleftrightarrow> (runFlag s \<longrightarrow> pk_inv (rx s) \<and> \<not> gpio5 s) \<and>
     int (length (uartRecvBuffer (rx s))) = MAX_FRAME_LEN + UART_FIFO_LEN \<and> fifo_ok (rxfifo (rx s)) \<and>
     (\<exists>ds. tx_inv (tx s) ds)"

inductive_cases esp_stepE: "esp_step malloc s s'"

lemma main_iteration_ok:
  assumes "esp_inv s" "runFlag s"
  shows "\<exists>s'. main_iteration alloc_ok err lock_ok s = Some s' \<and> esp_inv s'"
proof -
  obtain ds where inv: "pk_inv (rx s)" "tx_inv (tx s) ds" "\<not> gpio5 s"
    using assms by (auto simp: esp_inv_def)
  obtain r where "uart2wifi alloc_ok err (rx s) = Some r" "pk_inv r"
    using uart2wifi_call [OF inv(1)] by (auto simp: call_ok_def)
  moreover obtain t ds' where "wifi2uart lock_ok (tx s) = Some t" "tx_inv t ds'"
    using wifi2uart_step [OF inv(2)] by blast
  ultimately show ?thesis
    using inv(3) by (auto simp: main_iteration_def esp_inv_def pk_inv_def rx_inv_def)
qed

lemma ip4_input_hook_ok:
  assumes "esp_inv s" "malloc_fresh malloc" "wifi_packet p"
  shows "\<exists>s'. ip4_input_hook malloc lock_ok p s = Some s' \<and> esp_inv s'"
proof -
  obtain ds where "tx_inv (tx s) ds"
    using assms(1) by (auto simp: esp_inv_def)
  from uart_wifi_recv_step [OF this assms(2,3), of lock_ok] show ?thesis
    using assms(1) by (auto simp: ip4_input_hook_def esp_inv_def)
qed

lemma read_uart0_ok:
  assumes "esp_inv s" "\<not> runFlag s"
  shows "\<exists>s'. read_uart0 (s\<lparr>gpio5 := g\<rparr>) = Some s' \<and> esp_inv s'"
proof (cases "rxfifo (rx s)")
  case Nil
  then show ?thesis
    using assms by (auto simp: read_uart0_def uart0_recv_data_def esp_inv_def)
next
  case (Cons c cs)
  then have c: "int (length c) \<le> UART_FIFO_LEN" "fifo_ok cs"
    using assms(1) by (auto simp: esp_inv_def fifo_ok_def)
  moreover have "int16 (int (length c)) = int (length c)"
    using c(1) by (intro int16_id) (simp_all add: UART_FIFO_LEN_def)
  moreover obtain buf where "read_fifo c (uartRecvBuffer (rx s)) 0 = Some buf" "length buf = length (uartRecvBuffer (rx s))"
    using read_fifo_end [of 0 c "uartRecvBuffer (rx s)"] c(1) assms(1) by (auto simp: esp_inv_def link_consts)
  ultimately show ?thesis
    using assms Cons by (auto simp: read_uart0_def uart0_recv_data_def Let_def esp_inv_def)
qed

lemma esp_step_inv:
  assumes "esp_step malloc s s'" "malloc_fresh malloc" "esp_inv s"
  shows "esp_inv s'"
  using assms(1)
proof (rule esp_stepE)
  fix alloc_ok err lock_ok
  assume "runFlag s" "main_iteration alloc_ok err lock_ok s = Some s'"
  with main_iteration_ok [OF assms(3), of alloc_ok err lock_ok] show ?thesis by auto
next
  fix p lock_ok
  assume "wifi_packet p" "ip4_input_hook malloc lock_ok p s = Some s'"
  with ip4_input_hook_ok [OF assms(3,2), of p lock_ok] show ?thesis by auto
next
  fix nifs w
  assume "wifi_event_handler nifs WIFI_EVENT_STA_DISCONNECTED s = Some (w, s')"
  with assms(3) show ?thesis by (auto simp: wifi_event_handler_def esp_inv_def)
next
  assume "\<not> runFlag s" "read_uart0 (s\<lparr>gpio5 := True\<rparr>) = Some s'"
  with read_uart0_ok [OF assms(3), of True] show ?thesis by auto
qed

lemma esp_reachable_inv:
  "(esp_step malloc)\<^sup>*\<^sup>* s s' \<Longrightarrow> malloc_fresh malloc \<Longrightarrow> esp_inv s \<Longrightarrow> esp_inv s'"
  by (induction rule: rtranclp_induct) (auto intro: esp_step_inv)


section \<open>The handshake\<close>

lemma fill_netif_info_frame:
  assumes "length buf = 15"
  shows "fill_netif_info buf n = Some (netif_info_frame (nif_ip n) (nif_netmask n) (nif_gw n))"
proof -
  have len: "length buf = Suc (Suc (Suc (Suc (Suc (Suc (Suc (Suc (Suc (Suc (Suc (Suc (Suc (Suc (Suc 0))))))))))))))"
    using assms by simp
  show ?thesis
    using len by (cases "nif_ip n"; cases "nif_netmask n"; cases "nif_gw n")
      (auto simp: fill_netif_info_def blk_write_def netif_info_frame_def mk_frame_def store_u16_def length_Suc_conv
        numeral_eq_Suc)
qed

text \<open>The two credential frames are accepted by the two receivers in turn.\<close>

lemma ssid_frame:
  "length name \<le> 31 \<Longrightarrow> next_frame ssid_fmt Sync (mk_frame SPLIT_CMD (name @ [0]) @ r) = Frame (name @ [0]) r"
  by (rule next_frame_mk_frame)
    (simp_all add: ssid_fmt_def link_consts WPA_MIN_SSID_LEN_def mk_frame_def store_u16_def nth_append)

lemma passwd_frame:
  "7 \<le> length pw \<Longrightarrow> length pw \<le> 63 \<Longrightarrow>
    next_frame passwd_fmt Sync (mk_frame SPLIT_CMD (pw @ [0]) @ r) = Frame (pw @ [0]) r"
  by (rule next_frame_mk_frame)
    (simp_all add: passwd_fmt_def link_consts WPA_MIN_PASSWD_LEN_def mk_frame_def store_u16_def nth_append)

text \<open>The echo of the configuration is recognised.\<close>

lemma netif_frame:
  "next_frame (netif_fmt (netif_info_frame ip netmask gw)) Sync (netif_info_frame ip netmask gw @ r) =
     Frame (ip4_bytes ip @ ip4_bytes netmask @ ip4_bytes gw) r"
  by (subst (2) netif_info_frame_def) (rule next_frame_mk_frame, simp_all add: netif_fmt_def netif_info_frame_def)

text \<open>The state between two receivers, before the main loop runs.\<close>

definition boot_ok :: "esp \<Rightarrow> bool" where
  "boot_ok s \<longleftrightarrow> rx_inv data_fmt (rx s) \<and> status (rx s) = STATUS_LEN \<and> send_pbuf (rx s) = None \<and>
     (\<exists>ds. tx_inv (tx s) ds) \<and> length (netif_info_buf s) = 15"

lemma rx_inv_any: "rx_inv F r \<Longrightarrow> status r = STATUS_LEN \<Longrightarrow> rx_inv F' r"
  by (simp add: rx_inv_def)

lemma esp_init_simps [simp]:
  "rx (esp_init fifo cnts) = uart_rx_init fifo" "tx (esp_init fifo cnts) = uart_tx_init cnts"
  "length (netif_info_buf (esp_init fifo cnts)) = 15"
  by (simp_all add: esp_init_def)

lemma status_init [simp]: "status (uart_rx_init fifo) = STATUS_LEN" "send_pbuf (uart_rx_init fifo) = None"
  by (simp_all add: uart_rx_init_def)

lemma boot_ok_init:
  assumes "fifo_ok fifo" "\<forall>c\<in>set cnts. cnt_ok c"
  shows "boot_ok (esp_init fifo cnts)"
  using rx_inv_init [OF assms(1)] tx_inv_init [OF assms(2)] by (auto simp: boot_ok_def)

lemma wifi_init_sta_credentials:
  assumes "rx_inv ssid_fmt (rx s)" "status (rx s) = STATUS_LEN"
    "content (rx s) @ concat (rxfifo (rx s)) = mk_frame SPLIT_CMD (name @ [0]) @ mk_frame SPLIT_CMD (pw @ [0]) @ r"
    "length name \<le> 31" "7 \<le> length pw" "length pw \<le> 63"
  shows "\<exists>r'. wifi_init_sta s = Some (Returned, name @ replicate (32 - length name) 0,
      pw @ replicate (64 - length pw) 0, s\<lparr>rx := r'\<rparr>) \<and>
    rx_inv passwd_fmt r' \<and> status r' = STATUS_LEN \<and> content r' @ concat (rxfifo r') = r \<and> handed r' = handed (rx s)"
proof -
  let ?out = "replicate 32 (0 :: byte)" let ?pout = "replicate 64 (0 :: byte)"
  obtain r1 where r1: "recv_ssid ?out (rx s) = map_option (\<lambda>out. (Returned, out, r1)) (blk_write ?out 0 (name @ [0]))"
    "rx_inv ssid_fmt r1" "status r1 = STATUS_LEN"
    "content r1 @ concat (rxfifo r1) = mk_frame SPLIT_CMD (pw @ [0]) @ r" "handed r1 = handed (rx s)"
    using ssid.receives [OF assms(1), of ?out] ssid_frame [OF assms(4), of "mk_frame SPLIT_CMD (pw @ [0]) @ r"]
      assms(2,3) by auto
  have inv: "rx_inv passwd_fmt r1"
    using r1(2,3) by (simp add: rx_inv_def)
  obtain r2 where r2: "recv_passwd ?pout r1 = map_option (\<lambda>out. (Returned, out, r2)) (blk_write ?pout 0 (pw @ [0]))"
    "rx_inv passwd_fmt r2" "status r2 = STATUS_LEN" "content r2 @ concat (rxfifo r2) = r"
    "handed r2 = handed r1"
    using passwd.receives [OF inv, of ?pout] passwd_frame [OF assms(5,6), of r] r1(3,4) by auto
  have out: "blk_write ?out 0 (name @ [0]) = Some (name @ replicate (32 - length name) 0)"
    "blk_write ?pout 0 (pw @ [0]) = Some (pw @ replicate (64 - length pw) 0)"
    using assms(4,6) by (simp_all add: blk_write_front Suc_diff_le flip: replicate_Suc)
  show ?thesis
    using r1(1,5) r2 out by (intro exI [of _ r2]) (simp add: wifi_init_sta_def)
qed

lemma wifi_init_sta_boots:
  assumes "boot_ok s" "stream (rx s) = mk_frame SPLIT_CMD (name @ [0]) @ mk_frame SPLIT_CMD (pw @ [0]) @ r"
    "length name \<le> 31" "7 \<le> length pw" "length pw \<le> 63"
  shows "\<exists>r'. wifi_init_sta s = Some (Returned, name @ replicate (32 - length name) 0,
      pw @ replicate (64 - length pw) 0, s\<lparr>rx := r'\<rparr>) \<and> boot_ok (s\<lparr>rx := r'\<rparr>) \<and> stream r' = r"
proof -
  have rx: "rx_inv ssid_fmt (rx s)" "status (rx s) = STATUS_LEN"
    using assms(1) rx_inv_any by (auto simp: boot_ok_def)
  obtain r' where r': "wifi_init_sta s = Some (Returned, name @ replicate (32 - length name) 0,
      pw @ replicate (64 - length pw) 0, s\<lparr>rx := r'\<rparr>)" "rx_inv passwd_fmt r'" "status r' = STATUS_LEN"
    "content r' @ concat (rxfifo r') = r" "handed r' = handed (rx s)"
    using wifi_init_sta_credentials [OF rx, of name pw r] assms(2-) by (auto simp: stream_def)
  moreover have "boot_ok (s\<lparr>rx := r'\<rparr>)"
    using assms(1) r'(3,5) rx_inv_any [OF r'(2,3)] by (simp add: boot_ok_def handed_def)
  ultimately show ?thesis
    by (auto simp: stream_def)
qed

lemma queue_init_new:
  "queue_init malloc ok h q = (if malloc h sizeof_ThreadSafeQueue \<noteq> 0 \<and> ok then (0, Some new_queue) else (-1, q))"
  by (simp add: queue_init_def new_queue_def MAX_QUEUE_LENGTH_def uint16_def)

lemma init_reset:
  "init malloc sem_ok queue_sem_ok (esp_reset g fifo cnts) =
     (if sem_ok \<and> malloc empty_heap sizeof_ThreadSafeQueue \<noteq> 0 \<and> queue_sem_ok
      then do {
        (w, name, pw, s) \<leftarrow> wifi_init_sta (esp_init fifo cnts);
        Some (if w = Spinning then Init_No_Credentials else Init_Configured name pw, s) }
      else Some (Init_Failed, esp_reset g fifo cnts))"
  by (simp add: init_def esp_reset_def esp_init_def queue_init_new uart_tx_init_def)

lemma start_hock_echo:
  assumes s: "boot_ok s" and n: "find (\<lambda>n. nif_ip n = ip) netif_list = Some n"
    and ni: "ni = netif_info_frame (nif_ip n) (nif_netmask n) (nif_gw n)"
    and room: "15 \<le> room (txfifo_cnts (tx s))" and rx: "stream (rx s) = ni @ r"
  shows "\<exists>s'. start_hock ip netif_list s = Some (Returned, s') \<and> esp_inv s' \<and> pk_inv (rx s') \<and>
    wire (tx s') = wire (tx s) @ ni \<and> runFlag s' \<and> mutex_given s' \<and> \<not> gpio5 s' \<and> target_wifi_netif s' = Some n \<and>
    status (rx s') = STATUS_LEN \<and> stream (rx s') = r \<and> netif_output (rx s') = netif_output (rx s)"
proof -
  have buf: "length (netif_info_buf s) = 15" and len: "length ni = 15"
    using s by (simp_all add: ni boot_ok_def)
  obtain ds where tx: "tx_inv (tx s) ds"
    using s by (auto simp: boot_ok_def)
  then have cnts: "\<forall>c\<in>set (txfifo_cnts (tx s)). cnt_ok c"
    by (simp add: tx_inv_def)
  obtain cnts' where send: "send_to_uart0_sync (txfifo_cnts (tx s)) ni 0 15 (wire (tx s)) =
      Some (Returned, wire (tx s) @ ni, cnts')"
    using send_sync_copies [OF cnts, of 0 15 ni "wire (tx s)"] room len by auto
  have inv: "rx_inv (netif_fmt ni) (rx s)" "status (rx s) = STATUS_LEN"
    using s rx_inv_any by (auto simp: boot_ok_def)
  obtain r' where r': "recv_netif_info ni 15 (rx s) = Some (Returned, r')" "rx_inv (netif_fmt ni) r'"
    "status r' = STATUS_LEN" "stream r' = r" "handed r' = handed (rx s)"
    using netif.receives [OF inv(1) [unfolded ni]] netif_frame inv(2) rx ni by (auto simp: stream_def)
  let ?s = "s\<lparr>netif_info_buf := ni, tx := (tx s)\<lparr>wire := wire (tx s) @ ni, txfifo_cnts := cnts'\<rparr>, rx := r',
    target_wifi_netif := Some n, gpio5 := False, runFlag := True, mutex_given := True\<rparr>"
  have "start_hock ip netif_list s = Some (Returned, ?s)"
    using n fill_netif_info_frame [OF buf, of n] ni send len r'(1) by (simp add: start_hock_def Let_def)
  moreover have "pk_inv r'"
    using r'(3,5) rx_inv_any [OF r'(2)] s by (simp add: pk_inv_def handed_def boot_ok_def)
  moreover have "tx_inv (tx ?s) ds"
    using tx send_sync_cnts [OF send] by (auto simp: tx_inv_def)
  then have "\<exists>ds. tx_inv (tx ?s) ds" ..
  ultimately show ?thesis
    using r'(3-5) by (auto simp: esp_inv_def handed_def pk_inv_def rx_inv_def)
qed


section \<open>Properties\<close>


definition esp_up :: "byte list list \<Rightarrow> int list \<Rightarrow> esp" where
  "esp_up fifo cnts = (esp_init fifo cnts)\<lparr>runFlag := True, gpio5 := False,
     target_wifi_netif := Some \<lparr>nif_ip = (192, 168, 1, 2), nif_netmask = (255, 255, 255, 0), nif_gw = (192, 168, 1, 1)\<rparr>\<rparr>"

lemma esp_up_inv: "fifo_ok fifo \<Longrightarrow> \<forall>c\<in>set cnts. cnt_ok c \<Longrightarrow> esp_inv (esp_up fifo cnts)"
  using pk_inv_init [of fifo] tx_inv_init [of cnts]
  by (auto simp: esp_inv_def esp_up_def esp_init_def pk_inv_def rx_inv_def)




text \<open>C40: the handshake brings the firmware up. When an address is assigned to a known interface, the
  transmit FIFO has room for 15 bytes and the host echoes the configuration, \<open>start_hock\<close> has sent
  exactly the configuration frame of that interface, pulls the pin low, sets the interface and releases the
  main task, keeps whatever follows the echo, and establishes the invariant of the running firmware.\<close>

theorem start_hock_links:
  assumes "boot_ok s" "find (\<lambda>n. nif_ip n = ip) netif_list = Some n"
    "ni = netif_info_frame (nif_ip n) (nif_netmask n) (nif_gw n)"
    "15 \<le> room (txfifo_cnts (tx s))" "stream (rx s) = ni @ r"
  shows "\<exists>s'. start_hock ip netif_list s = Some (Returned, s') \<and> esp_inv s' \<and>
    wire (tx s') = wire (tx s) @ ni \<and> runFlag s' \<and> mutex_given s' \<and> \<not> gpio5 s' \<and> target_wifi_netif s' = Some n \<and>
    status (rx s') = STATUS_LEN \<and> stream (rx s') = r"
  using start_hock_echo [OF assms] by blast

theorem start_hock_links_witness:
  "\<exists>s'. start_hock (10, 0, 0, 2) [\<lparr>nif_ip = (10, 0, 0, 2), nif_netmask = (255, 0, 0, 0), nif_gw = (10, 0, 0, 1)\<rparr>]
      (esp_init [netif_info_frame (10, 0, 0, 2) (255, 0, 0, 0) (10, 0, 0, 1) @ [0, 0]] [120, 120]) = Some (Returned, s') \<and>
    esp_inv s' \<and> wire (tx s') = wire (tx (esp_init [netif_info_frame (10, 0, 0, 2) (255, 0, 0, 0) (10, 0, 0, 1) @ [0, 0]] [120, 120])) @
      netif_info_frame (10, 0, 0, 2) (255, 0, 0, 0) (10, 0, 0, 1) \<and> runFlag s' \<and> mutex_given s' \<and> \<not> gpio5 s' \<and>
    target_wifi_netif s' = Some \<lparr>nif_ip = (10, 0, 0, 2), nif_netmask = (255, 0, 0, 0), nif_gw = (10, 0, 0, 1)\<rparr> \<and>
    status (rx s') = STATUS_LEN \<and> stream (rx s') = [0, 0]"
  by (rule start_hock_links)
    (simp_all add: boot_ok_init fifo_ok_def cnt_ok_def room_def UART_FIFO_LEN_def uart_tx_init_def stream_def rx_init_simps)

end
