(* ===== verification/Dump.thy ===== *)
theory Dump
  imports Frames
begin

text \<open>
  The hex dumps: \<open>uart_wifi_driver/dump.c\<close> of the driver, and \<open>wifi_send_dump\<close> and \<open>wifi_recv_dump\<close> of
  the firmware. The static output arrays are blocks that the functions fill and return; the log line
  itself is not modelled. The firmware stops in time for every length; the driver does not.
\<close>

section \<open>The driver's dumps\<close>

function dump_loop :: "byte list \<Rightarrow> byte list \<Rightarrow> int \<Rightarrow> int \<Rightarrow> int \<Rightarrow> (int \<times> byte list) option" where
  \<comment> \<open>output array, dumped buffer, \<open>i\<close>, \<open>len\<close>, \<open>offset\<close>; the final offset and array\<close>
  "dump_loop out buf i len offset =
     (if i < len
      then do {
        b \<leftarrow> blk_get buf i;
        (ret, out) \<leftarrow> snprintf out offset (uint32 (int (length out) - offset)) (hex_byte b);
        if ret \<le> 0 then Some (offset, out)
        else dump_loop out buf (i + 1) len (offset + ret) }
      else Some (offset, out))"
  by pat_completeness auto
termination
  by (relation "measure (\<lambda>(out, buf, i, len, offset). nat (len - i))") auto

declare dump_loop.simps [simp del]

definition dump :: "byte list \<Rightarrow> byte list \<Rightarrow> int \<Rightarrow> byte list option" where
  "dump out buf len = do {
     (offset, out) \<leftarrow> dump_loop out buf 0 len 0;
     blk_write out offset [0] }"

definition recv_dump :: "byte list \<Rightarrow> byte list \<Rightarrow> int \<Rightarrow> byte list option" where
  "recv_dump recv_output buf len = do {
     (offset, recv_output) \<leftarrow> dump_loop recv_output buf 0 len 0;
     blk_write recv_output offset [0] }"

definition send_dump :: "byte list \<Rightarrow> byte list \<Rightarrow> int \<Rightarrow> byte list option" where
  "send_dump send_output buf len = do {
     (offset, send_output) \<leftarrow> dump_loop send_output buf 0 len 0;
     blk_write send_output offset [0] }"

text \<open>The dump of a socket buffer: the linear part, then every fragment.\<close>

primrec recv_dump_frags :: "byte list \<Rightarrow> byte list list \<Rightarrow> byte list option" where
  "recv_dump_frags out [] = Some out"
| "recv_dump_frags out (f # fs) = do { out \<leftarrow> recv_dump out f (int (length f)); recv_dump_frags out fs }"

definition recv_dump_skb :: "byte list \<Rightarrow> byte list \<Rightarrow> byte list list \<Rightarrow> byte list option" where
  "recv_dump_skb out linear frags = do {
     out \<leftarrow> recv_dump out linear (int (length linear));
     recv_dump_frags out frags }"

primrec send_dump_frags :: "byte list \<Rightarrow> byte list list \<Rightarrow> byte list option" where
  "send_dump_frags out [] = Some out"
| "send_dump_frags out (f # fs) = do { out \<leftarrow> send_dump out f (int (length f)); send_dump_frags out fs }"

definition send_dump_skb :: "byte list \<Rightarrow> byte list \<Rightarrow> byte list list \<Rightarrow> byte list option" where
  "send_dump_skb out linear frags = do {
     out \<leftarrow> send_dump out linear (int (length linear));
     send_dump_frags out frags }"

lemmas dumps_same = recv_dump_def [folded dump_def] send_dump_def [folded dump_def]


section \<open>The firmware's dumps\<close>

function wifi_dump_loop :: "byte list \<Rightarrow> byte list \<Rightarrow> int \<Rightarrow> int \<Rightarrow> int \<Rightarrow> (int \<times> byte list) option" where
  "wifi_dump_loop out buf i len offset =
     (if i < len
      then if offset \<ge> int (length out) - 5 then Some (offset, out)
      else do {
        b \<leftarrow> blk_get buf i;
        (ret, out) \<leftarrow> snprintf out offset (uint32 (int (length out) - offset)) (hex_byte b);
        wifi_dump_loop out buf (i + 1) len (offset + ret) }
      else Some (offset, out))"
  by pat_completeness auto
termination
  by (relation "measure (\<lambda>(out, buf, i, len, offset). nat (len - i))") auto

declare wifi_dump_loop.simps [simp del]

definition wifi_send_dump :: "byte list \<Rightarrow> byte list \<Rightarrow> int \<Rightarrow> byte list option" where
  "wifi_send_dump out buf len = do {
     (offset, out) \<leftarrow> wifi_dump_loop out buf 0 len 0;
     blk_write out offset [0] }"

definition wifi_recv_dump :: "byte list \<Rightarrow> byte list \<Rightarrow> int \<Rightarrow> byte list option" where
  "wifi_recv_dump out buf len = do {
     (offset, out) \<leftarrow> wifi_dump_loop out buf 0 len 0;
     blk_write out offset [0] }"

lemma wifi_dumps_same: "wifi_recv_dump = wifi_send_dump"
  by (simp add: wifi_recv_dump_def wifi_send_dump_def fun_eq_iff)


section \<open>The text of a dump\<close>

definition hex_text :: "byte list \<Rightarrow> byte list" where
  "hex_text bs = concat (map hex_byte bs)"

lemma hex_text_simps [simp]:
  "hex_text [] = []" "hex_text (bs @ bs') = hex_text bs @ hex_text bs'" "hex_text [b] = hex_byte b"
  by (simp_all add: hex_text_def)

lemma length_hex_text [simp]: "length (hex_text bs) = 5 * length bs"
  by (induction bs) (simp_all add: hex_text_def)

text \<open>The loop with an array that has room for every byte it is given: after \<open>i\<close> rounds the array starts
  with the text of the first \<open>i\<close> bytes.\<close>

lemma hex_step:
  assumes "take (5 * i) out = hex_text (take i buf)" "i < length buf" "5 * i + 5 < length out"
    "length out < 2147483648"
  shows "\<exists>out'. blk_get buf (int i) = Some (buf ! i) \<and>
    snprintf out (int (5 * i)) (uint32 (int (length out) - int (5 * i))) (hex_byte (buf ! i)) =
      Some (5, out') \<and>
    length out' = length out \<and> take (5 * Suc i) out' = hex_text (take (Suc i) buf)"
proof -
  let ?p = "hex_text (take i buf)"
  have p: "length ?p = 5 * i"
    using assms(2) by simp
  have "uint32 (int (length out) - int (5 * i)) = int (length out) - int (5 * i)"
    using assms by (intro uint32_id) linarith+
  then obtain out' where "snprintf out (int (5 * i)) (uint32 (int (length out) - int (5 * i))) (hex_byte (buf ! i)) =
      Some (5, out')" "length out' = length out" "take (5 * i + 5) out' = ?p @ hex_byte (buf ! i)"
    using snprintf_fits [of ?p out "int (5 * i)" "hex_byte (buf ! i)" "int (length out) - int (5 * i)"]
      assms p by auto
  then show ?thesis
    using assms(2) by (auto simp: blk_get_def take_Suc_conv_app_nth add.commute)
qed

lemma dump_loop_fits:
  assumes "take (5 * i) out = hex_text (take i buf)" "i \<le> n" "n \<le> length buf" "5 * n < length out"
    "length out < 2147483648"
  shows "\<exists>out'. dump_loop out buf (int i) (int n) (int (5 * i)) = Some (int (5 * n), out') \<and>
    length out' = length out \<and> take (5 * n) out' = hex_text (take n buf)"
  using assms
proof (induction "n - i" arbitrary: i out)
  case 0
  then show ?case by (simp add: dump_loop.simps)
next
  case (Suc k)
  then have lt: "i < n" by simp
  with Suc.prems have len: "i < length buf" "5 * i + 5 < length out" by linarith+
  obtain out' where st: "blk_get buf (int i) = Some (buf ! i)"
    "snprintf out (int (5 * i)) (uint32 (int (length out) - int (5 * i))) (hex_byte (buf ! i)) = Some (5, out')"
    "length out' = length out" "take (5 * Suc i) out' = hex_text (take (Suc i) buf)"
    using hex_step [OF Suc.prems(1) len Suc.prems(5)] by blast
  have ih: "\<exists>out''. dump_loop out' buf (int (Suc i)) (int n) (int (5 * Suc i)) = Some (int (5 * n), out'') \<and>
      length out'' = length out' \<and> take (5 * n) out'' = hex_text (take n buf)"
    using Suc.prems st lt Suc.hyps(2) by (intro Suc.hyps(1)) simp_all
  have "dump_loop out buf (int i) (int n) (int (5 * i)) =
      dump_loop out' buf (int (Suc i)) (int n) (int (5 * Suc i))"
    using lt st by (simp add: dump_loop.simps [of out] add.commute)
  with ih st(3) show ?case by auto
qed

text \<open>The offset never falls, so every longer dump ends with a write behind the end of the array.\<close>

lemma snprintf_length: "snprintf blk off n text = Some (ret, blk') \<Longrightarrow> length blk' = length blk"
  by (auto simp: snprintf_def dest: length_blk_write split: bind_splits if_splits)

lemma dump_loop_mono:
  "dump_loop out buf i len offset = Some (offset', out') \<Longrightarrow> offset \<le> offset' \<and> length out' = length out"
proof (induction out buf i len offset rule: dump_loop.induct)
  case (1 out buf i len offset)
  from "1.prems" show ?case
    by (subst (asm) dump_loop.simps)
      (auto split: bind_splits if_splits dest: snprintf_length dest!: "1.IH")
qed

lemma length_dumps:
  "dump out buf n = Some out' \<Longrightarrow> length out' = length out"
  "recv_dump out buf n = Some out' \<Longrightarrow> length out' = length out"
  "recv_dump_skb out linear [] = Some out' \<Longrightarrow> length out' = length out"
  by (auto simp: dump_def recv_dump_def recv_dump_skb_def dest!: dump_loop_mono length_blk_write split: bind_splits)

lemma dump_loop_overruns:
  assumes "dump_loop out buf i len offset = Some (offset', out')" "0 \<le> offset" "offset < int (length out)"
    "int (length out) \<le> offset + 5 * (len - i)" "length out < 2147483648"
  shows "int (length out) \<le> offset'"
  using assms
proof (induction out buf i len offset rule: dump_loop.induct)
  case (1 out buf i len offset)
  have u: "uint32 (int (length out) - offset) = int (length out) - offset"
    using "1.prems" by (intro uint32_id) linarith+
  have lt: "i < len"
    using "1.prems"(3,4) by simp
  from "1.prems"(1) obtain b out1 where b: "blk_get buf i = Some b"
    and sn: "snprintf out offset (int (length out) - offset) (hex_byte b) = Some (5, out1)"
    and rest: "dump_loop out1 buf (i + 1) len (offset + 5) = Some (offset', out')"
    using "1.prems"(2,3,5) lt
    by (auto simp: dump_loop.simps [of out buf i len offset] u snprintf_def split: bind_splits if_splits)
  have len1: "length out1 = length out"
    using sn by (rule snprintf_length)
  show ?case
  proof (cases "int (length out) \<le> offset + 5")
    case True
    with dump_loop_mono [OF rest] show ?thesis by linarith
  next
    case False
    have "int (length out1) \<le> offset'"
      using "1.IH" [OF lt b, of "(5, out1)" 5 out1] sn u rest len1 False "1.prems" by auto
    with len1 show ?thesis by simp
  qed
qed

lemma dump_fits:
  assumes "length out = 4096" "n \<le> length buf" "n \<le> 819"
  shows "\<exists>out'. dump out buf (int n) = Some out' \<and> length out' = 4096 \<and>
    take (5 * n + 1) out' = hex_text (take n buf) @ [0]"
proof -
  obtain out1 where o1: "dump_loop out buf 0 (int n) 0 = Some (int (5 * n), out1)" "length out1 = 4096"
    "take (5 * n) out1 = hex_text (take n buf)"
    using dump_loop_fits [of 0 out buf n] assms by auto
  moreover have "length (hex_text (take n buf)) = 5 * n"
    using assms(2) by simp
  ultimately obtain out' where "blk_write out1 (int (5 * n)) [0] = Some out'" "length out' = 4096"
    "take (5 * n + 1) out' = hex_text (take n buf) @ [0]"
    using blk_write_prefix [of "hex_text (take n buf)" out1 "[0]" "int (5 * n)"] assms by auto
  with o1 show ?thesis by (simp add: dump_def)
qed

lemma dump_overruns:
  assumes "length out = 4096" "820 \<le> n"
  shows "dump out buf n = None"
proof (cases "dump_loop out buf 0 n 0")
  case None
  then show ?thesis by (simp add: dump_def)
next
  case (Some r)
  then obtain offset out' where r: "dump_loop out buf 0 n 0 = Some (offset, out')"
    by (cases r) auto
  then have "4096 \<le> offset" "length out' = 4096"
    using dump_loop_overruns [OF r] dump_loop_mono [OF r] assms by auto
  with r show ?thesis by (simp add: dump_def blk_write_def)
qed


text \<open>The firmware's loop with an array of \<open>5 * m + 1\<close> bytes stops after \<open>m\<close> bytes at the latest.\<close>

lemma wifi_dump_loop_fits:
  assumes "take (5 * i) out = hex_text (take i buf)" "i \<le> min n m" "n \<le> length buf"
    "length out = 5 * m + 1" "length out < 2147483648"
  shows "\<exists>out'. wifi_dump_loop out buf (int i) (int n) (int (5 * i)) = Some (int (5 * min n m), out') \<and>
    length out' = length out \<and> take (5 * min n m) out' = hex_text (take (min n m) buf)"
  using assms
proof (induction "min n m - i" arbitrary: i out)
  case 0
  then show ?case by (auto simp: wifi_dump_loop.simps [of out])
next
  case (Suc k)
  then have lt: "i < n" "i < m" by auto
  with Suc.prems have len: "i < length buf" "5 * i + 5 < length out" by linarith+
  obtain out' where st: "blk_get buf (int i) = Some (buf ! i)"
    "snprintf out (int (5 * i)) (uint32 (int (length out) - int (5 * i))) (hex_byte (buf ! i)) = Some (5, out')"
    "length out' = length out" "take (5 * Suc i) out' = hex_text (take (Suc i) buf)"
    using hex_step [OF Suc.prems(1) len Suc.prems(5)] by blast
  have ih: "\<exists>out''. wifi_dump_loop out' buf (int (Suc i)) (int n) (int (5 * Suc i)) =
      Some (int (5 * min n m), out'') \<and>
      length out'' = length out' \<and> take (5 * min n m) out'' = hex_text (take (min n m) buf)"
    using Suc.prems st lt Suc.hyps(2) by (intro Suc.hyps(1)) simp_all
  have "wifi_dump_loop out buf (int i) (int n) (int (5 * i)) =
      wifi_dump_loop out' buf (int (Suc i)) (int n) (int (5 * Suc i))"
    using lt st len by (simp add: wifi_dump_loop.simps [of out] add.commute)
  with ih st(3) show ?case by auto
qed


section \<open>Properties\<close>

text \<open>C37: the driver's dump is memory safe exactly up to 819 bytes. Up to that length it leaves in its 4096
  byte array the text of the dumped bytes and a terminating zero; from 820 bytes on it writes its
  terminator behind the end of the array, because it adds what \<open>snprintf\<close> would have written.\<close>

theorem dump_safe_iff:
  assumes "length out = 4096" "n \<le> length buf"
  shows "case dump out buf (int n) of
     Some out' \<Rightarrow> n \<le> 819 \<and> length out' = 4096 \<and> take (5 * n + 1) out' = hex_text (take n buf) @ [0]
   | None \<Rightarrow> 820 \<le> n"
  using dump_fits [OF assms] dump_overruns [OF assms(1), of "int n" buf] by (cases "n \<le> 819") auto

theorem dump_safe_iff_witness:
  "(case dump (replicate 4096 1) (replicate 820 7) (int 820) of
     Some out' \<Rightarrow> (820 :: nat) \<le> 819 \<and> length out' = 4096 \<and>
       take (5 * 820 + 1) out' = hex_text (take 820 (replicate 820 7)) @ [0]
   | None \<Rightarrow> (820 :: nat) \<le> 820) \<and>
   (case dump (replicate 4096 1) [0x1f] (int 1) of
     Some out' \<Rightarrow> (1 :: nat) \<le> 819 \<and> length out' = 4096 \<and>
       take (5 * 1 + 1) out' = hex_text (take 1 [0x1f]) @ [0]
   | None \<Rightarrow> (820 :: nat) \<le> 1)"
  using dump_safe_iff [of "replicate 4096 1" 820 "replicate 820 7"]
    dump_safe_iff [of "replicate 4096 1" 1 "[0x1f]"] by simp

text \<open>C38: the firmware's dumps are memory safe for every length: with their array of \<open>MAX_FRAME_LEN * 5 + 1\<close>
  bytes they always end, with the text of at most the first \<open>MAX_FRAME_LEN\<close> bytes and a terminator
  inside the array.\<close>

theorem wifi_send_dump_safe:
  assumes "int (length out) = MAX_FRAME_LEN * 5 + 1" "n \<le> length buf"
  shows "\<exists>out'. wifi_send_dump out buf (int n) = Some out' \<and> length out' = length out \<and>
    take (5 * min n 1503 + 1) out' = hex_text (take (min n 1503) buf) @ [0]"
proof -
  let ?m = "min n 1503"
  have len: "length out = 5 * 1503 + 1"
    using assms(1) by (simp add: link_consts)
  then obtain out1 where o1: "wifi_dump_loop out buf 0 (int n) 0 = Some (int (5 * ?m), out1)"
    "length out1 = length out" "take (5 * ?m) out1 = hex_text (take ?m buf)"
    using wifi_dump_loop_fits [of 0 out buf n 1503] assms(2) by auto
  moreover have "length (hex_text (take ?m buf)) = 5 * ?m"
    using assms(2) by simp
  ultimately obtain out' where "blk_write out1 (int (5 * ?m)) [0] = Some out'" "length out' = length out"
    "take (5 * ?m + 1) out' = hex_text (take ?m buf) @ [0]"
    using blk_write_prefix [of "hex_text (take ?m buf)" out1 "[0]" "int (5 * ?m)"] assms len by auto
  with o1 show ?thesis by (simp add: wifi_send_dump_def)
qed

theorem wifi_send_dump_safe_witness:
  "\<exists>out'. wifi_send_dump (replicate 7516 1) (replicate 1631 9) (int 1631) = Some out' \<and>
    length out' = length (replicate 7516 (1 :: byte)) \<and>
    take (5 * min 1631 1503 + 1) out' = hex_text (take (min 1631 1503) (replicate 1631 9)) @ [0]"
  by (rule wifi_send_dump_safe) (simp_all add: link_consts)

end
