(* ===== verification/Host_State.thy ===== *)
theory Host_State
  imports Dump Line_Settings
begin

text \<open>
  The state of the Linux driver (\<open>struct uart_wifi_struct\<close> of \<open>uart_wifi_driver/common.h\<close> and the
  globals of \<open>dump.c\<close>), the kernel services it calls, and loops that are left by \<open>goto\<close>.

  The kernel is a parameter: the record \<open>kernel\<close> holds the functions the driver calls, and
  \<open>kernel_ok\<close> is the documented behaviour the driver relies on. \<open>plain_kernel\<close> is a concrete kernel
  with that behaviour.
\<close>

section \<open>Loops with \<open>goto\<close>\<close>

text \<open>One round of a loop goes back to its label or leaves the function; \<open>None\<close> is undefined
  behaviour. The loop may run forever, hence the fuel.\<close>

datatype ('s, 'r) step = Again 's | Exit 'r

datatype 'r outcome = Done 'r | Faulted | Timeout

primrec loop :: "nat \<Rightarrow> ('s \<Rightarrow> ('s, 'r) step option) \<Rightarrow> 's \<Rightarrow> 'r outcome" where
  "loop 0 f s = Timeout"
| "loop (Suc n) f s =
     (case f s of
        None \<Rightarrow> Faulted
      | Some (Again s') \<Rightarrow> loop n f s'
      | Some (Exit r) \<Rightarrow> Done r)"

text \<open>The proof rule for loops: an invariant and a measure.\<close>

lemma loop_ends:
  assumes step: "\<And>s. I s \<Longrightarrow> \<exists>x. f s = Some x \<and>
      (case x of Again s' \<Rightarrow> I s' \<and> m s' < (m s :: nat) | Exit r \<Rightarrow> Q r)"
    and "I s" "m s < n"
  shows "\<exists>r. loop n f s = Done r \<and> Q r"
  using assms(2,3)
proof (induction n arbitrary: s)
  case 0
  then show ?case by simp
next
  case (Suc n)
  obtain x where x: "f s = Some x" "case x of Again s' \<Rightarrow> I s' \<and> m s' < m s | Exit r \<Rightarrow> Q r"
    using step [OF Suc.prems(1)] by blast
  show ?case
  proof (cases x)
    case (Again s')
    with x Suc show ?thesis by (auto intro!: Suc.IH)
  next
    case (Exit r)
    with x show ?thesis by simp
  qed
qed

text \<open>Facts that every round keeps hold when the loop is left.\<close>

lemma loop_keeps:
  assumes "\<And>s x. I s \<Longrightarrow> f s = Some x \<Longrightarrow> (case x of Again s' \<Rightarrow> I s' | Exit r \<Rightarrow> Q r)"
    and "I s" "loop n f s = Done r"
  shows "Q r"
  using assms(2,3)
proof (induction n arbitrary: s)
  case 0
  then show ?case by simp
next
  case (Suc n)
  obtain x where x: "f s = Some x"
    using Suc.prems(2) by (cases "f s") auto
  with assms(1) [OF Suc.prems(1) x] Suc show ?case by (cases x) auto
qed

lemma loop_Again: "f s = Some (Again s') \<Longrightarrow> loop (Suc n) f s = loop n f s'"
  by simp

lemma loop_fuel: "loop n f s \<noteq> Timeout \<Longrightarrow> n \<le> k \<Longrightarrow> loop k f s = loop n f s"
proof (induction n arbitrary: s k)
  case 0
  then show ?case by simp
next
  case (Suc n)
  then obtain k' where k: "k = Suc k'" "n \<le> k'"
    by (cases k) auto
  show ?case
  proof (cases "f s")
    case None
    with k show ?thesis by simp
  next
    case (Some x)
    show ?thesis
    proof (cases x)
      case (Again s')
      then have "loop n f s' \<noteq> Timeout"
        using Some Suc.prems(1) by simp
      then have "loop k' f s' = loop n f s'"
        using k(2) by (rule Suc.IH)
      with k(1) Some Again show ?thesis by simp
    next
      case (Exit r)
      with k(1) Some show ?thesis by simp
    qed
  qed
qed

text \<open>A loop that can never leave a set of states never ends.\<close>

lemma loop_forever:
  assumes "\<And>s. I s \<Longrightarrow> \<exists>s'. f s = Some (Again s') \<and> I s'" "I s"
  shows "loop n f s = Timeout"
  using assms(2)
proof (induction n arbitrary: s)
  case 0
  then show ?case by simp
next
  case (Suc n)
  then show ?case using assms(1) [OF Suc.prems] by auto
qed


section \<open>Socket buffers\<close>

record sk_buff =
  skb_mem :: "byte list"
  skb_data :: int
  skb_tail :: int
  skb_len :: int
  skb_mac_header :: int
  skb_protocol :: "byte list"
  skb_ip_summed :: int

definition skb_bytes :: "sk_buff \<Rightarrow> byte list" where
  "skb_bytes skb = take (nat (skb_len skb)) (drop (nat (skb_data skb)) (skb_mem skb))"

definition eth_frame :: "sk_buff \<Rightarrow> byte list" where
  \<comment> \<open>from the MAC header to the end of the packet\<close>
  "eth_frame skb = take (nat (skb_data skb + skb_len skb - skb_mac_header skb))
     (drop (nat (skb_mac_header skb)) (skb_mem skb))"


section \<open>The kernel\<close>

text \<open>
  \<open>netdev_alloc_skb n sz\<close> is the answer to the \<open>n\<close>-th allocation, \<open>len_after_rx\<close> what is read from the
  length field of a buffer after \<open>netif_rx_ni\<close> has taken it, and \<open>tty_sent\<close> the bytes a tty has
  accepted so far. \<open>'t\<close> is the state of a tty.
\<close>

record 't kernel =
  SKB_DATA_ALIGN :: "int \<Rightarrow> int"
  netdev_alloc_skb :: "nat \<Rightarrow> int \<Rightarrow> sk_buff option"
  skb_reset_mac_header :: "sk_buff \<Rightarrow> sk_buff"
  skb_reserve :: "sk_buff \<Rightarrow> int \<Rightarrow> sk_buff"
  skb_put_data :: "sk_buff \<Rightarrow> byte list \<Rightarrow> sk_buff option"
  skb_reset_tail_pointer :: "sk_buff \<Rightarrow> sk_buff"
  len_after_rx :: "sk_buff \<Rightarrow> int"
  tty_write :: "'t \<Rightarrow> byte list \<Rightarrow> 't"
  tty_write_room :: "'t \<Rightarrow> int"
  tty_flush_buffer :: "'t \<Rightarrow> 't"
  tty_sent :: "'t \<Rightarrow> byte list"
  skb_pull_inline :: "byte list \<Rightarrow> int \<Rightarrow> byte list"

definition skb_kernel_ok :: "'t kernel \<Rightarrow> bool" where
  "skb_kernel_ok K \<longleftrightarrow>
     (\<forall>n. n \<le> SKB_DATA_ALIGN K n) \<and>
     (\<forall>n sz skb. netdev_alloc_skb K n sz = Some skb \<longrightarrow>
        0 \<le> skb_data skb \<and> skb_data skb + sz \<le> int (length (skb_mem skb)) \<and>
        skb_tail skb = skb_data skb \<and> skb_len skb = 0) \<and>
     (\<forall>skb. skb_reset_mac_header K skb = skb\<lparr>skb_mac_header := skb_data skb\<rparr>) \<and>
     (\<forall>skb n. skb_len skb = 0 \<longrightarrow>
        skb_reserve K skb n = skb\<lparr>skb_data := skb_data skb + n, skb_tail := skb_tail skb + n\<rparr>) \<and>
     (\<forall>skb bs mem. blk_write (skb_mem skb) (skb_tail skb) bs = Some mem \<longrightarrow>
        skb_put_data K skb bs = Some (skb\<lparr>skb_mem := mem, skb_tail := skb_tail skb + int (length bs),
                                         skb_len := skb_len skb + int (length bs)\<rparr>)) \<and>
     (\<forall>skb. skb_reset_tail_pointer K skb = skb\<lparr>skb_tail := skb_data skb\<rparr>)"

definition tx_kernel_ok :: "'t kernel \<Rightarrow> bool" where
  \<comment> \<open>removing a header from the linear part of a packet\<close>
  "tx_kernel_ok K \<longleftrightarrow>
     (\<forall>linear n. 0 \<le> n \<and> n \<le> int (length linear) \<longrightarrow> skb_pull_inline K linear n = drop (nat n) linear)"

definition tty_ok :: "'t kernel \<Rightarrow> bool" where
  \<comment> \<open>a write of at most \<open>write_room\<close> bytes is accepted whole\<close>
  "tty_ok K \<longleftrightarrow>
     (\<forall>t bs. int (length bs) \<le> tty_write_room K t \<longrightarrow>
        tty_sent K (tty_write K t bs) = tty_sent K t @ bs \<and>
        tty_write_room K (tty_write K t bs) = tty_write_room K t - int (length bs))"

text \<open>A concrete kernel: buffers with 64 bytes of headroom, 32 byte alignment, allocations that always
  succeed, and a tty that is a pair of the free space and the bytes it has taken.\<close>

definition plain_skb :: "int \<Rightarrow> sk_buff" where
  "plain_skb sz = \<lparr>skb_mem = replicate (nat (64 + sz)) 0, skb_data = 64, skb_tail = 64, skb_len = 0,
     skb_mac_header = 0, skb_protocol = [0, 0], skb_ip_summed = 0\<rparr>"

definition plain_write :: "int \<times> byte list \<Rightarrow> byte list \<Rightarrow> int \<times> byte list" where
  "plain_write t bs = (let n = min (max 0 (fst t)) (int (length bs)) in
     (fst t - n, snd t @ take (nat n) bs))"

definition plain_kernel :: "(int \<times> byte list) kernel" where
  "plain_kernel = \<lparr>
     SKB_DATA_ALIGN = (\<lambda>n. (n + 31) div 32 * 32),
     netdev_alloc_skb = (\<lambda>n sz. Some (plain_skb sz)),
     skb_reset_mac_header = (\<lambda>skb. skb\<lparr>skb_mac_header := skb_data skb\<rparr>),
     skb_reserve = (\<lambda>skb n. skb\<lparr>skb_data := skb_data skb + n, skb_tail := skb_tail skb + n\<rparr>),
     skb_put_data = (\<lambda>skb bs. map_option (\<lambda>mem. skb\<lparr>skb_mem := mem,
        skb_tail := skb_tail skb + int (length bs), skb_len := skb_len skb + int (length bs)\<rparr>)
        (blk_write (skb_mem skb) (skb_tail skb) bs)),
     skb_reset_tail_pointer = (\<lambda>skb. skb\<lparr>skb_tail := skb_data skb\<rparr>),
     len_after_rx = skb_len,
     tty_write = plain_write,
     tty_write_room = (\<lambda>t. max 0 (fst t)),
     tty_flush_buffer = (\<lambda>t. (4095, snd t)),
     tty_sent = snd,
     skb_pull_inline = (\<lambda>linear n. drop (nat n) linear)\<rparr>"

lemma plain_kernel_ok: "skb_kernel_ok plain_kernel" "tty_ok plain_kernel" "tx_kernel_ok plain_kernel"
proof -
  have "n \<le> (n + 31) div 32 * 32" for n :: int
    by presburger
  then show "skb_kernel_ok plain_kernel"
    by (auto simp: skb_kernel_ok_def plain_kernel_def plain_skb_def)
  show "tx_kernel_ok plain_kernel"
    by (simp add: tx_kernel_ok_def plain_kernel_def)
  show "tty_ok plain_kernel"
    by (auto simp: tty_ok_def plain_kernel_def plain_write_def Let_def min_def)
qed


section \<open>The driver\<close>

record uart_wifi_struct =
  tty_name :: "byte list"
  ssid :: "byte list"
  password :: "byte list"
  uart_recv_status :: status
  uartDataLen :: int
  recv_skb :: "sk_buff option"
  tx_packets :: int
  tx_bytes :: int
  rx_packets :: int
  rx_bytes :: int
  work_hold :: bool
  netif_info :: "byte list"
  netif_info_recv_len :: int
  netif_info_vaild :: bool
  force_reset :: bool

text \<open>The globals of \<open>dump.c\<close>, the tty, the state of the net device and what has been handed to the
  kernel.\<close>

record 't host = uart_wifi_struct +
  recv_output :: "byte list"
  dump_output :: "byte list"
  tty :: 't
  TTY_DO_WRITE_WAKEUP :: bool
  carrier_ok :: bool
  queue_stopped :: bool
  skb_allocs :: nat
  netif_rx :: "sk_buff list"
  gpio_reset :: bool
  irq_requested :: bool
  work_pending :: bool
  tty_opened :: bool
  tty_termios :: "ktermios option"
  ldisc_attached :: bool

text \<open>What the line discipline leaves alone: the settings of the user, the sizes of the blocks, and the state of
  the network device.\<close>

definition kept :: "'t host \<Rightarrow> byte list \<times> byte list \<times> byte list \<times> nat \<times> nat \<times> nat" where
  "kept s = (tty_name s, ssid s, password s, length (netif_info s), length (recv_output s), length (dump_output s))"

definition ld_kept :: "'t host \<Rightarrow>
    (byte list \<times> byte list \<times> byte list \<times> nat \<times> nat \<times> nat) \<times> bool \<times> bool \<times> bool" where
  "ld_kept s = (kept s, carrier_ok s, queue_stopped s, TTY_DO_WRITE_WAKEUP s)"

definition host_init :: "'t \<Rightarrow> 't host" where
  \<comment> \<open>zero-initialised by \<open>devm_kzalloc\<close>; a new network device has its carrier on and its queue running\<close>
  "host_init t = \<lparr>tty_name = replicate 10 0, ssid = replicate 35 0, password = replicate 67 0,
     uart_recv_status = STATUS_LEN, uartDataLen = 0, recv_skb = None,
     tx_packets = 0, tx_bytes = 0, rx_packets = 0, rx_bytes = 0, work_hold = False,
     netif_info = replicate 64 0, netif_info_recv_len = 0, netif_info_vaild = False, force_reset = False,
     recv_output = replicate 4096 0, dump_output = replicate 4096 0, tty = t,
     TTY_DO_WRITE_WAKEUP = False, carrier_ok = True, queue_stopped = False, skb_allocs = 0,
     netif_rx = [], gpio_reset = False, irq_requested = False, work_pending = False, tty_opened = False,
     tty_termios = None, ldisc_attached = False\<rparr>"

end
