(* ===== verification/Host_Uart.thy ===== *)
theory Host_Uart
  imports Host_State
begin

text \<open>
  The line discipline of the driver, packet side: \<open>alloc_new_skb_to_recv\<close>, \<open>ttyio_receive_data\<close> and
  \<open>ttyio_write_wakeup\<close> of \<open>uart_wifi_driver/uart.c\<close>. The bytes of a chunk are collected in a socket
  buffer until it holds a frame, which is handed to the network stack without a copy.

  The loop of \<open>ttyio_receive_data\<close> is a step function from its \<open>restart\<close> label to the next \<open>goto\<close>; the
  local variables are a record. The error paths write the dumps, which have a bounded buffer.
\<close>

section \<open>Operations\<close>

definition ETH_HLEN :: int where "ETH_HLEN = 14"

definition ETH_P_IP :: int where "ETH_P_IP = 0x0800"

definition htons :: "int \<Rightarrow> byte list" where
  \<comment> \<open>the bytes of a 16-bit value in network order\<close>
  "htons x = [word_of_int (x div 256), word_of_int x]"

definition MAX_RECV_LEN :: "'t kernel \<Rightarrow> int" where
  "MAX_RECV_LEN K = SKB_DATA_ALIGN K ETH_HLEN + MTU_LEN + 1"

definition alloc_new_skb_to_recv :: "'t kernel \<Rightarrow> 't host \<Rightarrow> (int \<times> 't host) option" where
  "alloc_new_skb_to_recv K s =
     (case netdev_alloc_skb K (skb_allocs s) (MAX_RECV_LEN K) of
        None \<Rightarrow> Some (-1, s\<lparr>recv_skb := None, skb_allocs := Suc (skb_allocs s)\<rparr>)
      | Some skb \<Rightarrow> do {
          let skb = (skb_reset_mac_header K skb)\<lparr>skb_ip_summed := 0, skb_protocol := htons ETH_P_IP\<rparr>;
          mem \<leftarrow> blk_write (skb_mem skb) (skb_data skb) (replicate (nat (ETH_HLEN - 2)) 0);
          let skb = skb_reserve K (skb\<lparr>skb_mem := mem\<rparr>) (ETH_HLEN - 2);
          Some (0, s\<lparr>recv_skb := Some skb, skb_allocs := Suc (skb_allocs s),
                     uart_recv_status := STATUS_LEN\<rparr>) })"

record rx_locals =
  l_status :: status
  l_uartDataLen :: int
  processed :: int
  surplus :: int

definition rx_exit :: "'t host \<times> rx_locals \<Rightarrow> int \<times> 't host" where
  \<comment> \<open>the label \<open>exit\<close>\<close>
  "rx_exit = (\<lambda>(s, v). (processed v, s\<lparr>uart_recv_status := l_status v, uartDataLen := l_uartDataLen v\<rparr>))"

definition rx_copy :: "'t kernel \<Rightarrow> byte list \<Rightarrow> int \<Rightarrow> sk_buff \<Rightarrow> 't host \<times> rx_locals \<Rightarrow>
    ('t host \<times> rx_locals, int \<times> 't host) step option" where
  \<comment> \<open>take up to \<open>want\<close> bytes of the chunk, or leave when it is used up\<close>
  "rx_copy K cp want skb = (\<lambda>(s, v).
     if surplus v = 0 then Some (Exit (rx_exit (s, v)))
     else do {
       let actualcopy = min (surplus v) want;
       bs \<leftarrow> blk_read cp (processed v) actualcopy;
       skb \<leftarrow> skb_put_data K skb bs;
       Some (Again (s\<lparr>recv_skb := Some skb\<rparr>,
         v\<lparr>surplus := int32 (surplus v - actualcopy), processed := int32 (processed v + actualcopy)\<rparr>)) })"

definition rx_deliver :: "sk_buff \<Rightarrow> 't host \<Rightarrow> 't kernel \<Rightarrow> 't host option" where
  \<comment> \<open>turn the length field into the type field of the MAC header, strip the split byte, hand over\<close>
  "rx_deliver skb s K = do {
     mem \<leftarrow> blk_write (skb_mem skb) (skb_data skb) (htons ETH_P_IP);
     let skb = skb\<lparr>skb_mem := mem, skb_data := skb_data skb + 2, skb_tail := skb_tail skb - 1,
                    skb_len := uint32 (skb_len skb - 3)\<rparr>;
     Some (s\<lparr>netif_rx := netif_rx s @ [skb], rx_packets := rx_packets s + 1,
             rx_bytes := rx_bytes s + len_after_rx K skb\<rparr>) }"

definition rx_resync :: "'t kernel \<Rightarrow> byte list \<Rightarrow> sk_buff \<Rightarrow> 't host \<times> rx_locals \<Rightarrow>
    ('t host \<times> rx_locals, int \<times> 't host) step option" where
  \<comment> \<open>\<open>case STATUS_SPLIT\<close>\<close>
  "rx_resync K cp skb = (\<lambda>(s, v). do {
     r \<leftarrow> scan (drop (nat (skb_data skb)) (skb_mem skb)) SPLIT_DATA 0 (skb_len skb);
     case r of
       Some skip \<Rightarrow> do {
         linear \<leftarrow> blk_read (skb_mem skb) (skb_data skb) (skb_len skb);
         out \<leftarrow> recv_dump_skb (recv_output s) linear [];
         let skb = skb\<lparr>skb_tail := skb_tail skb - skip, skb_len := uint32 (skb_len skb - skip)\<rparr>;
         mem \<leftarrow> blk_move (skb_mem skb) (skb_data skb) (skb_data skb + skip) (skb_len skb);
         linear \<leftarrow> blk_read mem (skb_data skb) (skb_len skb);
         out \<leftarrow> recv_dump_skb out linear [];
         Some (Again (s\<lparr>recv_skb := Some (skb\<lparr>skb_mem := mem\<rparr>), recv_output := out\<rparr>,
           v\<lparr>l_status := STATUS_LEN\<rparr>)) }
     | None \<Rightarrow> do {
         let s = s\<lparr>recv_skb := Some ((skb_reset_tail_pointer K skb)\<lparr>skb_len := 0\<rparr>)\<rparr>;
         r \<leftarrow> scan cp SPLIT_DATA (processed v) (int (length cp));
         case r of
           Some skip \<Rightarrow> do {
             out \<leftarrow> dump (dump_output s) cp (int (length cp));
             Some (Again (s\<lparr>dump_output := out\<rparr>,
               v\<lparr>surplus := int32 (surplus v - skip), processed := int32 (processed v + skip),
                 l_status := STATUS_LEN\<rparr>)) }
         | None \<Rightarrow> Some (Exit (rx_exit (s, v\<lparr>processed := int (length cp)\<rparr>))) } })"

definition rx_frame :: "'t kernel \<Rightarrow> byte list \<Rightarrow> sk_buff \<Rightarrow> 't host \<times> rx_locals \<Rightarrow>
    ('t host \<times> rx_locals, int \<times> 't host) step option" where
  \<comment> \<open>\<open>case STATUS_DATA\<close>\<close>
  "rx_frame K cp skb = (\<lambda>(s, v).
     if skb_len skb < uint32 (l_uartDataLen v + 3)
     then rx_copy K cp (int32 (l_uartDataLen v + 3 - skb_len skb)) skb (s, v)
     else do {
       e \<leftarrow> blk_get (skb_mem skb) (skb_data skb + l_uartDataLen v + 2);
       if e = SPLIT_DATA
       then do {
         s \<leftarrow> rx_deliver skb s K;
         (ret, s) \<leftarrow> alloc_new_skb_to_recv K s;
         if ret \<noteq> 0 then Some (Exit (rx_exit (s, v)))
         else Some (Again (s, v\<lparr>l_status := STATUS_LEN\<rparr>)) }
       else rx_resync K cp skb (s, v\<lparr>l_status := STATUS_SPLIT\<rparr>) })"

definition rx_step :: "'t kernel \<Rightarrow> byte list \<Rightarrow> 't host \<times> rx_locals \<Rightarrow>
    ('t host \<times> rx_locals, int \<times> 't host) step option" where
  "rx_step K cp = (\<lambda>(s, v). do {
     skb \<leftarrow> recv_skb s;
     case l_status v of
       STATUS_LEN \<Rightarrow>
         if skb_len skb < 2 then rx_copy K cp (int32 (2 - skb_len skb)) skb (s, v)
         else do {
           lo \<leftarrow> blk_get (skb_mem skb) (skb_data skb);
           hi \<leftarrow> blk_get (skb_mem skb) (skb_data skb + 1);
           let dl = load_i16 lo hi;
           if dl > MTU_LEN \<or> dl < 20
           then Some (Again (s, v\<lparr>l_uartDataLen := dl, l_status := STATUS_SPLIT\<rparr>))
           else rx_frame K cp skb (s, v\<lparr>l_uartDataLen := dl, l_status := STATUS_DATA\<rparr>) }
     | STATUS_DATA \<Rightarrow> rx_frame K cp skb (s, v)
     | STATUS_SPLIT \<Rightarrow> rx_resync K cp skb (s, v) })"

definition ttyio_receive_data :: "'t kernel \<Rightarrow> nat \<Rightarrow> byte list \<Rightarrow> 't host \<Rightarrow> (int \<times> 't host) outcome" where
  "ttyio_receive_data K fuel cp s =
     (let v = \<lparr>l_status = uart_recv_status s, l_uartDataLen = uartDataLen s, processed = 0,
               surplus = int (length cp)\<rparr> in
      if recv_skb s = None
      then case alloc_new_skb_to_recv K s of
             None \<Rightarrow> Faulted
           | Some (ret, s) \<Rightarrow>
               if ret \<noteq> 0 then Done (rx_exit (s, v))
               else loop fuel (rx_step K cp) (s, v\<lparr>l_status := STATUS_LEN\<rparr>)
      else loop fuel (rx_step K cp) (s, v))"

definition ttyio_write_wakeup :: "'t host \<Rightarrow> 't host" where
  "ttyio_write_wakeup s =
     (let s = s\<lparr>TTY_DO_WRITE_WAKEUP := False\<rparr> in
      if carrier_ok s then s\<lparr>queue_stopped := False\<rparr> else s)"


section \<open>The receive buffer\<close>

text \<open>A receive buffer has room for a maximal frame behind 12 zero bytes, the addresses of the MAC header.\<close>

definition skb_ok :: "sk_buff \<Rightarrow> bool" where
  "skb_ok skb \<longleftrightarrow> 0 \<le> skb_mac_header skb \<and> skb_data skb = skb_mac_header skb + 12 \<and>
     skb_tail skb = skb_data skb + skb_len skb \<and> 0 \<le> skb_len skb \<and> skb_len skb \<le> MAX_FRAME_LEN \<and>
     skb_data skb + MAX_FRAME_LEN \<le> int (length (skb_mem skb)) \<and>
     take 12 (drop (nat (skb_mac_header skb)) (skb_mem skb)) = replicate 12 0"

definition mac_header :: "byte list" where
  "mac_header = replicate 12 0 @ [0x08, 0x00]"

lemma length_skb_bytes: "skb_ok skb \<Longrightarrow> int (length (skb_bytes skb)) = skb_len skb"
  by (auto simp: skb_ok_def skb_bytes_def MAX_FRAME_LEN_def MTU_LEN_def)

lemma kernel_laws:
  assumes "skb_kernel_ok K"
  shows "n \<le> SKB_DATA_ALIGN K n"
    and "netdev_alloc_skb K i sz = Some skb \<Longrightarrow> 0 \<le> skb_data skb \<and>
      skb_data skb + sz \<le> int (length (skb_mem skb)) \<and> skb_tail skb = skb_data skb \<and> skb_len skb = 0"
    and "skb_reset_mac_header K skb = skb\<lparr>skb_mac_header := skb_data skb\<rparr>"
    and "skb_len skb = 0 \<Longrightarrow>
      skb_reserve K skb k = skb\<lparr>skb_data := skb_data skb + k, skb_tail := skb_tail skb + k\<rparr>"
    and "blk_write (skb_mem skb) (skb_tail skb) bs = Some mem \<Longrightarrow>
      skb_put_data K skb bs = Some (skb\<lparr>skb_mem := mem, skb_tail := skb_tail skb + int (length bs),
                                       skb_len := skb_len skb + int (length bs)\<rparr>)"
    and "skb_reset_tail_pointer K skb = skb\<lparr>skb_tail := skb_data skb\<rparr>"
  using assms unfolding skb_kernel_ok_def by auto

lemma alloc_new_skb_to_recv_cases:
  assumes K: "skb_kernel_ok K"
  shows "(alloc_new_skb_to_recv K s = Some (-1, s\<lparr>recv_skb := None, skb_allocs := Suc (skb_allocs s)\<rparr>) \<and>
      netdev_alloc_skb K (skb_allocs s) (MAX_RECV_LEN K) = None) \<or>
    (\<exists>skb. alloc_new_skb_to_recv K s = Some (0, s\<lparr>recv_skb := Some skb, skb_allocs := Suc (skb_allocs s),
        uart_recv_status := STATUS_LEN\<rparr>) \<and> skb_ok skb \<and> skb_len skb = 0 \<and>
      netdev_alloc_skb K (skb_allocs s) (MAX_RECV_LEN K) \<noteq> None)"
proof (cases "netdev_alloc_skb K (skb_allocs s) (MAX_RECV_LEN K)")
  case None
  then show ?thesis by (simp add: alloc_new_skb_to_recv_def)
next
  case (Some skb)
  let ?d = "skb_data skb"
  have skb: "0 \<le> ?d" "?d + MAX_RECV_LEN K \<le> int (length (skb_mem skb))" "skb_tail skb = ?d" "skb_len skb = 0"
    using kernel_laws(2) [OF K Some] by auto
  moreover have "ETH_HLEN \<le> SKB_DATA_ALIGN K ETH_HLEN"
    using K by (rule kernel_laws)
  ultimately have room: "?d + 1515 \<le> int (length (skb_mem skb))"
    by (simp add: MAX_RECV_LEN_def ETH_HLEN_def MTU_LEN_def)
  define mem where "mem = take (nat ?d) (skb_mem skb) @ replicate 12 0 @ drop (nat ?d + 12) (skb_mem skb)"
  have mem: "blk_write (skb_mem skb) ?d (replicate 12 0) = Some mem"
    using skb room by (simp add: blk_write_def mem_def)
  have len: "length mem = length (skb_mem skb)"
    using mem by (rule length_blk_write)
  have zero: "take 12 (drop (nat ?d) mem) = replicate 12 0"
    using skb room by (simp add: mem_def)
  define skb' where "skb' = skb\<lparr>skb_mac_header := ?d, skb_ip_summed := 0, skb_protocol := htons ETH_P_IP,
    skb_mem := mem, skb_data := ?d + 12, skb_tail := ?d + 12\<rparr>"
  have "alloc_new_skb_to_recv K s = Some (0, s\<lparr>recv_skb := Some skb', skb_allocs := Suc (skb_allocs s),
      uart_recv_status := STATUS_LEN\<rparr>)"
    using Some skb mem by (simp add: alloc_new_skb_to_recv_def kernel_laws [OF K] ETH_HLEN_def skb'_def)
  moreover have "skb_ok skb' \<and> skb_len skb' = 0"
    using skb room len zero by (simp add: skb'_def skb_ok_def link_consts)
  ultimately show ?thesis
    using Some by auto
qed

lemma skb_put_data_appends:
  assumes K: "skb_kernel_ok K" and skb: "skb_ok skb" and "skb_len skb + int (length bs) \<le> MAX_FRAME_LEN"
  shows "\<exists>skb'. skb_put_data K skb bs = Some skb' \<and> skb_ok skb' \<and>
    skb_len skb' = skb_len skb + int (length bs) \<and> skb_bytes skb' = skb_bytes skb @ bs"
proof -
  let ?d = "skb_data skb" let ?n = "skb_len skb"
  have b: "12 \<le> ?d" "0 \<le> ?n" "skb_tail skb = ?d + ?n" "?d + ?n + int (length bs) \<le> int (length (skb_mem skb))"
    using skb assms(3) by (auto simp: skb_ok_def)
  define mem where "mem = take (nat (?d + ?n)) (skb_mem skb) @ bs @ drop (nat (?d + ?n) + length bs) (skb_mem skb)"
  have mem: "blk_write (skb_mem skb) (skb_tail skb) bs = Some mem"
    using b by (simp add: blk_write_def mem_def)
  have len: "length mem = length (skb_mem skb)"
    using mem by (rule length_blk_write)
  have "nat (?n + int (length bs)) = nat ?n + length bs" "nat (?d + ?n) = nat ?d + nat ?n"
    using b by linarith+
  moreover have "nat ?d + nat ?n + length bs \<le> length (skb_mem skb)"
    using b by linarith
  moreover from this have "min (length (skb_mem skb) - nat ?d) (nat ?n) = nat ?n"
    by linarith
  ultimately have bytes: "take (nat (?n + int (length bs))) (drop (nat ?d) mem) = skb_bytes skb @ bs"
    by (simp add: mem_def skb_bytes_def drop_take)
  have "take 12 (drop (nat (skb_mac_header skb)) mem) = take 12 (drop (nat (skb_mac_header skb)) (skb_mem skb))"
  proof -
    have "nat (skb_mac_header skb) + 12 \<le> nat (?d + ?n)" "nat (?d + ?n) \<le> length (skb_mem skb)"
      using b skb by (auto simp: skb_ok_def)
    then show ?thesis
      by (simp add: mem_def drop_take)
  qed
  then show ?thesis
    using kernel_laws(5) [OF K mem] skb assms(3) len bytes by (simp add: skb_ok_def skb_bytes_def)
qed

lemma rx_copy_takes:
  assumes K: "skb_kernel_ok K" and skb: "skb_ok skb"
    and v: "0 \<le> processed v" "0 < surplus v" "processed v + surplus v = int (length cp)"
    and cp: "length cp < 2147483648" and want: "0 < want" "skb_len skb + want \<le> MAX_FRAME_LEN"
  shows "\<exists>skb' a. rx_copy K cp want skb (s, v) = Some (Again (s\<lparr>recv_skb := Some skb'\<rparr>,
      v\<lparr>surplus := surplus v - a, processed := processed v + a\<rparr>)) \<and>
    0 < a \<and> a \<le> surplus v \<and> a \<le> want \<and> skb_ok skb' \<and> skb_len skb' = skb_len skb + a \<and>
    skb_bytes skb' @ drop (nat (processed v + a)) cp = skb_bytes skb @ drop (nat (processed v)) cp \<and>
    a = min (surplus v) want"
proof -
  let ?a = "min (surplus v) want"
  let ?bs = "take (nat ?a) (drop (nat (processed v)) cp)"
  have a: "0 < ?a" "?a \<le> surplus v" "?a \<le> want"
    using v want by auto
  have bs: "blk_read cp (processed v) ?a = Some ?bs"
    using a v by (simp add: blk_read_def)
  then have len: "int (length ?bs) = ?a"
    by (rule length_blk_read)
  obtain skb' where skb': "skb_put_data K skb ?bs = Some skb'" "skb_ok skb'"
    "skb_len skb' = skb_len skb + ?a" "skb_bytes skb' = skb_bytes skb @ ?bs"
    using skb_put_data_appends [OF K skb, of ?bs] a(3) want(2) unfolding len by force
  have "int32 (surplus v - ?a) = surplus v - ?a" "int32 (processed v + ?a) = processed v + ?a"
    using v a cp by (auto intro!: int32_id)
  moreover have "?bs @ drop (nat (processed v + ?a)) cp = drop (nat (processed v)) cp"
  proof -
    have "nat (processed v + ?a) = nat ?a + nat (processed v)"
      using v a by linarith
    then show ?thesis
      by (metis append_take_drop_id drop_drop)
  qed
  ultimately show ?thesis
    using skb' bs a v(2) by (intro exI [of _ skb'] exI [of _ ?a]) (simp add: rx_copy_def Let_def)
qed

lemma skb_get:
  assumes "skb_ok skb" "0 \<le> k" "k < skb_len skb"
  shows "blk_get (skb_mem skb) (skb_data skb + k) = Some (skb_bytes skb ! nat k)"
proof -
  have "0 \<le> skb_data skb" "skb_data skb + k < int (length (skb_mem skb))"
    using assms by (auto simp: skb_ok_def)
  moreover from this have "nat (skb_data skb + k) = nat (skb_data skb) + nat k"
    using assms(2) by linarith
  moreover have "nat k < nat (skb_len skb)"
    using assms by linarith
  ultimately show ?thesis
    using assms(2) by (simp add: blk_get_def skb_bytes_def)
qed

text \<open>What the network stack is given: the packet, with a MAC header of type IP in front of it.\<close>

lemma rx_deliver_packet:
  assumes skb: "skb_ok skb" and "3 \<le> skb_len skb"
  shows "\<exists>skb'. rx_deliver skb s K = Some (s\<lparr>netif_rx := netif_rx s @ [skb'], rx_packets := rx_packets s + 1,
      rx_bytes := rx_bytes s + len_after_rx K skb'\<rparr>) \<and>
    skb_bytes skb' = take (nat (skb_len skb) - 3) (drop 2 (skb_bytes skb)) \<and>
    eth_frame skb' = mac_header @ skb_bytes skb'"
proof -
  let ?d = "skb_data skb" let ?n = "skb_len skb" let ?m = "nat (skb_mac_header skb)"
  have b: "0 \<le> skb_mac_header skb" "?d = skb_mac_header skb + 12" "?d + ?n \<le> int (length (skb_mem skb))"
    "?n \<le> 1503" "take 12 (drop ?m (skb_mem skb)) = replicate 12 0"
    using skb by (auto simp: skb_ok_def link_consts)
  have d: "nat ?d = ?m + 12" "nat (?d + 2) = ?m + 14"
    using b by linarith+
  define mem where "mem = take (nat ?d) (skb_mem skb) @ htons ETH_P_IP @ drop (nat ?d + 2) (skb_mem skb)"
  have hl: "length (htons ETH_P_IP) = 2" "htons ETH_P_IP = [0x08, 0x00]"
    by (simp_all add: htons_def ETH_P_IP_def)
  have mem: "blk_write (skb_mem skb) ?d (htons ETH_P_IP) = Some mem"
    using b assms(2) hl by (simp add: blk_write_def mem_def)
  have len: "?m + 14 \<le> length (skb_mem skb)"
    using b assms(2) by linarith
  have split: "drop ?m mem = mac_header @ drop (?m + 14) (skb_mem skb)"
  proof -
    have "drop ?m (take (nat ?d) (skb_mem skb)) = replicate 12 0"
      using b(5) d by (simp add: drop_take)
    then show ?thesis
      using len d by (simp add: mem_def hl mac_header_def add.commute)
  qed
  have "drop (?m + 14) mem = drop 14 (drop ?m mem)"
    by (simp add: add.commute)
  then have pay: "drop (nat (?d + 2)) mem = drop (nat (?d + 2)) (skb_mem skb)"
    using split d by (simp add: mac_header_def)
  have u: "uint32 (?n - 3) = ?n - 3"
    using b assms(2) by (intro uint32_id) auto
  define skb' where "skb' = skb\<lparr>skb_mem := mem, skb_data := ?d + 2, skb_tail := skb_tail skb - 1,
    skb_len := ?n - 3\<rparr>"
  have "skb_bytes skb' = take (nat (?n - 3)) (drop (nat (?d + 2)) (skb_mem skb))"
    using pay by (simp add: skb'_def skb_bytes_def)
  moreover have "take (nat (?n - 3)) (drop (nat (?d + 2)) (skb_mem skb)) =
      take (nat ?n - 3) (drop 2 (skb_bytes skb))"
    using assms(2) d by (simp add: skb_bytes_def drop_take nat_diff_distrib min_def add.commute)
  moreover have "eth_frame skb' = mac_header @ skb_bytes skb'"
  proof -
    have "nat (?d + 2 + (?n - 3) - skb_mac_header skb) = 14 + nat (?n - 3)"
      using b assms(2) by linarith
    then show ?thesis
      using split pay d by (simp add: skb'_def eth_frame_def skb_bytes_def mac_header_def)
  qed
  moreover have "rx_deliver skb s K = Some (s\<lparr>netif_rx := netif_rx s @ [skb'], rx_packets := rx_packets s + 1,
      rx_bytes := rx_bytes s + len_after_rx K skb'\<rparr>)"
    using mem u by (simp add: rx_deliver_def skb'_def Let_def)
  ultimately show ?thesis by auto
qed


section \<open>Streams without a framing error\<close>

lemma clean_header:
  assumes "clean data_fmt (b @ w)" "2 \<le> length b"
  shows "20 \<le> hdr b \<and> hdr b \<le> MTU_LEN"
proof -
  have "\<not> bad_at data_fmt (b @ w)"
    using assms(1) bad_not_full [of data_fmt "b @ w"] by (auto simp: clean.simps [of data_fmt "b @ w"])
  then have "\<not> bad_at data_fmt b"
    using bad_at_append by blast
  then show ?thesis
    using assms(2) by (auto simp: bad_at_def data_fmt_def)
qed

lemma clean_frame:
  assumes cl: "clean data_fmt (b @ w)" and "2 \<le> length b" "int (length b) = hdr b + 3"
  shows "last b = SPLIT_DATA" "clean data_fmt w"
    "payloads data_fmt Sync (b @ w) = take (length b - 3) (drop 2 b) # payloads data_fmt Sync w"
proof -
  have n: "nat (hdr b + 3) = length b" "nat (hdr b) = length b - 3"
    using assms(3) by linarith+
  have "\<not> bad_at data_fmt (b @ w)"
    using cl bad_not_full [of data_fmt "b @ w"] by (auto simp: clean.simps [of data_fmt "b @ w"])
  then have nb: "\<not> bad_at data_fmt b"
    using bad_at_append by blast
  then have full: "full_at data_fmt b"
    using assms clean_header [OF cl assms(2)] by (auto simp: bad_at_def full_at_def)
  then show "last b = SPLIT_DATA"
    using n by (auto simp: full_at_def data_fmt_def)
  have d: "drop (nat (hdr (b @ w) + 3)) (b @ w) = w"
    "take (nat (hdr (b @ w))) (drop 2 (b @ w)) = take (length b - 3) (drop 2 b)"
    using full_at_drop [OF full, of w] n by auto
  show "clean data_fmt w"
    using cl full_at_append [OF full, of w] d by (simp add: clean.simps [of data_fmt "b @ w"])
  show "payloads data_fmt Sync (b @ w) = take (length b - 3) (drop 2 b) # payloads data_fmt Sync w"
    using full_at_append [OF full, of w] d
    by (simp add: payloads.simps [of data_fmt Sync "b @ w"] next_frame_Sync [of data_fmt "b @ w"])
qed

lemma payloads_short:
  assumes "length b < 2 \<or> 20 \<le> hdr b \<and> hdr b \<le> MTU_LEN \<and> int (length b) < hdr b + 3"
  shows "payloads data_fmt Sync b = []"
proof -
  have "\<not> full_at data_fmt b" "\<not> bad_at data_fmt b"
    using assms by (auto simp: full_at_def bad_at_def data_fmt_def)
  then show ?thesis
    by (simp add: payloads.simps [of data_fmt Sync b] next_frame_Sync [of data_fmt b])
qed

lemma payloads_Hunt:
  "payloads data_fmt Hunt s =
     (case after_split SPLIT_DATA s of None \<Rightarrow> [] | Some t \<Rightarrow> payloads data_fmt Sync t)"
proof -
  have sep: "sep data_fmt = SPLIT_DATA"
    by (simp add: data_fmt_def)
  show ?thesis
  proof (cases "after_split SPLIT_DATA s")
    case None
    then show ?thesis by (simp add: payloads.simps [of data_fmt Hunt s] next_frame_Hunt sep)
  next
    case (Some t)
    then show ?thesis
      by (simp add: payloads.simps [of data_fmt Hunt s] payloads.simps [of data_fmt Sync t]
          next_frame_Hunt [of data_fmt s] sep)
  qed
qed


section \<open>The loop\<close>

text \<open>The bytes held in the receive buffer, and the abstract mode of the receiver.\<close>

definition held :: "'t host \<Rightarrow> byte list" where
  "held s = (case recv_skb s of None \<Rightarrow> [] | Some skb \<Rightarrow> skb_bytes skb)"

definition mode_at :: "status \<Rightarrow> mode" where
  "mode_at st = (if st = STATUS_SPLIT then Hunt else Sync)"

definition host_mode :: "'t host \<Rightarrow> mode" where
  "host_mode s = (if recv_skb s = None then Sync else mode_at (uart_recv_status s))"

definition frame_ok :: "status \<Rightarrow> int \<Rightarrow> sk_buff \<Rightarrow> bool" where
  "frame_ok st dl skb \<longleftrightarrow>
     (case st of
        STATUS_LEN \<Rightarrow> skb_len skb \<le> 2
      | STATUS_DATA \<Rightarrow> 2 \<le> skb_len skb \<and> dl = hdr (skb_bytes skb) \<and> 20 \<le> dl \<and> dl \<le> MTU_LEN \<and>
          skb_len skb \<le> dl + 3
      | STATUS_SPLIT \<Rightarrow> skb_len skb = 0)"

definition host_rx_inv :: "'t host \<Rightarrow> bool" where
  "host_rx_inv s \<longleftrightarrow> length (dump_output s) = 4096 \<and> (\<forall>skb. recv_skb s = Some skb \<longrightarrow>
     skb_ok skb \<and> frame_ok (uart_recv_status s) (uartDataLen s) skb)"

text \<open>The streams the receiver is proved correct for: without a framing error, or, when it is hunting with
  an empty buffer, without one behind the next separator.\<close>

definition readable :: "mode \<Rightarrow> byte list \<Rightarrow> byte list \<Rightarrow> bool" where
  "readable m c w \<longleftrightarrow>
     (case m of
        Sync \<Rightarrow> clean data_fmt (c @ w)
      | Hunt \<Rightarrow> c = [] \<and> (\<forall>t. after_split SPLIT_DATA w = Some t \<longrightarrow> clean data_fmt t))"

definition delivered :: "'t kernel \<Rightarrow> 't host \<Rightarrow> 't host \<Rightarrow> sk_buff list \<Rightarrow> bool" where
  "delivered K s s' new \<longleftrightarrow> netif_rx s' = netif_rx s @ new \<and>
     (\<forall>skb\<in>set new. eth_frame skb = mac_header @ skb_bytes skb) \<and>
     rx_packets s' = rx_packets s + int (length new) \<and>
     rx_bytes s' = rx_bytes s + (\<Sum>skb\<leftarrow>new. len_after_rx K skb) \<and>
     tty s' = tty s \<and> netif_info s' = netif_info s \<and> netif_info_vaild s' = netif_info_vaild s"

lemma delivered_cong:
  "delivered K s0 s new \<Longrightarrow> delivered K s0 (s\<lparr>recv_skb := x\<rparr>) new"
  "delivered K s0 s new \<Longrightarrow> delivered K s0 (s\<lparr>skb_allocs := n\<rparr>) new"
  "delivered K s0 s new \<Longrightarrow> delivered K s0 (s\<lparr>uart_recv_status := st\<rparr>) new"
  "delivered K s0 s new \<Longrightarrow> delivered K s0 (s\<lparr>uartDataLen := dl\<rparr>) new"
  "delivered K s0 s new \<Longrightarrow> delivered K s0 (s\<lparr>dump_output := out\<rparr>) new"
  by (simp_all add: delivered_def)

lemma delivered_snoc:
  "delivered K s0 s new \<Longrightarrow> eth_frame skb = mac_header @ skb_bytes skb \<Longrightarrow>
    delivered K s0 (s\<lparr>netif_rx := netif_rx s @ [skb], rx_packets := rx_packets s + 1,
      rx_bytes := rx_bytes s + len_after_rx K skb\<rparr>) (new @ [skb])"
  by (simp add: delivered_def)

text \<open>The invariant of the loop: the packets of the whole stream (what was held, the chunk \<open>cp\<close> and the
  \<open>rest\<close> behind it) are those delivered so far and those still to come.\<close>

definition rx_loop_inv :: "'t kernel \<Rightarrow> byte list \<Rightarrow> byte list \<Rightarrow> byte list list \<Rightarrow> 't host \<Rightarrow>
    't host \<times> rx_locals \<Rightarrow> bool" where
  "rx_loop_inv K cp rest ds s0 = (\<lambda>(s, v).
     \<exists>skb new. recv_skb s = Some skb \<and> skb_ok skb \<and> frame_ok (l_status v) (l_uartDataLen v) skb \<and>
       length (dump_output s) = 4096 \<and>
       0 \<le> processed v \<and> 0 \<le> surplus v \<and> processed v + surplus v = int (length cp) \<and>
       (l_status v = STATUS_SPLIT \<longrightarrow> processed v = 0 \<and> length cp \<le> 819 \<and> host_mode s0 = Hunt) \<and>
       readable (mode_at (l_status v)) (skb_bytes skb) (drop (nat (processed v)) cp @ rest) \<and>
       delivered K s0 s new \<and>
       ds = map skb_bytes new @
         payloads data_fmt (mode_at (l_status v)) (skb_bytes skb @ drop (nat (processed v)) cp @ rest))"

definition rx_done :: "'t kernel \<Rightarrow> byte list \<Rightarrow> byte list \<Rightarrow> byte list list \<Rightarrow> 't host \<Rightarrow>
    int \<times> 't host \<Rightarrow> bool" where
  "rx_done K cp rest ds s0 = (\<lambda>(p, s).
     \<exists>new. host_rx_inv s \<and> 0 \<le> p \<and> p \<le> int (length cp) \<and>
       (if recv_skb s = None then \<exists>n. netdev_alloc_skb K n (MAX_RECV_LEN K) = None
        else p = int (length cp) \<and> payloads data_fmt (host_mode s) (held s) = []) \<and>
       (host_mode s0 = Sync \<longrightarrow> host_mode s = Sync) \<and>
       readable (host_mode s) (held s) (drop (nat p) cp @ rest) \<and> delivered K s0 s new \<and>
       ds = map skb_bytes new @ payloads data_fmt (host_mode s) (held s @ drop (nat p) cp @ rest))"

definition rx_measure :: "'t host \<times> rx_locals \<Rightarrow> nat" where
  "rx_measure = (\<lambda>(s, v). 3 * nat (surplus v) + 2 * length (held s) +
     (if l_status v = STATUS_SPLIT then 0 else 1))"

definition rx_round :: "'t kernel \<Rightarrow> byte list \<Rightarrow> byte list \<Rightarrow> byte list list \<Rightarrow> 't host \<Rightarrow>
    't host \<times> rx_locals \<Rightarrow> ('t host \<times> rx_locals, int \<times> 't host) step option \<Rightarrow> bool" where
  "rx_round K cp rest ds s0 x r \<longleftrightarrow>
     (\<exists>y. r = Some y \<and>
       (case y of
          Again x' \<Rightarrow> rx_loop_inv K cp rest ds s0 x' \<and> rx_measure x' < rx_measure x
        | Exit e \<Rightarrow> rx_done K cp rest ds s0 e))"

lemma rx_copy_round:
  assumes K: "skb_kernel_ok K" and inv: "rx_loop_inv K cp rest ds s0 (s, v)" and skb: "recv_skb s = Some skb"
    and st: "l_status v \<noteq> STATUS_SPLIT" and cp: "length cp < 2147483648"
    and want: "0 < want" "skb_len skb + want \<le> MAX_FRAME_LEN"
    and short: "payloads data_fmt Sync (skb_bytes skb) = []"
    and ok: "\<And>skb' x y. skb_ok skb' \<Longrightarrow> skb_len skb < skb_len skb' \<Longrightarrow> skb_len skb' \<le> skb_len skb + want \<Longrightarrow>
      skb_bytes skb' @ x = skb_bytes skb @ y \<Longrightarrow> frame_ok (l_status v) (l_uartDataLen v) skb'"
  shows "rx_round K cp rest ds s0 (s, v) (rx_copy K cp want skb (s, v))"
proof -
  obtain new where i: "skb_ok skb" "frame_ok (l_status v) (l_uartDataLen v) skb" "length (dump_output s) = 4096"
    "0 \<le> processed v" "0 \<le> surplus v" "processed v + surplus v = int (length cp)"
    "readable Sync (skb_bytes skb) (drop (nat (processed v)) cp @ rest)" "delivered K s0 s new"
    "ds = map skb_bytes new @ payloads data_fmt Sync (skb_bytes skb @ drop (nat (processed v)) cp @ rest)"
    using inv skb st by (auto simp: rx_loop_inv_def mode_at_def)
  show ?thesis
  proof (cases "surplus v = 0")
    case True
    with i skb st short show ?thesis
      by (auto simp: rx_round_def rx_copy_def rx_exit_def rx_done_def host_rx_inv_def host_mode_def mode_at_def
          held_def intro!: exI [of _ new] delivered_cong)
  next
    case False
    obtain skb' a where c: "rx_copy K cp want skb (s, v) = Some (Again (s\<lparr>recv_skb := Some skb'\<rparr>,
        v\<lparr>surplus := surplus v - a, processed := processed v + a\<rparr>))"
      and a: "0 < a" "a \<le> surplus v" "a \<le> want" "skb_ok skb'" "skb_len skb' = skb_len skb + a"
      and by': "skb_bytes skb' @ drop (nat (processed v + a)) cp = skb_bytes skb @ drop (nat (processed v)) cp"
      using rx_copy_takes [OF K i(1,4) _ i(6) cp want, of s] False i(5) by auto
    have eq: "skb_bytes skb' @ drop (nat (processed v + a)) cp @ rest =
        skb_bytes skb @ drop (nat (processed v)) cp @ rest"
      using by' by (metis append.assoc)
    have "frame_ok (l_status v) (l_uartDataLen v) skb'"
      using ok [OF a(4) _ _ by'] a by simp
    moreover have "int (length (skb_bytes skb')) = int (length (skb_bytes skb)) + a"
      using length_skb_bytes [OF a(4)] length_skb_bytes [OF i(1)] a(5) by simp
    moreover have "readable Sync (skb_bytes skb') (drop (nat (processed v + a)) cp @ rest)"
      "ds = map skb_bytes new @ payloads data_fmt Sync (skb_bytes skb' @ drop (nat (processed v + a)) cp @ rest)"
      using i(7,9) unfolding eq readable_def by simp_all
    ultimately show ?thesis
      using i(1-6,8) a st skb c
      by (auto simp: rx_round_def rx_loop_inv_def rx_measure_def mode_at_def held_def
          intro!: exI [of _ new] delivered_cong)
  qed
qed

lemma rx_data_inv:
  assumes "rx_loop_inv K cp rest ds s0 (s, v)" "recv_skb s = Some skb" "l_status v = STATUS_DATA"
  obtains new where "skb_ok skb" "2 \<le> skb_len skb" "l_uartDataLen v = hdr (skb_bytes skb)" "20 \<le> l_uartDataLen v"
    "l_uartDataLen v \<le> MTU_LEN" "skb_len skb \<le> l_uartDataLen v + 3" "length (dump_output s) = 4096"
    "0 \<le> processed v" "0 \<le> surplus v" "processed v + surplus v = int (length cp)"
    "clean data_fmt (skb_bytes skb @ drop (nat (processed v)) cp @ rest)" "delivered K s0 s new"
    "ds = map skb_bytes new @ payloads data_fmt Sync (skb_bytes skb @ drop (nat (processed v)) cp @ rest)"
    "int (length (skb_bytes skb)) = skb_len skb" "uint32 (l_uartDataLen v + 3) = l_uartDataLen v + 3"
    "int32 (l_uartDataLen v + 3 - skb_len skb) = l_uartDataLen v + 3 - skb_len skb"
proof -
  obtain new where i: "skb_ok skb" "2 \<le> skb_len skb" "l_uartDataLen v = hdr (skb_bytes skb)" "20 \<le> l_uartDataLen v"
    "l_uartDataLen v \<le> MTU_LEN" "skb_len skb \<le> l_uartDataLen v + 3" "length (dump_output s) = 4096"
    "0 \<le> processed v" "0 \<le> surplus v" "processed v + surplus v = int (length cp)"
    "clean data_fmt (skb_bytes skb @ drop (nat (processed v)) cp @ rest)" "delivered K s0 s new"
    "ds = map skb_bytes new @ payloads data_fmt Sync (skb_bytes skb @ drop (nat (processed v)) cp @ rest)"
    using assms by (auto simp: rx_loop_inv_def mode_at_def frame_ok_def readable_def)
  have "uint32 (l_uartDataLen v + 3) = l_uartDataLen v + 3"
    "int32 (l_uartDataLen v + 3 - skb_len skb) = l_uartDataLen v + 3 - skb_len skb"
    using i by (auto simp: MTU_LEN_def intro!: uint32_id int32_id)
  then show thesis
    using that [OF i length_skb_bytes [OF i(1)]] by blast
qed

text \<open>The frame is not complete: more of the chunk is taken.\<close>

lemma rx_frame_copies:
  assumes K: "skb_kernel_ok K" and inv: "rx_loop_inv K cp rest ds s0 (s, v)" and skb: "recv_skb s = Some skb"
    and st: "l_status v = STATUS_DATA" and cp: "length cp < 2147483648" and short: "skb_len skb < l_uartDataLen v + 3"
  shows "rx_round K cp rest ds s0 (s, v) (rx_frame K cp skb (s, v))"
proof -
  let ?dl = "l_uartDataLen v" let ?b = "skb_bytes skb"
  obtain new where i: "skb_ok skb" "2 \<le> skb_len skb" "?dl = hdr ?b" "20 \<le> ?dl" "?dl \<le> MTU_LEN"
    and len: "int (length ?b) = skb_len skb" and u: "uint32 (?dl + 3) = ?dl + 3" "int32 (?dl + 3 - skb_len skb) = ?dl + 3 - skb_len skb"
    by (rule rx_data_inv [OF inv skb st])
  have "payloads data_fmt Sync ?b = []"
    using short len i(2-5) by (intro payloads_short) auto
  then have "rx_round K cp rest ds s0 (s, v) (rx_copy K cp (?dl + 3 - skb_len skb) skb (s, v))"
  proof (rule rx_copy_round [OF K inv skb _ cp, rotated 3])
    fix skb' x y
    assume a: "skb_ok skb'" "skb_len skb < skb_len skb'" "skb_len skb' \<le> skb_len skb + (?dl + 3 - skb_len skb)"
      "skb_bytes skb' @ x = ?b @ y"
    have "hdr (skb_bytes skb') = hdr ?b"
      using a(4) len length_skb_bytes [OF a(1)] a(2) i(2)
        hdr_append [of "skb_bytes skb'" x] hdr_append [of ?b y] by simp
    with a i st show "frame_ok (l_status v) ?dl skb'" by (simp add: frame_ok_def)
  qed (use short st i in \<open>simp_all add: link_consts\<close>)
  with short u show ?thesis by (simp add: rx_frame_def)
qed

text \<open>After a delivery a new buffer is allocated, or the call ends without one.\<close>

lemma rx_next_buffer:
  assumes K: "skb_kernel_ok K" and skb: "recv_skb s = Some skb" "skb_bytes skb \<noteq> []" and st: "l_status v = STATUS_DATA"
    and r: "r = do { (ret, s) \<leftarrow> alloc_new_skb_to_recv K s';
        if ret \<noteq> 0 then Some (Exit (rx_exit (s, v))) else Some (Again (s, v\<lparr>l_status := STATUS_LEN\<rparr>)) }"
    and s': "length (dump_output s') = 4096" "delivered K s0 s' new"
    and v: "0 \<le> processed v" "0 \<le> surplus v" "processed v + surplus v = int (length cp)"
    and w: "clean data_fmt (drop (nat (processed v)) cp @ rest)"
      "ds = map skb_bytes new @ payloads data_fmt Sync (drop (nat (processed v)) cp @ rest)"
  shows "rx_round K cp rest ds s0 (s, v) r"
  using alloc_new_skb_to_recv_cases [OF K, of s']
proof (elim disjE exE conjE)
  assume "alloc_new_skb_to_recv K s' = Some (-1, s'\<lparr>recv_skb := None, skb_allocs := Suc (skb_allocs s')\<rparr>)"
    "netdev_alloc_skb K (skb_allocs s') (MAX_RECV_LEN K) = None"
  then show ?thesis
    using r s' v w
    by (auto simp: rx_round_def rx_exit_def rx_done_def host_rx_inv_def host_mode_def held_def readable_def
        intro!: exI [of _ new] delivered_cong)
next
  fix skb2
  assume "alloc_new_skb_to_recv K s' = Some (0, s'\<lparr>recv_skb := Some skb2,
      skb_allocs := Suc (skb_allocs s'), uart_recv_status := STATUS_LEN\<rparr>)" "skb_ok skb2" "skb_len skb2 = 0"
  moreover from this(3) have "skb_bytes skb2 = []"
    by (simp add: skb_bytes_def)
  ultimately show ?thesis
    using r s' v w skb st
    by (auto simp: rx_round_def rx_loop_inv_def rx_measure_def frame_ok_def mode_at_def held_def readable_def
        intro!: exI [of _ new] delivered_cong)
qed

text \<open>The frame is complete: it is handed over.\<close>

lemma rx_frame_delivers:
  assumes K: "skb_kernel_ok K" and inv: "rx_loop_inv K cp rest ds s0 (s, v)" and skb: "recv_skb s = Some skb"
    and st: "l_status v = STATUS_DATA" and full: "\<not> skb_len skb < l_uartDataLen v + 3"
  shows "rx_round K cp rest ds s0 (s, v) (rx_frame K cp skb (s, v))"
proof -
  let ?dl = "l_uartDataLen v" let ?b = "skb_bytes skb" let ?w = "drop (nat (processed v)) cp @ rest"
  obtain new where i: "skb_ok skb" "?dl = hdr ?b" "20 \<le> ?dl" "skb_len skb \<le> ?dl + 3"
    and o: "length (dump_output s) = 4096" "0 \<le> processed v" "0 \<le> surplus v" "processed v + surplus v = int (length cp)"
    and cl: "clean data_fmt (?b @ ?w)" "delivered K s0 s new" "ds = map skb_bytes new @ payloads data_fmt Sync (?b @ ?w)"
    and len: "int (length ?b) = skb_len skb" and u: "uint32 (?dl + 3) = ?dl + 3"
    by (rule rx_data_inv [OF inv skb st])
  have fl: "skb_len skb = ?dl + 3" "int (length ?b) = hdr ?b + 3" "2 \<le> length ?b" "nat (skb_len skb) = length ?b"
    using i len full by auto
  note fr = clean_frame [OF cl(1) fl(3,2)]
  have "nat (?dl + 2) = length ?b - 1" "last ?b = ?b ! (length ?b - 1)"
    using fl i(2) by (linarith, intro last_conv_nth) auto
  then have get: "blk_get (skb_mem skb) (skb_data skb + ?dl + 2) = Some SPLIT_DATA"
    using skb_get [OF i(1), of "?dl + 2"] fl(1,3) i(3) fr(1) by (simp add: add.assoc)
  obtain skb' where dv: "rx_deliver skb s K = Some (s\<lparr>netif_rx := netif_rx s @ [skb'],
      rx_packets := rx_packets s + 1, rx_bytes := rx_bytes s + len_after_rx K skb'\<rparr>)"
    "skb_bytes skb' = take (nat (skb_len skb) - 3) (drop 2 ?b)" "eth_frame skb' = mac_header @ skb_bytes skb'"
    using rx_deliver_packet [OF i(1), of s K] fl(1) i(3) by auto
  show ?thesis
  proof (rule rx_next_buffer [OF K skb _ st _ _ delivered_snoc [OF cl(2) dv(3)] o(2-4) fr(2)])
    show "rx_frame K cp skb (s, v) = do {
        (ret, s) \<leftarrow> alloc_new_skb_to_recv K (s\<lparr>netif_rx := netif_rx s @ [skb'], rx_packets := rx_packets s + 1,
          rx_bytes := rx_bytes s + len_after_rx K skb'\<rparr>);
        if ret \<noteq> 0 then Some (Exit (rx_exit (s, v))) else Some (Again (s, v\<lparr>l_status := STATUS_LEN\<rparr>)) }"
      using full u get dv(1) by (simp add: rx_frame_def)
  qed (use fl o(1) cl(3) fr(3) dv(2) in auto)
qed

lemma rx_frame_round:
  assumes "skb_kernel_ok K" "rx_loop_inv K cp rest ds s0 (s, v)" "recv_skb s = Some skb" "l_status v = STATUS_DATA"
    "length cp < 2147483648"
  shows "rx_round K cp rest ds s0 (s, v) (rx_frame K cp skb (s, v))"
  using rx_frame_copies [OF assms] rx_frame_delivers [OF assms(1-4)] by blast

text \<open>Hunting at the start of a chunk with an empty buffer: the next separator is found where it is.\<close>

lemma rx_resync_round:
  assumes K: "skb_kernel_ok K" and inv: "rx_loop_inv K cp rest ds s0 (s, v)" and skb: "recv_skb s = Some skb"
    and st: "l_status v = STATUS_SPLIT"
  shows "rx_round K cp rest ds s0 (s, v) (rx_resync K cp skb (s, v))"
proof -
  obtain new where i: "skb_ok skb" "skb_len skb = 0" "length (dump_output s) = 4096"
    "processed v = 0" "surplus v = int (length cp)" "length cp \<le> 819"
    "\<forall>t. after_split SPLIT_DATA (cp @ rest) = Some t \<longrightarrow> clean data_fmt t" "delivered K s0 s new"
    "ds = map skb_bytes new @ payloads data_fmt Hunt (cp @ rest)"
    using inv skb st by (auto simp: rx_loop_inv_def mode_at_def frame_ok_def readable_def skb_bytes_def)
  let ?skb = "skb\<lparr>skb_tail := skb_data skb, skb_len := 0\<rparr>"
  have skb0: "skb_ok ?skb" "skb_bytes ?skb = []" "held s = []"
    using i(1,2) skb by (simp_all add: skb_ok_def skb_bytes_def held_def)
  have sc: "scan (drop (nat (skb_data skb)) (skb_mem skb)) SPLIT_DATA 0 (skb_len skb) = Some None"
    using i(2) by (simp add: scan.simps)
  have scp: "scan cp SPLIT_DATA 0 (int (length cp)) =
      Some (map_option (\<lambda>t. int (length cp) - int (length t)) (after_split SPLIT_DATA cp))"
    using scan_window [of 0 "int (length cp)" cp SPLIT_DATA] by simp
  show ?thesis
  proof (cases "after_split SPLIT_DATA cp")
    case None
    then have "payloads data_fmt Hunt (cp @ rest) = payloads data_fmt Hunt rest"
      "after_split SPLIT_DATA (cp @ rest) = after_split SPLIT_DATA rest"
      by (simp_all add: payloads_Hunt after_split_append)
    moreover have "payloads data_fmt Hunt [] = []" "host_mode s0 = Hunt"
      using inv st by (auto simp: payloads_Hunt rx_loop_inv_def)
    ultimately show ?thesis
      using None i st sc scp skb0
      by (auto simp: rx_round_def rx_resync_def Let_def kernel_laws [OF K] rx_exit_def rx_done_def host_rx_inv_def
          host_mode_def mode_at_def held_def frame_ok_def readable_def intro!: exI [of _ new] delivered_cong)
  next
    case (Some t)
    let ?k = "int (length cp) - int (length t)"
    obtain p where p: "cp = p @ SPLIT_DATA # t"
      using after_split_SomeD [OF Some] by blast
    then have nk: "nat ?k = length p + 1" "0 < ?k"
      by auto
    have "drop (length p + 1) cp = t"
      using p by simp
    with nk have k: "0 < ?k" "drop (nat ?k) cp = t"
      by simp_all
    have ap: "after_split SPLIT_DATA (cp @ rest) = Some (t @ rest)"
      using Some by (simp add: after_split_append)
    have "int32 (int (length cp) - ?k) = int (length cp) - ?k" "int32 (0 + ?k) = ?k"
      using i(6) k by (auto intro!: int32_id)
    moreover obtain out where "dump (dump_output s) cp (int (length cp)) = Some out" "length out = 4096"
      using dump_fits [OF i(3) order_refl i(6)] by blast
    ultimately have "rx_resync K cp skb (s, v) = Some (Again (s\<lparr>recv_skb := Some ?skb, dump_output := out\<rparr>,
        v\<lparr>surplus := int (length t), processed := ?k, l_status := STATUS_LEN\<rparr>))"
      using Some i(4,5) sc scp by (simp add: rx_resync_def Let_def kernel_laws [OF K])
    moreover have "rx_loop_inv K cp rest ds s0 (s\<lparr>recv_skb := Some ?skb, dump_output := out\<rparr>,
        v\<lparr>surplus := int (length t), processed := ?k, l_status := STATUS_LEN\<rparr>)"
      using i(7-9) k ap skb0 \<open>length out = 4096\<close>
      by (auto simp: rx_loop_inv_def mode_at_def frame_ok_def readable_def payloads_Hunt
          intro!: exI [of _ new] delivered_cong)
    ultimately show ?thesis
      using i(5) k skb0 st p by (simp add: rx_round_def rx_measure_def held_def)
  qed
qed

lemma rx_step_round:
  assumes K: "skb_kernel_ok K" and inv: "rx_loop_inv K cp rest ds s0 (s, v)" and cp: "length cp < 2147483648"
  shows "rx_round K cp rest ds s0 (s, v) (rx_step K cp (s, v))"
proof -
  obtain skb where skb: "recv_skb s = Some skb" "skb_ok skb"
    using inv by (auto simp: rx_loop_inv_def)
  show ?thesis
  proof (cases "l_status v")
    case STATUS_DATA
    with rx_frame_round [OF K inv skb(1) _ cp] skb(1) show ?thesis by (simp add: rx_step_def)
  next
    case STATUS_SPLIT
    with rx_resync_round [OF K inv skb(1)] skb(1) show ?thesis by (simp add: rx_step_def)
  next
    case STATUS_LEN
    let ?b = "skb_bytes skb"
    have len: "int (length ?b) = skb_len skb" "0 \<le> skb_len skb"
      using skb(2) by (auto simp: length_skb_bytes skb_ok_def)
    show ?thesis
    proof (cases "skb_len skb < 2")
      case True
      have "payloads data_fmt Sync ?b = []"
        using True len by (intro payloads_short) simp
      then have "rx_round K cp rest ds s0 (s, v) (rx_copy K cp (2 - skb_len skb) skb (s, v))"
        by (rule rx_copy_round [OF K inv skb(1) _ cp, rotated 3])
          (use True STATUS_LEN len in \<open>simp_all add: link_consts frame_ok_def\<close>)
      moreover have "int32 (2 - skb_len skb) = 2 - skb_len skb"
        using True len by (intro int32_id) simp_all
      ultimately show ?thesis
        using STATUS_LEN True skb(1) by (simp add: rx_step_def)
    next
      case False
      let ?v = "v\<lparr>l_uartDataLen := hdr ?b, l_status := STATUS_DATA\<rparr>"
      have two: "2 \<le> length ?b" "skb_len skb = 2"
        using False len inv STATUS_LEN skb(1) by (auto simp: rx_loop_inv_def frame_ok_def)
      have cl: "clean data_fmt (?b @ drop (nat (processed v)) cp @ rest)"
        using inv STATUS_LEN skb(1) by (auto simp: rx_loop_inv_def mode_at_def readable_def)
      have h: "20 \<le> hdr ?b" "hdr ?b \<le> MTU_LEN"
        using clean_header [OF cl two(1)] by auto
      have "rx_loop_inv K cp rest ds s0 (s, ?v)"
        using inv STATUS_LEN skb(1) h two by (auto simp: rx_loop_inv_def mode_at_def frame_ok_def)
      from rx_frame_round [OF K this skb(1) _ cp]
      have "rx_round K cp rest ds s0 (s, ?v) (rx_frame K cp skb (s, ?v))" by simp
      moreover have "rx_measure (s, ?v) = rx_measure (s, v)"
        using STATUS_LEN by (simp add: rx_measure_def)
      moreover have "rx_step K cp (s, v) = rx_frame K cp skb (s, ?v)"
        using STATUS_LEN False skb(1) h two skb_get [OF skb(2), of 0] skb_get [OF skb(2), of 1]
        by (simp add: rx_step_def hdr_def Let_def)
      ultimately show ?thesis
        by (auto simp: rx_round_def split: step.splits)
    qed
  qed
qed

lemma rx_loop_done:
  assumes K: "skb_kernel_ok K" and inv: "rx_loop_inv K cp rest ds s0 (s, v)" and cp: "length cp < 2147483648"
    and fuel: "3 * length cp + 3008 \<le> fuel"
  shows "\<exists>r. loop fuel (rx_step K cp) (s, v) = Done r \<and> rx_done K cp rest ds s0 r"
proof (rule loop_ends [where I = "rx_loop_inv K cp rest ds s0" and m = rx_measure])
  fix x :: "'a host \<times> rx_locals"
  assume "rx_loop_inv K cp rest ds s0 x"
  then show "\<exists>y. rx_step K cp x = Some y \<and>
      (case y of Again x' \<Rightarrow> rx_loop_inv K cp rest ds s0 x' \<and> rx_measure x' < rx_measure x
       | Exit r \<Rightarrow> rx_done K cp rest ds s0 r)"
    using rx_step_round [OF K _ cp, of rest ds s0 "fst x" "snd x"] by (simp add: rx_round_def)
next
  obtain skb where skb: "recv_skb s = Some skb" "skb_ok skb" "0 \<le> processed v"
    "processed v + surplus v = int (length cp)"
    using inv by (auto simp: rx_loop_inv_def)
  then have "length (held s) \<le> 1503"
    using length_skb_bytes [OF skb(2)] by (simp add: held_def skb_ok_def link_consts)
  moreover have "nat (surplus v) \<le> length cp"
    using skb by linarith
  ultimately show "rx_measure (s, v) < fuel"
    using fuel by (simp add: rx_measure_def)
qed (rule inv)

lemma ttyio_receive_data_call:
  assumes K: "skb_kernel_ok K" and inv: "host_rx_inv s"
    and rd: "readable (host_mode s) (held s) (cp @ rest)"
    and cp: "length cp < 2147483648" "host_mode s = Hunt \<longrightarrow> length cp \<le> 819"
    and fuel: "3 * length cp + 3008 \<le> fuel"
  shows "\<exists>r. ttyio_receive_data K fuel cp s = Done r \<and>
    rx_done K cp rest (payloads data_fmt (host_mode s) (held s @ cp @ rest)) s r"
proof -
  let ?ds = "payloads data_fmt (host_mode s) (held s @ cp @ rest)"
  let ?v = "\<lparr>l_status = uart_recv_status s, l_uartDataLen = uartDataLen s, processed = 0, surplus = int (length cp)\<rparr>"
  have d0: "delivered K s s []"
    by (simp add: delivered_def)
  show ?thesis
  proof (cases "recv_skb s")
    case None
    then have m: "host_mode s = Sync" "held s = []"
      by (simp_all add: host_mode_def held_def)
    from alloc_new_skb_to_recv_cases [OF K, of s] show ?thesis
    proof (elim disjE exE conjE)
      assume "alloc_new_skb_to_recv K s = Some (-1, s\<lparr>recv_skb := None, skb_allocs := Suc (skb_allocs s)\<rparr>)"
        "netdev_alloc_skb K (skb_allocs s) (MAX_RECV_LEN K) = None"
      with None m rd inv d0 show ?thesis
        by (auto simp: ttyio_receive_data_def Let_def rx_exit_def rx_done_def host_rx_inv_def host_mode_def held_def
            intro!: exI [of _ "[]"] delivered_cong)
    next
      fix skb
      let ?s = "s\<lparr>recv_skb := Some skb, skb_allocs := Suc (skb_allocs s), uart_recv_status := STATUS_LEN\<rparr>"
      assume a: "alloc_new_skb_to_recv K s = Some (0, ?s)" "skb_ok skb" "skb_len skb = 0"
      have "skb_bytes skb = []"
        using a(3) by (simp add: skb_bytes_def)
      then have "rx_loop_inv K cp rest ?ds s (?s, ?v\<lparr>l_status := STATUS_LEN\<rparr>)"
        using a m rd inv d0 by (auto simp: rx_loop_inv_def frame_ok_def mode_at_def host_rx_inv_def
            intro!: exI [of _ "[]"] delivered_cong)
      from rx_loop_done [OF K this cp(1) fuel] a(1) None show ?thesis
        by (simp add: ttyio_receive_data_def Let_def)
    qed
  next
    case (Some skb)
    then have m: "host_mode s = mode_at (uart_recv_status s)" "held s = skb_bytes skb"
      by (simp_all add: host_mode_def held_def)
    have "rx_loop_inv K cp rest ?ds s (s, ?v)"
      using Some m rd inv d0 cp by (auto simp: rx_loop_inv_def mode_at_def host_rx_inv_def
          intro!: exI [of _ skb] exI [of _ "[]"])
    from rx_loop_done [OF K this cp(1) fuel] Some show ?thesis
      by (simp add: ttyio_receive_data_def Let_def)
  qed
qed


section \<open>Any number of calls\<close>

text \<open>The packet side never touches the handshake flag, nor what the line discipline leaves alone.\<close>

definition untouched :: "'t host \<Rightarrow> bool \<times>
    (byte list \<times> byte list \<times> byte list \<times> nat \<times> nat \<times> nat) \<times> bool \<times> bool \<times> bool" where
  "untouched s = (netif_info_vaild s, ld_kept s)"

definition step_stable :: "'t host \<Rightarrow> ('t host \<times> rx_locals, int \<times> 't host) step \<Rightarrow> bool" where
  "step_stable s y \<longleftrightarrow> (case y of Again x \<Rightarrow> untouched (fst x) = untouched s | Exit r \<Rightarrow> untouched (snd r) = untouched s)"

lemmas untouched_defs = untouched_def ld_kept_def kept_def

lemma alloc_stable: "alloc_new_skb_to_recv K s = Some (r, s') \<Longrightarrow> untouched s' = untouched s"
  by (auto simp: alloc_new_skb_to_recv_def Let_def untouched_defs split: option.splits bind_splits)

lemma rx_copy_stable: "rx_copy K cp n skb (s, v) = Some y \<Longrightarrow> step_stable s y"
  by (auto simp: rx_copy_def rx_exit_def Let_def step_stable_def untouched_defs split: bind_splits if_splits)

lemma rx_resync_stable: "rx_resync K cp skb (s, v) = Some y \<Longrightarrow> step_stable s y"
  by (auto simp: rx_resync_def rx_exit_def Let_def step_stable_def untouched_defs split: option.splits bind_splits
      dest!: length_dumps)

lemma rx_deliver_stable: "rx_deliver skb s K = Some s' \<Longrightarrow> untouched s' = untouched s"
  by (auto simp: rx_deliver_def Let_def untouched_defs split: bind_splits)

lemma rx_exit_stable [simp]: "untouched (snd (rx_exit (s, v))) = untouched s"
  by (simp add: rx_exit_def untouched_defs)

lemma rx_exit_pair: "rx_exit (s, v) = (p, s') \<Longrightarrow> untouched s' = untouched s"
  by (metis rx_exit_stable snd_conv)

lemma rx_frame_stable: "rx_frame K cp skb (s, v) = Some y \<Longrightarrow> step_stable s y"
  by (auto simp: rx_frame_def step_stable_def [of _ "Again _"] step_stable_def [of _ "Exit _"]
      split: bind_splits if_splits dest!: alloc_stable rx_deliver_stable dest: rx_copy_stable rx_resync_stable)

lemma rx_step_stable: "rx_step K cp (s, v) = Some y \<Longrightarrow> step_stable s y"
  by (auto simp: rx_step_def Let_def step_stable_def [of _ "Again _"] split: bind_splits if_splits status.splits
      dest: rx_copy_stable rx_resync_stable rx_frame_stable)

lemma ttyio_receive_data_stable:
  assumes "ttyio_receive_data K fuel cp s = Done (p, s')"
  shows "untouched s' = untouched s"
proof -
  have "untouched (snd r) = untouched s" if "untouched s1 = untouched s" "loop fuel (rx_step K cp) (s1, v) = Done r" for s1 v r
  proof (rule loop_keeps [where I = "\<lambda>x. untouched (fst x) = untouched s" and Q = "\<lambda>r. untouched (snd r) = untouched s",
        OF _ _ that(2)])
    fix x y
    assume "untouched (fst x) = untouched s" "rx_step K cp x = Some y"
    then show "case y of Again x' \<Rightarrow> untouched (fst x') = untouched s | Exit r \<Rightarrow> untouched (snd r) = untouched s"
      using rx_step_stable [of K cp "fst x" "snd x" y] by (auto simp: step_stable_def split: step.splits)
  qed (use that in simp)
  note loop = this
  show ?thesis
  proof (cases "recv_skb s = None")
    case True
    with assms obtain ret s1 where a: "alloc_new_skb_to_recv K s = Some (ret, s1)"
      by (cases "alloc_new_skb_to_recv K s") (auto simp: ttyio_receive_data_def Let_def)
    with True assms alloc_stable [OF a] loop [of s1] show ?thesis
      by (fastforce simp: ttyio_receive_data_def Let_def split: if_splits dest: rx_exit_pair)
  next
    case False
    with assms loop [of s] show ?thesis
      by (fastforce simp: ttyio_receive_data_def Let_def)
  qed
qed

text \<open>The tty layer offers the pending bytes in chunks of any sizes and keeps what a call has not
  processed.\<close>

primrec tty_feed :: "'t kernel \<Rightarrow> nat \<Rightarrow> nat list \<Rightarrow> byte list \<Rightarrow> 't host \<Rightarrow> (byte list \<times> 't host) outcome" where
  "tty_feed K fuel [] w s = Done (w, s)"
| "tty_feed K fuel (n # ns) w s =
     (case ttyio_receive_data K fuel (take n w) s of
        Done (p, s') \<Rightarrow> tty_feed K fuel ns (drop (nat p) w) s'
      | Faulted \<Rightarrow> Faulted
      | Timeout \<Rightarrow> Timeout)"

definition chunks_ok :: "nat \<Rightarrow> mode \<Rightarrow> nat list \<Rightarrow> bool" where
  \<comment> \<open>chunk sizes are C integers, there is fuel for each, and while hunting they are small enough for the
    dump\<close>
  "chunks_ok fuel m ns \<longleftrightarrow> (\<forall>n\<in>set ns. n < 2147483648 \<and> 3 * n + 3008 \<le> fuel \<and> (m = Hunt \<longrightarrow> n \<le> 819))"

lemma chunks_ok_Cons:
  "chunks_ok fuel m (n # ns) \<longleftrightarrow>
     n < 2147483648 \<and> 3 * n + 3008 \<le> fuel \<and> (m = Hunt \<longrightarrow> n \<le> 819) \<and> chunks_ok fuel m ns"
  by (auto simp: chunks_ok_def)

lemma chunks_ok_mono: "chunks_ok fuel m ns \<Longrightarrow> (m = Sync \<longrightarrow> m' = Sync) \<Longrightarrow> chunks_ok fuel m' ns"
  by (cases m; cases m') (auto simp: chunks_ok_def)

lemma delivered_trans:
  "delivered K s s' new \<Longrightarrow> delivered K s' s'' new' \<Longrightarrow> delivered K s s'' (new @ new')"
  by (auto simp: delivered_def)

definition allocs_succeed :: "'t kernel \<Rightarrow> bool" where
  "allocs_succeed K \<longleftrightarrow> (\<forall>n. netdev_alloc_skb K n (MAX_RECV_LEN K) \<noteq> None)"

lemma tty_feed_conserves:
  assumes K: "skb_kernel_ok K"
  shows "host_rx_inv s \<Longrightarrow> readable (host_mode s) (held s) w \<Longrightarrow> chunks_ok fuel (host_mode s) ns \<Longrightarrow>
    \<exists>w' s' new. tty_feed K fuel ns w s = Done (w', s') \<and> host_rx_inv s' \<and>
      readable (host_mode s') (held s') w' \<and> delivered K s s' new \<and>
      payloads data_fmt (host_mode s) (held s @ w) =
        map skb_bytes new @ payloads data_fmt (host_mode s') (held s' @ w') \<and>
      (allocs_succeed K \<longrightarrow> w' = drop (sum_list ns) w \<and>
         (ns \<noteq> [] \<longrightarrow> payloads data_fmt (host_mode s') (held s') = []))"
proof (induction ns arbitrary: w s)
  case Nil
  then show ?case by (auto simp: delivered_def intro!: exI [of _ "[]"])
next
  case (Cons n ns)
  let ?cp = "take n w" let ?rest = "drop n w"
  have split: "?cp @ ?rest = w" by simp
  have c: "length ?cp < 2147483648" "host_mode s = Hunt \<longrightarrow> length ?cp \<le> 819" "3 * length ?cp + 3008 \<le> fuel"
    using Cons.prems(3) by (auto simp: chunks_ok_Cons)
  have "readable (host_mode s) (held s) (?cp @ ?rest)"
    using Cons.prems(2) split by simp
  from ttyio_receive_data_call [OF K Cons.prems(1) this c] obtain p s1 where
    call: "ttyio_receive_data K fuel ?cp s = Done (p, s1)"
    and dn: "rx_done K ?cp ?rest (payloads data_fmt (host_mode s) (held s @ w)) s (p, s1)"
    using split by auto
  have dropp: "drop (nat p) ?cp @ ?rest = drop (nat p) w" if "p \<le> int (length ?cp)" for p
  proof -
    have "nat p \<le> length ?cp"
      using that by linarith
    then show ?thesis
      by (metis (no_types, lifting) append_take_drop_id drop_append diff_is_0_eq drop0)
  qed
  from dn obtain new where d: "host_rx_inv s1" "0 \<le> p" "p \<le> int (length ?cp)"
    "if recv_skb s1 = None then \<exists>n. netdev_alloc_skb K n (MAX_RECV_LEN K) = None
     else p = int (length ?cp) \<and> payloads data_fmt (host_mode s1) (held s1) = []"
    "host_mode s = Sync \<longrightarrow> host_mode s1 = Sync"
    "readable (host_mode s1) (held s1) (drop (nat p) w)" "delivered K s s1 new"
    "payloads data_fmt (host_mode s) (held s @ w) =
       map skb_bytes new @ payloads data_fmt (host_mode s1) (held s1 @ drop (nat p) w)"
    using dropp by (auto simp: rx_done_def)
  have "chunks_ok fuel (host_mode s1) ns"
    using Cons.prems(3) d(5) by (auto simp: chunks_ok_Cons elim: chunks_ok_mono)
  from Cons.IH [OF d(1,6) this] obtain w' s' new' where ih: "tty_feed K fuel ns (drop (nat p) w) s1 = Done (w', s')"
    "host_rx_inv s'" "readable (host_mode s') (held s') w'" "delivered K s1 s' new'"
    "payloads data_fmt (host_mode s1) (held s1 @ drop (nat p) w) =
       map skb_bytes new' @ payloads data_fmt (host_mode s') (held s' @ w')"
    "allocs_succeed K \<longrightarrow> w' = drop (sum_list ns) (drop (nat p) w) \<and>
       (ns \<noteq> [] \<longrightarrow> payloads data_fmt (host_mode s') (held s') = [])"
    by blast
  have "w' = drop (sum_list (n # ns)) w \<and> payloads data_fmt (host_mode s') (held s') = []" if a: "allocs_succeed K"
  proof
    have p: "p = int (length ?cp)" "payloads data_fmt (host_mode s1) (held s1) = []"
      using d(4) a unfolding allocs_succeed_def by (metis option.distinct(1))+
    have "drop (nat p) w = drop n w"
      using p(1) by (cases "n \<le> length w") auto
    with ih(6) a show "w' = drop (sum_list (n # ns)) w"
      by (simp add: add.commute)
    show "payloads data_fmt (host_mode s') (held s') = []"
      using ih(1,6) p(2) a by (cases ns) auto
  qed
  then show ?case
    using call ih d(8) delivered_trans [OF d(7) ih(4)]
    by (intro exI [of _ w'] exI [of _ s'] exI [of _ "new @ new'"]) simp
qed


lemma frames_clean:
  assumes "\<And>d. d \<in> set ds \<Longrightarrow> ip_packet d"
  shows "clean data_fmt (concat (map (mk_frame SPLIT_DATA) ds))"
    "payloads data_fmt Sync (concat (map (mk_frame SPLIT_DATA) ds)) = ds"
proof -
  have "payloads data_fmt Sync [] = []"
    by (rule payloads_short) simp
  then show "payloads data_fmt Sync (concat (map (mk_frame SPLIT_DATA) ds)) = ds"
    using data_payloads_frames [of ds "[]"] assms by simp
  show "clean data_fmt (concat (map (mk_frame SPLIT_DATA) ds))"
    using clean_frames [of ds data_fmt SPLIT_DATA "[]"] data_fmt_frame assms by simp
qed

lemma tty_feed_frames:
  assumes "skb_kernel_ok K" "allocs_succeed K" "host_rx_inv s" "host_mode s = Sync" "held s = []"
    "\<And>d. d \<in> set ds \<Longrightarrow> ip_packet d" "w = concat (map (mk_frame SPLIT_DATA) ds)"
    "ns = [] \<longrightarrow> ds = []" "length w \<le> sum_list ns" "chunks_ok fuel (host_mode s) ns"
  shows "\<exists>s' new. tty_feed K fuel ns w s = Done ([], s') \<and> host_rx_inv s' \<and> delivered K s s' new \<and>
    map skb_bytes new = ds"
proof -
  have cl: "clean data_fmt w" "payloads data_fmt Sync w = ds"
    using frames_clean [of ds] assms(6,7) by simp_all
  have "readable (host_mode s) (held s) w"
    using assms(4,5) cl(1) by (simp add: readable_def)
  from tty_feed_conserves [OF assms(1,3) this assms(10)] obtain w' s' new where
    f: "tty_feed K fuel ns w s = Done (w', s')" "host_rx_inv s'" "delivered K s s' new"
      "payloads data_fmt Sync w = map skb_bytes new @ payloads data_fmt (host_mode s') (held s' @ w')"
      "w' = drop (sum_list ns) w" "ns \<noteq> [] \<longrightarrow> payloads data_fmt (host_mode s') (held s') = []"
    using assms(2,4,5) by auto
  have "w' = []"
    using f(5) assms(9) by simp
  moreover have "map skb_bytes new = ds"
    using f(4,6) cl(2) assms(8) \<open>w' = []\<close> by (cases "ns = []") auto
  ultimately show ?thesis
    using f(1-3) by blast
qed

lemma rx_done_all:
  assumes "rx_done K cp [] ds s0 (p, s)" "allocs_succeed K"
  shows "p = int (length cp) \<and> (\<exists>new. netif_rx s = netif_rx s0 @ new \<and> map skb_bytes new = ds)"
proof -
  have "recv_skb s \<noteq> None"
  proof
    assume "recv_skb s = None"
    with assms(1) have "\<exists>n. netdev_alloc_skb K n (MAX_RECV_LEN K) = None"
      by (auto simp: rx_done_def)
    with assms(2) show False
      unfolding allocs_succeed_def by blast
  qed
  with assms(1) show ?thesis
    by (auto simp: rx_done_def delivered_def)
qed

lemma alloc_succeeds:
  assumes "skb_kernel_ok K" "allocs_succeed K"
  shows "\<exists>skb. alloc_new_skb_to_recv K s = Some (0, s\<lparr>recv_skb := Some skb, skb_allocs := Suc (skb_allocs s),
      uart_recv_status := STATUS_LEN\<rparr>) \<and> skb_ok skb \<and> skb_len skb = 0"
  using alloc_new_skb_to_recv_cases [OF assms(1), of s] assms(2) unfolding allocs_succeed_def by metis


section \<open>Resynchronising inside a chunk\<close>

text \<open>
  When a bad length has been read from the chunk itself, the separator is searched in the rest of the
  chunk; its index in the chunk is then added to \<open>processed\<close> as if it were a distance, so the bytes
  read before are counted twice.
\<close>

lemma rx_bad_length_rounds:
  assumes K: "skb_kernel_ok K" and skb: "recv_skb s = Some skb" "skb_ok skb" "skb_len skb = 0"
    and v: "l_status v = STATUS_LEN" "processed v = 0" "surplus v = int (length cp)"
    and cp: "cp = [lo, hi] @ junk @ SPLIT_DATA # t" "length cp \<le> 819" "SPLIT_DATA \<notin> set ([lo, hi] @ junk)"
    and bad: "load_i16 lo hi > MTU_LEN \<or> load_i16 lo hi < 20" and out: "length (dump_output s) = 4096"
  shows "\<exists>skb' out'. skb_ok skb' \<and> skb_len skb' = 0 \<and> length out' = 4096 \<and>
    loop (n + 3) (rx_step K cp) (s, v) =
      loop n (rx_step K cp) (s\<lparr>recv_skb := Some skb', dump_output := out'\<rparr>,
        v\<lparr>surplus := int (length t) - 2, processed := int (length cp) - int (length t) + 2,
          l_uartDataLen := load_i16 lo hi, l_status := STATUS_LEN\<rparr>)"
proof -
  have len: "length cp = length junk + length t + 3"
    using cp(1) by simp
  have b0: "skb_bytes skb = []"
    using skb(3) by (simp add: skb_bytes_def)
  obtain skb1 where r1: "rx_copy K cp 2 skb (s, v) = Some (Again (s\<lparr>recv_skb := Some skb1\<rparr>,
      v\<lparr>surplus := surplus v - 2, processed := 2\<rparr>))"
    and skb1: "skb_ok skb1" "skb_len skb1 = 2" "skb_bytes skb1 @ drop 2 cp = cp"
    using rx_copy_takes [OF K skb(2), of v cp 2 s] v skb(3) cp(2) len b0 by (auto simp: link_consts)
  let ?s1 = "s\<lparr>recv_skb := Some skb1\<rparr>"
  let ?v1 = "v\<lparr>surplus := surplus v - 2, processed := 2\<rparr>"
  let ?v2 = "?v1\<lparr>l_uartDataLen := load_i16 lo hi, l_status := STATUS_SPLIT\<rparr>"
  have b1: "skb_bytes skb1 = [lo, hi]"
    using skb1(3) cp(1) length_skb_bytes [OF skb1(1)] skb1(2) by auto
  have s1: "rx_step K cp (s, v) = Some (Again (?s1, ?v1))"
    using r1 skb(1,3) v(1) by (simp add: rx_step_def int32_def)
  have s2: "rx_step K cp (?s1, ?v1) = Some (Again (?s1, ?v2))"
    using skb_get [OF skb1(1), of 0] skb_get [OF skb1(1), of 1] b1 skb1(2) v(1) bad
    by (auto simp: rx_step_def Let_def)
  have "scan (drop (nat (skb_data skb1)) (skb_mem skb1)) SPLIT_DATA 0 (skb_len skb1) = Some None"
  proof -
    have "skb_len skb1 \<le> int (length (drop (nat (skb_data skb1)) (skb_mem skb1)))"
      using skb1(1) by (auto simp: skb_ok_def)
    from scan_window [OF order_refl this, of SPLIT_DATA] show ?thesis
      using b1 cp(3) by (auto simp: skb_bytes_def)
  qed
  moreover have "scan cp SPLIT_DATA 2 (int (length cp)) = Some (Some (int (length cp) - int (length t)))"
    using scan_window [of 2 "int (length cp)" cp SPLIT_DATA] cp(1,3) after_split_skip [of SPLIT_DATA junk t]
    by (simp del: after_split.simps)
  moreover obtain out' where out': "dump (dump_output s) cp (int (length cp)) = Some out'" "length out' = 4096"
    using dump_fits [OF out order_refl cp(2)] by blast
  moreover define skb' where "skb' = skb1\<lparr>skb_tail := skb_data skb1, skb_len := 0\<rparr>"
  moreover have "int32 (int (length t) - 2) = int (length t) - 2"
    "int32 (2 + (int (length cp) - int (length t))) = int (length cp) - int (length t) + 2"
    using cp(2) len by (auto intro!: trans [OF int32_id])
  ultimately have s3: "rx_step K cp (?s1, ?v2) = Some (Again (s\<lparr>recv_skb := Some skb', dump_output := out'\<rparr>,
      v\<lparr>surplus := int (length t) - 2, processed := int (length cp) - int (length t) + 2,
          l_uartDataLen := load_i16 lo hi, l_status := STATUS_LEN\<rparr>))"
    using v(3) by (simp add: rx_step_def rx_resync_def Let_def kernel_laws [OF K])
  have "skb_ok skb' \<and> skb_len skb' = 0"
    using skb1(1) by (simp add: skb'_def skb_ok_def link_consts)
  moreover have "loop (n + 3) (rx_step K cp) (s, v) = loop (Suc (Suc (Suc n))) (rx_step K cp) (s, v)"
    by (simp only: numeral_3_eq_3 add_Suc_right add_0_right)
  ultimately show ?thesis
    using out'(2) s1 s2 s3 by (intro exI [of _ skb'] exI [of _ out']) (simp add: loop_Again)
qed


section \<open>Properties\<close>

lemma host_init_rx: "host_rx_inv (host_init t)" "host_mode (host_init t) = Sync" "held (host_init t) = []"
  by (simp_all add: host_rx_inv_def host_init_def host_mode_def held_def)

text \<open>C3: exactly once and in order. The line discipline is given a byte stream without a framing error in
  chunks of any sizes, and socket buffer allocations may fail at any time (the unprocessed bytes then
  stay with the tty layer). Every call returns, no access leaves a buffer, and the packets handed to the
  network stack followed by those still contained in the held and pending bytes are the packets of the
  stream. Each is handed over with a MAC header of zero addresses and type IP in front of it, and the
  packet counter counts them.\<close>

theorem ttyio_receive_exactly_once:
  assumes "skb_kernel_ok K" "host_rx_inv s" "host_mode s = Sync" "clean data_fmt (held s @ w)"
    "\<forall>n\<in>set ns. n < 2147483648 \<and> 3 * n + 3008 \<le> fuel"
  shows "\<exists>w' s' new. tty_feed K fuel ns w s = Done (w', s') \<and> host_rx_inv s' \<and>
    netif_rx s' = netif_rx s @ new \<and> rx_packets s' = rx_packets s + int (length new) \<and>
    (\<forall>skb\<in>set new. eth_frame skb = replicate 12 0 @ [0x08, 0x00] @ skb_bytes skb) \<and>
    payloads data_fmt Sync (held s @ w) =
      map skb_bytes new @ payloads data_fmt (host_mode s') (held s' @ w')"
proof -
  have "readable (host_mode s) (held s) w" "chunks_ok fuel (host_mode s) ns"
    using assms(3-5) by (simp_all add: readable_def chunks_ok_def)
  from tty_feed_conserves [OF assms(1,2) this] show ?thesis
    using assms(3) by (fastforce simp: delivered_def mac_header_def)
qed

theorem ttyio_receive_exactly_once_witness:
  "\<exists>w' s' new. tty_feed plain_kernel 3100 [5, 20] (mk_frame SPLIT_DATA (replicate 20 7)) (host_init (0, [])) = Done (w', s') \<and>
    host_rx_inv s' \<and>
    netif_rx s' = netif_rx (host_init (0 :: int, [] :: byte list)) @ new \<and>
    rx_packets s' = rx_packets (host_init (0 :: int, [] :: byte list)) + int (length new) \<and>
    (\<forall>skb\<in>set new. eth_frame skb = replicate 12 0 @ [0x08, 0x00] @ skb_bytes skb) \<and>
    payloads data_fmt Sync (held (host_init (0 :: int, [] :: byte list)) @ mk_frame SPLIT_DATA (replicate 20 7)) =
      map skb_bytes new @ payloads data_fmt (host_mode s') (held s' @ w')"
proof -
  have "clean data_fmt (held (host_init (0 :: int, [] :: byte list)) @ mk_frame SPLIT_DATA (replicate 20 7) @ [])"
    using clean_mk_frame [of data_fmt "replicate 20 7" SPLIT_DATA "[]"] data_fmt_frame [of "replicate 20 7"]
    by (simp add: host_init_rx ip_packet_def MTU_LEN_def)
  then show ?thesis
    by (intro ttyio_receive_exactly_once) (simp_all add: plain_kernel_ok host_init_rx)
qed

text \<open>C26: the packets of the peer all arrive. When the wire carries the frames of the packets \<open>ds\<close> and
  socket buffers can be allocated, the network stack is given exactly \<open>ds\<close>, in whatever chunks the
  bytes come, and none of the bytes is left.\<close>

theorem ttyio_receive_delivers:
  assumes "skb_kernel_ok K" "allocs_succeed K" "host_rx_inv s" "host_mode s = Sync" "held s = []"
    "\<And>d. d \<in> set ds \<Longrightarrow> ip_packet d" "w = concat (map (mk_frame SPLIT_DATA) ds)"
    "ns \<noteq> []" "length w \<le> sum_list ns" "\<forall>n\<in>set ns. n < 2147483648 \<and> 3 * n + 3008 \<le> fuel"
  shows "\<exists>s'. tty_feed K fuel ns w s = Done ([], s') \<and> host_rx_inv s' \<and>
    map skb_bytes (netif_rx s') = map skb_bytes (netif_rx s) @ ds \<and>
    rx_packets s' = rx_packets s + int (length ds)"
proof -
  have "chunks_ok fuel (host_mode s) ns"
    using assms(10) by (simp add: chunks_ok_def assms(4))
  from tty_feed_frames [OF assms(1-7) _ assms(9) this] assms(8) show ?thesis
    by (auto simp: delivered_def)
qed

theorem ttyio_receive_delivers_witness:
  "\<exists>s'. tty_feed plain_kernel 3100 [5, 18] (concat (map (mk_frame SPLIT_DATA) [replicate 20 7])) (host_init (0, [])) =
      Done ([], s') \<and> host_rx_inv s' \<and>
    map skb_bytes (netif_rx s') = map skb_bytes (netif_rx (host_init (0 :: int, [] :: byte list))) @ [replicate 20 7] \<and>
    rx_packets s' = rx_packets (host_init (0 :: int, [] :: byte list)) + int (length [replicate 20 (7 :: byte)])"
  by (rule ttyio_receive_delivers)
    (simp_all add: plain_kernel_ok host_init_rx ip_packet_def link_consts allocs_succeed_def, simp add: plain_kernel_def)


definition hunting :: "(int \<times> byte list) host" where
  "hunting = (host_init (0, []))\<lparr>uart_recv_status := STATUS_SPLIT, skb_allocs := 1,
     recv_skb := Some ((plain_skb 1533)\<lparr>skb_mac_header := 64, skb_data := 76, skb_tail := 76\<rparr>)\<rparr>"

lemma hunting_inv: "host_rx_inv hunting" "host_mode hunting = Hunt"
  by (simp_all add: hunting_def host_rx_inv_def host_init_def skb_ok_def frame_ok_def host_mode_def mode_at_def
      plain_skb_def link_consts)


text \<open>C28: resynchronising inside a chunk runs past the end of the chunk. A chunk that starts with an
  impossible length and has fewer than two bytes behind its first separator makes the receiver copy a
  negative number of bytes.\<close>

theorem resync_in_chunk_faults:
  assumes "skb_kernel_ok K" "allocs_succeed K" "recv_skb s = None" "length (dump_output s) = 4096"
    "cp = [lo, hi] @ junk @ SPLIT_DATA # t" "length cp \<le> 819" "SPLIT_DATA \<notin> set ([lo, hi] @ junk)"
    "load_i16 lo hi > MTU_LEN \<or> load_i16 lo hi < 20" "length t < 2" "4 \<le> fuel"
  shows "ttyio_receive_data K fuel cp s = Faulted"
proof -
  obtain skb where al: "alloc_new_skb_to_recv K s = Some (0, s\<lparr>recv_skb := Some skb,
      skb_allocs := Suc (skb_allocs s), uart_recv_status := STATUS_LEN\<rparr>)" "skb_ok skb" "skb_len skb = 0"
    using alloc_succeeds [OF assms(1,2)] by blast
  let ?s = "s\<lparr>recv_skb := Some skb, skb_allocs := Suc (skb_allocs s), uart_recv_status := STATUS_LEN\<rparr>"
  let ?v = "\<lparr>l_status = STATUS_LEN, l_uartDataLen = uartDataLen s, processed = 0, surplus = int (length cp)\<rparr>"
  obtain skb' out' where r: "skb_ok skb'" "skb_len skb' = 0" "loop (1 + 3) (rx_step K cp) (?s, ?v) =
      loop 1 (rx_step K cp) (?s\<lparr>recv_skb := Some skb', dump_output := out'\<rparr>,
        ?v\<lparr>surplus := int (length t) - 2, processed := int (length cp) - int (length t) + 2,
          l_uartDataLen := load_i16 lo hi, l_status := STATUS_LEN\<rparr>)"
    using rx_bad_length_rounds [OF assms(1) _ al(2,3) _ _ _ assms(5-8), of ?s ?v 1] assms(4) by auto
  have "loop (1 + 3) (rx_step K cp) (?s, ?v) = Faulted"
    unfolding r(3) using r(2) assms(9) by (auto simp: rx_step_def rx_copy_def Let_def blk_read_def)
  with loop_fuel [of "1 + 3" "rx_step K cp" "(?s, ?v)" fuel] have "loop fuel (rx_step K cp) (?s, ?v) = Faulted"
    using assms(10) by (simp del: loop.simps)
  then show ?thesis
    using assms(3) al(1) by (simp add: ttyio_receive_data_def Let_def)
qed

theorem resync_in_chunk_faults_witness:
  "ttyio_receive_data plain_kernel 4 [0xff, 0xff, 0x55] (host_init (0, [])) = Faulted"
  by (rule resync_in_chunk_faults [where lo = "0xff" and hi = "0xff" and junk = "[]" and t = "[]"])
    (simp_all add: plain_kernel_ok allocs_succeed_def host_init_def link_consts load_i16_def load_u16_def int16_def,
      simp add: plain_kernel_def)

text \<open>C29: resynchronising inside a chunk otherwise loses what follows the separator. Behind an impossible
  length at the start of a chunk the receiver goes on two bytes too late: it delivers the packets of the
  stream without the first two bytes behind the separator, whatever frame they begin.\<close>

theorem resync_in_chunk_skips:
  assumes "skb_kernel_ok K" "allocs_succeed K" "recv_skb s = None" "length (dump_output s) = 4096"
    "cp = [lo, hi] @ junk @ SPLIT_DATA # x # y # t" "length cp \<le> 819" "SPLIT_DATA \<notin> set ([lo, hi] @ junk)"
    "load_i16 lo hi > MTU_LEN \<or> load_i16 lo hi < 20" "clean data_fmt t" "3 * length cp + 3011 \<le> fuel"
  shows "\<exists>s' new. ttyio_receive_data K fuel cp s = Done (int (length cp), s') \<and> netif_rx s' = netif_rx s @ new \<and>
    map skb_bytes new = payloads data_fmt Sync t"
proof -
  obtain skb where al: "alloc_new_skb_to_recv K s = Some (0, s\<lparr>recv_skb := Some skb,
      skb_allocs := Suc (skb_allocs s), uart_recv_status := STATUS_LEN\<rparr>)" "skb_ok skb" "skb_len skb = 0"
    using alloc_succeeds [OF assms(1,2)] by blast
  let ?s = "s\<lparr>recv_skb := Some skb, skb_allocs := Suc (skb_allocs s), uart_recv_status := STATUS_LEN\<rparr>"
  let ?v = "\<lparr>l_status = STATUS_LEN, l_uartDataLen = uartDataLen s, processed = 0, surplus = int (length cp)\<rparr>"
  define n where "n = fuel - 3"
  have n: "fuel = n + 3" "3 * length cp + 3008 \<le> n"
    using assms(10) by (simp_all add: n_def)
  obtain skb' out' where r: "skb_ok skb'" "skb_len skb' = 0" "length out' = 4096"
    "loop (n + 3) (rx_step K cp) (?s, ?v) =
      loop n (rx_step K cp) (?s\<lparr>recv_skb := Some skb', dump_output := out'\<rparr>,
        ?v\<lparr>surplus := int (length (x # y # t)) - 2, processed := int (length cp) - int (length (x # y # t)) + 2,
          l_uartDataLen := load_i16 lo hi, l_status := STATUS_LEN\<rparr>)"
    using rx_bad_length_rounds [OF assms(1) _ al(2,3) _ _ _ assms(5-8), of ?s ?v n] assms(4) by auto
  let ?s' = "?s\<lparr>recv_skb := Some skb', dump_output := out'\<rparr>"
  let ?v' = "?v\<lparr>surplus := int (length t), processed := int (length cp) - int (length t),
          l_uartDataLen := load_i16 lo hi, l_status := STATUS_LEN\<rparr>"
  have "skb_bytes skb' = []"
    using r(2) by (simp add: skb_bytes_def)
  moreover have "nat (int (length cp) - int (length t)) = length junk + 5"
    using assms(5) by simp
  moreover have "cp = ([lo, hi] @ junk @ [SPLIT_DATA, x, y]) @ t"
    using assms(5) by simp
  then have "drop (length ([lo, hi] @ junk @ [SPLIT_DATA, x, y])) cp = t"
    by (metis append_eq_conv_conj)
  ultimately have "skb_bytes skb' = [] \<and> drop (nat (int (length cp) - int (length t))) cp = t"
    by (simp add: numeral_eq_Suc)
  moreover have "delivered K s ?s' []"
    by (simp add: delivered_def)
  ultimately have "rx_loop_inv K cp [] (payloads data_fmt Sync t) s (?s', ?v')"
    using r(1-3) assms(5,9) by (auto simp: rx_loop_inv_def frame_ok_def mode_at_def readable_def intro!: exI [of _ "[]"])
  from rx_loop_done [OF assms(1) this _ n(2)] obtain p s' where
    l: "loop n (rx_step K cp) (?s', ?v') = Done (p, s')" "rx_done K cp [] (payloads data_fmt Sync t) s (p, s')"
    using assms(6) by auto
  then obtain new where "p = int (length cp)" "netif_rx s' = netif_rx s @ new"
    "map skb_bytes new = payloads data_fmt Sync t"
    using rx_done_all [OF l(2) assms(2)] by auto
  moreover have "ttyio_receive_data K fuel cp s = Done (p, s')"
    using assms(3) al(1) n(1) r(4) l(1) by (simp add: ttyio_receive_data_def Let_def)
  ultimately show ?thesis by blast
qed

theorem resync_in_chunk_skips_witness:
  "\<exists>s' new. ttyio_receive_data plain_kernel 4000 ([0xff, 0xff] @ [] @ SPLIT_DATA # 20 # 0 # mk_frame SPLIT_DATA (replicate 20 7))
      (host_init (0, [])) =
      Done (int (length ([0xff, 0xff] @ [] @ SPLIT_DATA # 20 # 0 # mk_frame SPLIT_DATA (replicate 20 7))), s') \<and>
    netif_rx s' = netif_rx (host_init (0 :: int, [] :: byte list)) @ new \<and>
    map skb_bytes new = payloads data_fmt Sync (mk_frame SPLIT_DATA (replicate 20 7))"
proof -
  have "clean data_fmt (mk_frame SPLIT_DATA (replicate 20 7) @ [])"
    using clean_mk_frame [of data_fmt "replicate 20 7" SPLIT_DATA "[]"] data_fmt_frame [of "replicate 20 7"]
    by (simp add: ip_packet_def MTU_LEN_def)
  then show ?thesis
    by (intro resync_in_chunk_skips [where lo = "0xff" and hi = "0xff" and junk = "[]" and x = 20 and y = 0])
      (simp_all add: plain_kernel_ok allocs_succeed_def host_init_def link_consts load_i16_def load_u16_def int16_def,
        simp add: plain_kernel_def)
qed

end
