(* ===== verification/Host_Info.thy ===== *)
theory Host_Info
  imports Host_Uart
begin

text \<open>
  The line discipline of the driver, handshake side: \<open>ttyio_netif_info\<close>, which waits for the network
  configuration the firmware sends when it has joined the Wi-Fi network, \<open>transform_netif_info\<close> and the
  entry point \<open>ttyio_receive_buf2\<close> of \<open>uart_wifi_driver/uart.c\<close>.
\<close>

section \<open>Operations\<close>

definition dec_byte :: "byte \<Rightarrow> byte list" where
  \<comment> \<open>the format \<^verbatim>\<open>%hhu\<close>\<close>
  "dec_byte b =
     (let n = uint b; d = (\<lambda>k. word_of_int (0x30 + k) :: byte) in
      if n < 10 then [d n]
      else if n < 100 then [d (n div 10), d (n mod 10)]
      else [d (n div 100), d (n div 10 mod 10), d (n mod 10)])"

definition dotted :: "byte list \<Rightarrow> byte list" where
  \<comment> \<open>\<^verbatim>\<open>%hhu.%hhu.%hhu.%hhu\<close> and a newline\<close>
  "dotted a = dec_byte (a ! 0) @ [0x2e] @ dec_byte (a ! 1) @ [0x2e] @ dec_byte (a ! 2) @ [0x2e] @
     dec_byte (a ! 3) @ [0x0a]"

definition netif_info_text :: "byte list \<Rightarrow> byte list" where
  "netif_info_text buf = dotted (take 4 (drop 2 buf)) @ dotted (take 4 (drop 6 buf)) @
     dotted (take 4 (drop 10 buf))"

definition transform_netif_info :: "byte list \<Rightarrow> byte list option" where
  "transform_netif_info buf = do {
     (ret, buf) \<leftarrow> snprintf buf 15 (12 * 4) (netif_info_text buf);
     Some buf }"

record ni_locals =
  n_status :: status
  n_recv_len :: int
  n_uartDataLen :: int
  n_processed :: int
  n_surplus :: int

definition ni_exit :: "'t host \<times> ni_locals \<Rightarrow> int \<times> 't host" where
  "ni_exit = (\<lambda>(s, v). (n_processed v,
     s\<lparr>uart_recv_status := n_status v, netif_info_recv_len := n_recv_len v\<rparr>))"

definition ni_copy :: "byte list \<Rightarrow> int \<Rightarrow> 't host \<times> ni_locals \<Rightarrow>
    ('t host \<times> ni_locals, int \<times> 't host) step option" where
  "ni_copy cp want = (\<lambda>(s, v).
     if n_surplus v = 0 then Some (Exit (ni_exit (s, v)))
     else do {
       let actualcopy = min (n_surplus v) want;
       bs \<leftarrow> blk_read cp (n_processed v) actualcopy;
       ni \<leftarrow> blk_write (netif_info s) (n_recv_len v) bs;
       Some (Again (s\<lparr>netif_info := ni\<rparr>,
         v\<lparr>n_recv_len := int16 (n_recv_len v + actualcopy), n_surplus := int32 (n_surplus v - actualcopy),
           n_processed := int32 (n_processed v + actualcopy)\<rparr>)) })"

definition ni_shift :: "int \<Rightarrow> 't host \<times> ni_locals \<Rightarrow>
    ('t host \<times> ni_locals, int \<times> 't host) step option" where
  \<comment> \<open>a byte 12 at index \<open>skip\<close> of the collected bytes: drop what comes before it\<close>
  "ni_shift skip = (\<lambda>(s, v). do {
     out \<leftarrow> recv_dump (recv_output s) (netif_info s) (n_recv_len v);
     let n = int16 (n_recv_len v - skip);
     ni \<leftarrow> blk_move (netif_info s) 0 skip n;
     out \<leftarrow> recv_dump out ni n;
     Some (Again (s\<lparr>netif_info := ni, recv_output := out\<rparr>, v\<lparr>n_recv_len := n, n_status := STATUS_LEN\<rparr>)) })"

definition ni_resync :: "byte list \<Rightarrow> 't host \<times> ni_locals \<Rightarrow>
    ('t host \<times> ni_locals, int \<times> 't host) step option" where
  \<comment> \<open>\<open>case STATUS_SPLIT\<close>; \<open>scan\<close> yields the index behind the byte it finds\<close>
  "ni_resync cp = (\<lambda>(s, v). do {
     r \<leftarrow> scan (netif_info s) 12 0 (n_recv_len v);
     case r of
       Some j \<Rightarrow> ni_shift (j - 1) (s, v)
     | None \<Rightarrow> do {
         let v = v\<lparr>n_recv_len := 0\<rparr>;
         r \<leftarrow> scan cp 12 (n_processed v) (int (length cp));
         case r of
           Some j \<Rightarrow> do {
             let skip = j - 1;
             out \<leftarrow> recv_dump (recv_output s) cp (int (length cp));
             Some (Again (s\<lparr>recv_output := out\<rparr>,
               v\<lparr>n_surplus := int32 (n_surplus v - skip), n_processed := int32 (n_processed v + skip),
                 n_status := STATUS_LEN\<rparr>)) }
         | None \<Rightarrow> Some (Exit (ni_exit (s, v\<lparr>n_processed := int (length cp)\<rparr>))) } })"

definition ni_accept :: "'t kernel \<Rightarrow> 't host \<Rightarrow> 't host option" where
  \<comment> \<open>echo the buffer to the firmware, print the addresses, wake the readers\<close>
  "ni_accept K s = do {
     out \<leftarrow> recv_dump (recv_output s) (netif_info s) (int (length (netif_info s)));
     let t = tty_write K (tty s) (netif_info s);
     ni \<leftarrow> transform_netif_info (netif_info s);
     Some (s\<lparr>recv_output := out, tty := t, netif_info := ni, netif_info_vaild := True\<rparr>) }"

definition ni_frame :: "'t kernel \<Rightarrow> byte list \<Rightarrow> 't host \<times> ni_locals \<Rightarrow>
    ('t host \<times> ni_locals, int \<times> 't host) step option" where
  \<comment> \<open>\<open>case STATUS_DATA\<close>; the successful return does not store the local variables\<close>
  "ni_frame K cp = (\<lambda>(s, v).
     if n_recv_len v < n_uartDataLen v + 3
     then ni_copy cp (n_uartDataLen v + 3 - n_recv_len v) (s, v)
     else do {
       e \<leftarrow> blk_get (netif_info s) (n_uartDataLen v + 2);
       if e = SPLIT_CMD
       then do { s \<leftarrow> ni_accept K s; Some (Exit (n_processed v, s)) }
       else ni_resync cp (s, v\<lparr>n_status := STATUS_SPLIT\<rparr>) })"

definition ni_step :: "'t kernel \<Rightarrow> byte list \<Rightarrow> 't host \<times> ni_locals \<Rightarrow>
    ('t host \<times> ni_locals, int \<times> 't host) step option" where
  "ni_step K cp = (\<lambda>(s, v).
     if n_recv_len v < 0 then None
     else case n_status v of
       STATUS_LEN \<Rightarrow>
         if n_recv_len v < 2 then ni_copy cp (2 - n_recv_len v) (s, v)
         else do {
           lo \<leftarrow> blk_get (netif_info s) 0;
           hi \<leftarrow> blk_get (netif_info s) 1;
           let v = v\<lparr>n_uartDataLen := load_i16 lo hi\<rparr>;
           if n_uartDataLen v \<noteq> 12
           then do {
             r \<leftarrow> (if lo = 12 then scan (netif_info s) 12 1 (n_recv_len v) else Some None);
             case r of
               Some j \<Rightarrow> ni_shift (j - 1) (s, v)
             | None \<Rightarrow> Some (Again (s, v\<lparr>n_status := STATUS_SPLIT\<rparr>)) }
           else ni_frame K cp (s, v\<lparr>n_status := STATUS_DATA\<rparr>) }
     | STATUS_DATA \<Rightarrow> ni_frame K cp (s, v)
     | STATUS_SPLIT \<Rightarrow> ni_resync cp (s, v))"

definition ttyio_netif_info :: "'t kernel \<Rightarrow> nat \<Rightarrow> byte list \<Rightarrow> 't host \<Rightarrow> (int \<times> 't host) outcome" where
  "ttyio_netif_info K fuel cp s =
     (let v = \<lparr>n_status = uart_recv_status s, n_recv_len = netif_info_recv_len s, n_uartDataLen = 12,
               n_processed = 0, n_surplus = int (length cp)\<rparr> in
      case recv_dump (recv_output s) cp (int (length cp)) of
        None \<Rightarrow> Faulted
      | Some out \<Rightarrow> loop fuel (ni_step K cp) (s\<lparr>recv_output := out\<rparr>, v))"

definition ttyio_receive_buf2 :: "'t kernel \<Rightarrow> nat \<Rightarrow> byte list \<Rightarrow> 't host option \<Rightarrow> (int \<times> 't host option) outcome" where
  \<comment> \<open>\<open>None\<close>: the discipline is set but its data are not attached yet\<close>
  "ttyio_receive_buf2 K fuel cp disc_data =
     (case disc_data of
        None \<Rightarrow> Done (int (length cp), None)
      | Some s \<Rightarrow>
          (case (if netif_info_vaild s then ttyio_receive_data K fuel cp s else ttyio_netif_info K fuel cp s) of
             Done (p, s') \<Rightarrow> Done (p, Some s')
           | Faulted \<Rightarrow> Faulted
           | Timeout \<Rightarrow> Timeout))"


text \<open>The handshake side, too, leaves all this alone.\<close>

lemmas ld_defs = ld_kept_def kept_def

definition ni_keeps :: "'t host \<Rightarrow> ('t host \<times> ni_locals, int \<times> 't host) step \<Rightarrow> bool" where
  "ni_keeps s y \<longleftrightarrow> (case y of Again x \<Rightarrow> ld_kept (fst x) = ld_kept s | Exit r \<Rightarrow> ld_kept (snd r) = ld_kept s)"

lemma ni_exit_kept [simp]: "ld_kept (snd (ni_exit (s, v))) = ld_kept s"
  by (simp add: ni_exit_def ld_defs)

lemma ni_copy_keeps: "ni_copy cp n (s, v) = Some y \<Longrightarrow> ni_keeps s y"
  by (auto simp: ni_copy_def ni_exit_def Let_def ni_keeps_def ld_defs split: bind_splits if_splits
      dest!: length_blk_write)

lemma length_blk_move: "blk_move blk d k n = Some blk' \<Longrightarrow> length blk' = length blk"
  by (auto simp: blk_move_def dest!: length_blk_write split: bind_splits)

lemma ni_shift_keeps: "ni_shift k (s, v) = Some y \<Longrightarrow> ni_keeps s y"
  by (auto simp: ni_shift_def Let_def ni_keeps_def ld_defs split: bind_splits
      dest!: length_blk_move length_dumps)

lemma ni_resync_keeps: "ni_resync cp (s, v) = Some y \<Longrightarrow> ni_keeps s y"
  by (auto simp: ni_resync_def Let_def ni_keeps_def [of _ "Again _"] ni_keeps_def [of _ "Exit _"] ld_defs ni_exit_def
      split: bind_splits option.splits dest!: length_dumps dest: ni_shift_keeps)

lemma ni_accept_kept: "ni_accept K s = Some s' \<Longrightarrow> ld_kept s' = ld_kept s"
  by (auto simp: ni_accept_def transform_netif_info_def Let_def ld_defs split: bind_splits
      dest!: length_dumps snprintf_length)

lemma ni_frame_keeps: "ni_frame K cp (s, v) = Some y \<Longrightarrow> ni_keeps s y"
  by (auto simp: ni_frame_def ni_keeps_def [of _ "Exit _"] split: bind_splits if_splits
      dest!: ni_accept_kept dest: ni_copy_keeps ni_resync_keeps)

lemma ni_step_keeps: "ni_step K cp (s, v) = Some y \<Longrightarrow> ni_keeps s y"
  by (auto simp: ni_step_def Let_def ni_keeps_def [of _ "Again _"] split: bind_splits if_splits status.splits option.splits
      dest: ni_copy_keeps ni_shift_keeps ni_resync_keeps ni_frame_keeps)

lemma ttyio_netif_info_kept:
  assumes "ttyio_netif_info K fuel cp s = Done (p, s')"
  shows "ld_kept s' = ld_kept s"
proof -
  obtain out v where out: "recv_dump (recv_output s) cp (int (length cp)) = Some out"
    "loop fuel (ni_step K cp) (s\<lparr>recv_output := out\<rparr>, v) = Done (p, s')"
    using assms by (auto simp: ttyio_netif_info_def Let_def split: option.splits)
  have "ld_kept (snd (p, s')) = ld_kept s"
  proof (rule loop_keeps [where I = "\<lambda>x. ld_kept (fst x) = ld_kept s" and Q = "\<lambda>r. ld_kept (snd r) = ld_kept s", OF _ _ out(2)])
    fix x y
    assume "ld_kept (fst x) = ld_kept s" "ni_step K cp x = Some y"
    then show "case y of Again x' \<Rightarrow> ld_kept (fst x') = ld_kept s | Exit r \<Rightarrow> ld_kept (snd r) = ld_kept s"
      using ni_step_keeps [of K cp "fst x" "snd x" y] by (auto simp: ni_keeps_def split: step.splits)
  qed (use length_dumps(2) [OF out(1)] in \<open>simp add: ld_defs\<close>)
  then show ?thesis by simp
qed

lemma ttyio_receive_buf2_kept:
  assumes "ttyio_receive_buf2 K fuel cp (Some s) = Done (p, Some s')"
  shows "ld_kept s' = ld_kept s"
  using assms ttyio_receive_data_stable [of K fuel cp s p s'] ttyio_netif_info_kept [of K fuel cp s p s']
  by (auto simp: ttyio_receive_buf2_def untouched_def split: if_splits outcome.splits)


section \<open>Receiving the configuration\<close>

text \<open>The frame the firmware sends: the twelve bytes of address, mask and gateway.\<close>

definition info_frame :: "byte list \<Rightarrow> byte list" where
  "info_frame addrs = mk_frame SPLIT_CMD addrs"

lemma info_frame_bytes:
  assumes "length addrs = 12"
  shows "length (info_frame addrs) = 15" "info_frame addrs ! 0 = 12" "info_frame addrs ! Suc 0 = 0"
    "info_frame addrs ! 14 = SPLIT_CMD"
  using assms by (simp_all add: info_frame_def mk_frame_def store_u16_def nth_append nth_Cons')

definition ni_env :: "'t host \<Rightarrow> 't host \<Rightarrow> bool" where
  \<comment> \<open>what waiting for the configuration leaves alone\<close>
  "ni_env s0 s \<longleftrightarrow> recv_skb s = recv_skb s0 \<and> netif_rx s = netif_rx s0 \<and> rx_packets s = rx_packets s0 \<and>
     rx_bytes s = rx_bytes s0 \<and> dump_output s = dump_output s0 \<and> skb_allocs s = skb_allocs s0 \<and>
     uartDataLen s = uartDataLen s0 \<and> length (netif_info s) = 64 \<and> length (recv_output s) = 4096"

text \<open>Of the frame, the first \<open>k\<close> bytes have been collected.\<close>

definition collected :: "byte list \<Rightarrow> status \<Rightarrow> int \<Rightarrow> byte list \<Rightarrow> bool" where
  "collected f st k ni \<longleftrightarrow> 0 \<le> k \<and> k \<le> 15 \<and> take (nat k) ni = take (nat k) f \<and>
     (case st of STATUS_LEN \<Rightarrow> k \<le> 2 | STATUS_DATA \<Rightarrow> 2 \<le> k | STATUS_SPLIT \<Rightarrow> False)"

definition ni_waiting :: "byte list \<Rightarrow> 't host \<Rightarrow> bool" where
  "ni_waiting f s \<longleftrightarrow> \<not> netif_info_vaild s \<and> length (netif_info s) = 64 \<and> length (recv_output s) = 4096 \<and>
     collected f (uart_recv_status s) (netif_info_recv_len s) (netif_info s)"

definition ni_loop_inv :: "byte list \<Rightarrow> byte list \<Rightarrow> byte list \<Rightarrow> byte list \<Rightarrow> 't host \<Rightarrow>
    't host \<times> ni_locals \<Rightarrow> bool" where
  "ni_loop_inv f cp rest w s0 = (\<lambda>(s, v).
     ni_env s0 s \<and> \<not> netif_info_vaild s \<and> tty s = tty s0 \<and> uart_recv_status s = uart_recv_status s0 \<and>
     collected f (n_status v) (n_recv_len v) (netif_info s) \<and> n_uartDataLen v = 12 \<and>
     drop 15 (netif_info s) = drop 15 (netif_info s0) \<and>
     0 \<le> n_processed v \<and> 0 \<le> n_surplus v \<and> n_processed v + n_surplus v = int (length cp) \<and>
     take (nat (n_recv_len v)) f @ drop (nat (n_processed v)) cp @ rest = f @ w)"

text \<open>The outcome of a call: the frame is complete and has been accepted, or the chunk is used up.\<close>

definition ni_done :: "'t kernel \<Rightarrow> byte list \<Rightarrow> byte list \<Rightarrow> byte list \<Rightarrow> byte list \<Rightarrow> 't host \<Rightarrow>
    int \<times> 't host \<Rightarrow> bool" where
  "ni_done K f cp rest w s0 = (\<lambda>(p, s).
     ni_env s0 s \<and> 0 \<le> p \<and> p \<le> int (length cp) \<and>
     (if netif_info_vaild s
      then drop (nat p) cp @ rest = w \<and> uart_recv_status s = uart_recv_status s0 \<and>
        tty s = tty_write K (tty s0) (f @ drop 15 (netif_info s0)) \<and>
        take (15 + min 47 (length (netif_info_text f)) + 1) (netif_info s) =
          f @ take 47 (netif_info_text f) @ [0]
      else p = int (length cp) \<and> tty s = tty s0 \<and> drop 15 (netif_info s) = drop 15 (netif_info s0) \<and> ni_waiting f s \<and> netif_info_recv_len s < 15 \<and>
        take (nat (netif_info_recv_len s)) f @ rest = f @ w))"

lemma dec_byte_length: "0 < length (dec_byte b)" "length (dec_byte b) \<le> 3"
  by (simp_all add: dec_byte_def Let_def)

lemma transform_netif_info_text:
  assumes "length ni = 64" "take 15 ni = f" "length f = 15"
  shows "\<exists>ni'. transform_netif_info ni = Some ni' \<and> length ni' = 64 \<and>
    take (15 + min 47 (length (netif_info_text f)) + 1) ni' = f @ take 47 (netif_info_text f) @ [0]"
proof -
  have "take 4 (drop k ni) = take 4 (drop k f)" if "k \<le> 11" for k
  proof -
    have "take 4 (drop k (take 15 ni)) = take 4 (drop k ni)"
      using that by (simp add: drop_take min_def)
    with assms(2) show ?thesis by simp
  qed
  then have same: "netif_info_text ni = netif_info_text f"
    by (simp add: netif_info_text_def)
  let ?bs = "take 47 (netif_info_text f) @ [0]"
  have "length ?bs \<le> 48"
    by simp
  then obtain ni' where "blk_write ni 15 ?bs = Some ni'" "length ni' = length ni" "take (length f + length ?bs) ni' = f @ ?bs"
    using blk_write_prefix [of f ni ?bs 15] assms by (force simp del: length_append length_take)
  then show ?thesis
    using assms same by (auto simp: transform_netif_info_def snprintf_def min.commute)
qed

lemma ni_accept_writes:
  assumes "ni_env s0 s" "tty s = tty s0" "take 15 (netif_info s) = f" "drop 15 (netif_info s) = tl15"
  shows "\<exists>s'. ni_accept K s = Some s' \<and> ni_env s0 s' \<and> netif_info_vaild s' \<and>
    uart_recv_status s' = uart_recv_status s \<and>
    tty s' = tty_write K (tty s0) (f @ tl15) \<and>
    take (15 + min 47 (length (netif_info_text f)) + 1) (netif_info s') = f @ take 47 (netif_info_text f) @ [0]"
proof -
  have len: "length (netif_info s) = 64" "length (recv_output s) = 4096"
    using assms(1) by (simp_all add: ni_env_def)
  obtain out where out: "recv_dump (recv_output s) (netif_info s) (int (length (netif_info s))) = Some out" "length out = 4096"
    using dump_fits [of "recv_output s" 64 "netif_info s"] len by (auto simp: dumps_same)
  obtain ni where ni: "transform_netif_info (netif_info s) = Some ni" "length ni = 64"
    "take (15 + min 47 (length (netif_info_text f)) + 1) ni = f @ take 47 (netif_info_text f) @ [0]"
    using transform_netif_info_text [OF len(1) assms(3)] assms(3) len(1) by auto
  have "netif_info s = f @ tl15"
    using append_take_drop_id [of 15 "netif_info s"] assms(3,4) by simp
  then have "tty_write K (tty s) (netif_info s) = tty_write K (tty s0) (f @ tl15)"
    using assms(2) by simp
  then show ?thesis
    using out ni assms(1) by (auto simp: ni_accept_def Let_def ni_env_def)
qed

definition ni_round :: "'t kernel \<Rightarrow> byte list \<Rightarrow> byte list \<Rightarrow> byte list \<Rightarrow> byte list \<Rightarrow> 't host \<Rightarrow>
    't host \<times> ni_locals \<Rightarrow> ('t host \<times> ni_locals, int \<times> 't host) step option \<Rightarrow> bool" where
  "ni_round K f cp rest w s0 x r \<longleftrightarrow>
     (\<exists>y. r = Some y \<and>
       (case y of
          Again x' \<Rightarrow> ni_loop_inv f cp rest w s0 x' \<and> nat (n_surplus (snd x')) < nat (n_surplus (snd x))
        | Exit e \<Rightarrow> ni_done K f cp rest w s0 e))"

lemma take_grows: "take k f @ bs @ x = f @ w \<Longrightarrow> k + length bs \<le> length f \<Longrightarrow> take k f @ bs = take (k + length bs) f"
  by (metis add.commute add_leD2 append.assoc append_eq_append_conv_if append_eq_conv_conj length_append length_take min_absorb2 take_append)

text \<open>Copying \<open>a\<close> bytes of the chunk behind the collected ones.\<close>

lemma ni_append:
  assumes "collected f st k ni" "length ni = 64" "0 \<le> p" "0 < a" "p + a \<le> int (length cp)" "k + a \<le> 15" "length f = 15"
    and str: "take (nat k) f @ drop (nat p) cp @ rest = f @ w" and st: "st = STATUS_LEN \<longrightarrow> k + a \<le> 2"
  shows "\<exists>bs ni'. blk_read cp p a = Some bs \<and> blk_write ni k bs = Some ni' \<and> length ni' = 64 \<and>
    drop 15 ni' = drop 15 ni \<and> collected f st (k + a) ni' \<and>
    take (nat (k + a)) f @ drop (nat (p + a)) cp @ rest = f @ w"
proof -
  define bs where "bs = take (nat a) (drop (nat p) cp)"
  have k: "0 \<le> k" "take (nat k) ni = take (nat k) f"
    using assms(1) by (simp_all add: collected_def)
  have bs: "blk_read cp p a = Some bs"
    using assms by (simp add: blk_read_def bs_def)
  have lbs: "length bs = nat a"
    using length_blk_read [OF bs] by linarith
  have nk: "nat (k + a) = nat k + length bs" "nat (p + a) = nat a + nat p" "nat k + length bs \<le> length f"
    using k(1) assms(3,4,6,7) lbs by linarith+
  obtain ni' where ni': "blk_write ni k bs = Some ni'" "length ni' = 64" "take (nat k + length bs) ni' = take (nat k) f @ bs"
    using blk_write_end [of k bs ni] k assms(2,4,6) lbs nk(1) by fastforce
  have "drop (nat p) cp = bs @ drop (nat (p + a)) cp"
    unfolding nk(2) bs_def by (metis append_take_drop_id drop_drop)
  then have eq: "take (nat k) f @ bs @ drop (nat (p + a)) cp @ rest = f @ w"
    using str by simp
  note tk = take_grows [OF eq nk(3)]
  have "collected f st (k + a) ni'"
    using assms(1,4,6) st ni'(3) tk nk(1) by (auto simp: collected_def split: status.splits)
  moreover have "drop 15 ni' = drop 15 ni"
    using ni'(1) assms(2,4,6) k(1) lbs by (auto simp: blk_write_def split: if_splits)
  moreover have "take (nat (k + a)) f @ drop (nat (p + a)) cp @ rest = f @ w"
    using eq tk nk(1) by (metis append.assoc)
  ultimately show ?thesis
    using bs ni' by blast
qed

lemma ni_copy_round:
  assumes inv: "ni_loop_inv f cp rest w s0 (s, v)" and f: "length f = 15" and cp: "length cp < 2147483648"
    and want: "0 < want" "n_recv_len v + want \<le> 15" "n_status v = STATUS_LEN \<longrightarrow> n_recv_len v + want \<le> 2"
  shows "ni_round K f cp rest w s0 (s, v) (ni_copy cp want (s, v))"
proof -
  let ?k = "n_recv_len v" let ?p = "n_processed v"
  have i: "ni_env s0 s" "\<not> netif_info_vaild s" "tty s = tty s0" "uart_recv_status s = uart_recv_status s0"
    "n_uartDataLen v = 12" "0 \<le> ?p" "0 \<le> n_surplus v" "?p + n_surplus v = int (length cp)"
    "take (nat ?k) f @ drop (nat ?p) cp @ rest = f @ w" "drop 15 (netif_info s) = drop 15 (netif_info s0)"
    and col: "collected f (n_status v) ?k (netif_info s)"
    using inv by (auto simp: ni_loop_inv_def)
  have len: "length (netif_info s) = 64" "0 \<le> ?k" "take (nat ?k) (netif_info s) = take (nat ?k) f"
    using i(1) col by (simp_all add: ni_env_def collected_def)
  show ?thesis
  proof (cases "n_surplus v = 0")
    case True
    have "?k < 15"
      using want by linarith
    with True i col show ?thesis
      by (auto simp: ni_round_def ni_copy_def ni_exit_def ni_done_def ni_waiting_def ni_env_def collected_def)
  next
    case False
    define a where "a = min (n_surplus v) want"
    have a: "0 < a" "a \<le> n_surplus v" "a \<le> want"
      using False i(7) want(1) by (auto simp: a_def)
    have pa: "?p + a \<le> int (length cp)" "?k + a \<le> 15" "n_status v = STATUS_LEN \<longrightarrow> ?k + a \<le> 2"
      using a i(8) want(2,3) by auto
    obtain bs ni where ni: "blk_read cp ?p a = Some bs" "blk_write (netif_info s) ?k bs = Some ni" "length ni = 64"
      "drop 15 ni = drop 15 (netif_info s)" "collected f (n_status v) (?k + a) ni"
      "take (nat (?k + a)) f @ drop (nat (?p + a)) cp @ rest = f @ w"
      using ni_append [OF col len(1) i(6) a(1) pa(1,2) f i(9) pa(3)] by blast
    have "int16 (?k + a) = ?k + a" "int32 (n_surplus v - a) = n_surplus v - a" "int32 (?p + a) = ?p + a"
      using len(2) a i want cp by (auto intro!: int16_id int32_id)
    then have "ni_copy cp want (s, v) = Some (Again (s\<lparr>netif_info := ni\<rparr>, v\<lparr>n_recv_len := ?k + a,
        n_surplus := n_surplus v - a, n_processed := ?p + a\<rparr>))"
      using False ni(1,2) by (simp add: ni_copy_def a_def Let_def)
    then show ?thesis
      using i a ni(3-) by (auto simp: ni_round_def ni_loop_inv_def ni_env_def)
  qed
qed

lemma ni_frame_round:
  assumes inv: "ni_loop_inv f cp rest w s0 (s, v)" and st: "n_status v = STATUS_DATA"
    and f: "f = info_frame addrs" "length addrs = 12" and cp: "length cp < 2147483648"
  shows "ni_round K f cp rest w s0 (s, v) (ni_frame K cp (s, v))"
proof -
  let ?k = "n_recv_len v"
  have fl: "length f = 15" "f ! 14 = SPLIT_CMD"
    using f info_frame_bytes by simp_all
  have i: "ni_env s0 s" "tty s = tty s0" "uart_recv_status s = uart_recv_status s0" "n_uartDataLen v = 12" "0 \<le> n_processed v"
    "n_processed v \<le> int (length cp)" "take (nat ?k) f @ drop (nat (n_processed v)) cp @ rest = f @ w"
    "drop 15 (netif_info s) = drop 15 (netif_info s0)"
    and col: "0 \<le> ?k" "?k \<le> 15" "take (nat ?k) (netif_info s) = take (nat ?k) f"
    using inv st by (auto simp: ni_loop_inv_def collected_def)
  show ?thesis
  proof (cases "?k < 15")
    case True
    with ni_copy_round [OF inv fl(1) cp, of "15 - ?k" K] i(4) st show ?thesis
      by (simp add: ni_frame_def)
  next
    case False
    then have k: "?k = 15" using col by simp
    then have all: "take 15 (netif_info s) = f" using col(3) fl(1) by simp
    have ln: "length (netif_info s) = 64"
      using i(1) by (simp add: ni_env_def)
    have "netif_info s ! 14 = f ! 14"
      using arg_cong [OF all, of "\<lambda>xs. xs ! 14"] by simp
    then have get: "blk_get (netif_info s) 14 = Some SPLIT_CMD"
      using ln fl(2) by (simp add: blk_get_def)
    obtain s' where s': "ni_accept K s = Some s'" "ni_env s0 s'" "netif_info_vaild s'"
      "uart_recv_status s' = uart_recv_status s"
      "tty s' = tty_write K (tty s0) (f @ drop 15 (netif_info s0))"
      "take (15 + min 47 (length (netif_info_text f)) + 1) (netif_info s') = f @ take 47 (netif_info_text f) @ [0]"
      using ni_accept_writes [OF i(1,2) all i(8), of K] by blast
    have "drop (nat (n_processed v)) cp @ rest = w"
      using i(7) k fl(1) by simp
    then show ?thesis
      using s' i k get by (simp add: ni_frame_def ni_round_def ni_done_def)
  qed
qed

lemma ni_step_round:
  assumes inv: "ni_loop_inv f cp rest w s0 (s, v)"
    and f: "f = info_frame addrs" "length addrs = 12" and cp: "length cp < 2147483648"
  shows "ni_round K f cp rest w s0 (s, v) (ni_step K cp (s, v))"
proof -
  let ?k = "n_recv_len v"
  have fl: "length f = 15" "f ! 0 = 12" "f ! Suc 0 = 0"
    using f info_frame_bytes by simp_all
  have col: "collected f (n_status v) ?k (netif_info s)" and dl: "n_uartDataLen v = 12" and env: "ni_env s0 s"
    using inv by (auto simp: ni_loop_inv_def)
  then have k: "0 \<le> ?k" by (simp add: collected_def)
  show ?thesis
  proof (cases "n_status v")
    case STATUS_DATA
    with ni_frame_round [OF inv _ f cp] k show ?thesis by (simp add: ni_step_def)
  next
    case STATUS_SPLIT
    with col show ?thesis by (simp add: collected_def)
  next
    case STATUS_LEN
    show ?thesis
    proof (cases "?k < 2")
      case True
      with ni_copy_round [OF inv fl(1) cp, of "2 - ?k" K] STATUS_LEN k show ?thesis
        by (simp add: ni_step_def)
    next
      case False
      let ?v = "v\<lparr>n_uartDataLen := 12, n_status := STATUS_DATA\<rparr>"
      have two: "?k = 2" "take 2 (netif_info s) = take 2 f"
        using False col STATUS_LEN by (auto simp: collected_def)
      have "netif_info s ! 0 = f ! 0" "netif_info s ! Suc 0 = f ! Suc 0"
        using arg_cong [OF two(2), of "\<lambda>xs. xs ! 0"] arg_cong [OF two(2), of "\<lambda>xs. xs ! Suc 0"] by simp_all
      then have "blk_get (netif_info s) 0 = Some 12" "blk_get (netif_info s) 1 = Some 0"
        using env fl by (simp_all add: blk_get_def ni_env_def)
      moreover have "load_i16 12 0 = 12"
        by (simp add: load_i16_def load_u16_def int16_def)
      ultimately have "ni_step K cp (s, v) = ni_frame K cp (s, ?v)"
        using STATUS_LEN two by (simp add: ni_step_def Let_def)
      moreover have "ni_loop_inv f cp rest w s0 (s, ?v)"
        using inv two STATUS_LEN by (auto simp: ni_loop_inv_def collected_def)
      from ni_frame_round [OF this _ f cp] have "ni_round K f cp rest w s0 (s, ?v) (ni_frame K cp (s, ?v))"
        by simp
      ultimately show ?thesis
        by (auto simp: ni_round_def split: step.splits)
    qed
  qed
qed

lemma ttyio_netif_info_call:
  assumes wait: "ni_waiting f s" and f: "f = info_frame addrs" "length addrs = 12"
    and str: "take (nat (netif_info_recv_len s)) f @ cp @ rest = f @ w"
    and cp: "length cp \<le> 819" and fuel: "length cp < fuel"
  shows "\<exists>r. ttyio_netif_info K fuel cp s = Done r \<and> ni_done K f cp rest w s r"
proof -
  obtain out where out: "recv_dump (recv_output s) cp (int (length cp)) = Some out" "length out = 4096"
    using dump_fits [of "recv_output s" "length cp" cp] wait cp by (auto simp: dumps_same ni_waiting_def)
  let ?s = "s\<lparr>recv_output := out\<rparr>"
  let ?v = "\<lparr>n_status = uart_recv_status s, n_recv_len = netif_info_recv_len s, n_uartDataLen = 12,
    n_processed = 0, n_surplus = int (length cp)\<rparr>"
  have "ni_loop_inv f cp rest w s (?s, ?v)"
    using wait str out(2) by (simp add: ni_loop_inv_def ni_env_def ni_waiting_def)
  then have "\<exists>r. loop fuel (ni_step K cp) (?s, ?v) = Done r \<and> ni_done K f cp rest w s r"
  proof (rule loop_ends [where m = "\<lambda>x. nat (n_surplus (snd x))", rotated])
    fix x :: "'a host \<times> ni_locals"
    assume "ni_loop_inv f cp rest w s x"
    then show "\<exists>y. ni_step K cp x = Some y \<and>
        (case y of Again x' \<Rightarrow> ni_loop_inv f cp rest w s x' \<and> nat (n_surplus (snd x')) < nat (n_surplus (snd x))
         | Exit r \<Rightarrow> ni_done K f cp rest w s r)"
      using ni_step_round [of f cp rest w s "fst x" "snd x", OF _ f] cp by (simp add: ni_round_def)
  qed (use fuel in simp)
  then show ?thesis
    using out(1) by (simp add: ttyio_netif_info_def Let_def)
qed


section \<open>A whole session\<close>

text \<open>The tty layer feeds the entry point of the line discipline, first the configuration, then packets.\<close>

primrec line_feed :: "'t kernel \<Rightarrow> nat \<Rightarrow> nat list \<Rightarrow> byte list \<Rightarrow> 't host \<Rightarrow> (byte list \<times> 't host) outcome" where
  "line_feed K fuel [] w s = Done (w, s)"
| "line_feed K fuel (n # ns) w s =
     (case ttyio_receive_buf2 K fuel (take n w) (Some s) of
        Done (p, Some s') \<Rightarrow> line_feed K fuel ns (drop (nat p) w) s'
      | Done (p, None) \<Rightarrow> Done (drop (nat p) w, s)
      | Faulted \<Rightarrow> Faulted
      | Timeout \<Rightarrow> Timeout)"

lemma line_feed_vaild: "netif_info_vaild s \<Longrightarrow> line_feed K fuel ns w s = tty_feed K fuel ns w s"
proof (induction ns arbitrary: w s)
  case Nil
  then show ?case by simp
next
  case (Cons n ns)
  show ?case
  proof (cases "ttyio_receive_data K fuel (take n w) s")
    case (Done r)
    obtain p s' where r: "r = (p, s')" by (cases r)
    with Done ttyio_receive_data_stable [of K fuel "take n w" s p s'] Cons.prems have "netif_info_vaild s'"
      by (simp add: untouched_def)
    with Done r Cons show ?thesis by (simp add: ttyio_receive_buf2_def)
  qed (use Cons.prems in \<open>simp_all add: ttyio_receive_buf2_def\<close>)
qed

definition session_chunks :: "nat \<Rightarrow> nat list \<Rightarrow> bool" where
  "session_chunks fuel ns \<longleftrightarrow> (\<forall>n\<in>set ns. 1 \<le> n \<and> n \<le> 819 \<and> 3 * n + 3008 \<le> fuel)"

lemma session_chunks_simps [simp]:
  "session_chunks fuel []"
  "session_chunks fuel (n # ns) \<longleftrightarrow> 1 \<le> n \<and> n \<le> 819 \<and> 3 * n + 3008 \<le> fuel \<and> session_chunks fuel ns"
  by (simp_all add: session_chunks_def)

lemma session_chunks_sum: "session_chunks fuel ns \<Longrightarrow> length ns \<le> sum_list ns \<and> chunks_ok fuel m ns"
  by (induction ns) (auto simp: chunks_ok_def)

text \<open>The outcome of a session: the configuration has been echoed and published, and the packets behind it
  have been delivered.\<close>

definition configured :: "'t kernel \<Rightarrow> byte list \<Rightarrow> 't host \<Rightarrow> 't host \<Rightarrow> bool" where
  "configured K f s s' \<longleftrightarrow> netif_info_vaild s' \<and>
     tty s' = tty_write K (tty s) (f @ drop 15 (netif_info s)) \<and>
     take (15 + min 47 (length (netif_info_text f)) + 1) (netif_info s') = f @ take 47 (netif_info_text f) @ [0]"

text \<open>Once the configuration has been accepted, the packets behind it are delivered.\<close>

lemma session_packets:
  assumes K: "skb_kernel_ok K" "allocs_succeed K" and s: "netif_info_vaild s" "recv_skb s = None" "length (dump_output s) = 4096"
    and ds: "\<And>d. d \<in> set ds \<Longrightarrow> ip_packet d" "fw = concat (map (mk_frame SPLIT_DATA) ds)"
    and ns: "session_chunks fuel ns" "length fw \<le> length ns"
  shows "\<exists>s' new. line_feed K fuel ns fw s = Done ([], s') \<and> delivered K s s' new \<and> map skb_bytes new = ds"
proof -
  have h: "host_rx_inv s" "host_mode s = Sync" "held s = []"
    using s by (simp_all add: host_rx_inv_def host_mode_def held_def)
  have ch: "length ns \<le> sum_list ns" "chunks_ok fuel (host_mode s) ns"
    using session_chunks_sum [OF ns(1)] by auto
  then have "length fw \<le> sum_list ns" "ns = [] \<longrightarrow> ds = []"
    using ns(2) ds(2) by (auto simp: neq_Nil_conv)
  from tty_feed_frames [OF K h ds this(2,1) ch(2)] show ?thesis
    unfolding line_feed_vaild [OF s(1)] by blast
qed

lemma line_feed_session:
  assumes K: "skb_kernel_ok K" "allocs_succeed K" and f: "f = info_frame addrs" "length addrs = 12"
    and ds: "\<And>d. d \<in> set ds \<Longrightarrow> ip_packet d" "fw = concat (map (mk_frame SPLIT_DATA) ds)"
  shows "ni_waiting f s \<Longrightarrow> netif_info_recv_len s < 15 \<Longrightarrow>
    take (nat (netif_info_recv_len s)) f @ w = f @ fw \<Longrightarrow> recv_skb s = None \<Longrightarrow> length (dump_output s) = 4096 \<Longrightarrow>
    session_chunks fuel ns \<Longrightarrow> length w \<le> length ns \<Longrightarrow>
    \<exists>s' new. line_feed K fuel ns w s = Done ([], s') \<and> configured K f s s' \<and>
      netif_rx s' = netif_rx s @ new \<and> map skb_bytes new = ds"
proof (induction ns arbitrary: w s)
  case Nil
  have "length (take (nat (netif_info_recv_len s)) f @ w) = length (f @ fw)"
    using Nil.prems(3) by simp
  then show ?case
    using Nil.prems(1,2,7) info_frame_bytes(1) [OF f(2)] f(1) by (auto simp: ni_waiting_def collected_def)
next
  case (Cons n ns)
  let ?cp = "take n w" let ?rest = "drop n w" let ?k = "netif_info_recv_len s"
  have fl: "length f = 15"
    using f info_frame_bytes(1) by simp
  have str: "take (nat ?k) f @ ?cp @ ?rest = f @ fw"
    using Cons.prems(3) by simp
  have lw: "length w > length fw"
  proof -
    have "nat ?k < 15" "length (take (nat ?k) f @ w) = length (f @ fw)"
      using Cons.prems(1-3) by (simp_all add: ni_waiting_def collected_def)
    then show ?thesis using fl by simp
  qed
  have c: "length ?cp \<le> 819" "length ?cp < fuel" "1 \<le> n"
    using Cons.prems(6) by auto
  obtain p s1 where call: "ttyio_netif_info K fuel ?cp s = Done (p, s1)"
    and dn: "ni_done K f ?cp ?rest fw s (p, s1)"
    using ttyio_netif_info_call [OF Cons.prems(1) f str c(1,2), of K] by auto
  have nv: "\<not> netif_info_vaild s"
    using Cons.prems(1) by (simp add: ni_waiting_def)
  have step: "line_feed K fuel (n # ns) w s = line_feed K fuel ns (drop (nat p) w) s1"
    using call nv by (simp add: ttyio_receive_buf2_def)
  have p: "0 \<le> p" "nat p \<le> length ?cp"
    using dn by (auto simp: ni_done_def)
  then have dw: "drop (nat p) ?cp @ ?rest = drop (nat p) w"
    by (metis append_take_drop_id drop_append diff_is_0_eq drop0)
  have env: "recv_skb s1 = None" "length (dump_output s1) = 4096" "netif_rx s1 = netif_rx s"
    using dn Cons.prems(4,5) by (auto simp: ni_done_def ni_env_def)
  show ?case
  proof (cases "netif_info_vaild s1")
    case True
    then have a: "drop (nat p) w = fw" and cf: "configured K f s s1"
      using dn dw by (auto simp: ni_done_def configured_def)
    have "length fw \<le> length ns" "session_chunks fuel ns"
      using lw Cons.prems(6,7) by simp_all
    from session_packets [OF K True env(1,2) ds this(2,1)] show ?thesis
      using step a cf env(3) by (auto simp: configured_def delivered_def)
  next
    case False
    then have w: "p = int (length ?cp)" "tty s1 = tty s \<and> drop 15 (netif_info s1) = drop 15 (netif_info s)" "ni_waiting f s1" "netif_info_recv_len s1 < 15"
      "take (nat (netif_info_recv_len s1)) f @ ?rest = f @ fw"
      using dn by (auto simp: ni_done_def)
    have "drop (nat p) w = ?rest"
      using w(1) by (cases "n \<le> length w") auto
    moreover have "length ?rest \<le> length ns"
      using Cons.prems(7) c(3) lw by simp
    ultimately obtain s' new where "line_feed K fuel ns (drop (nat p) w) s1 = Done ([], s')" "configured K f s1 s'"
      "netif_rx s' = netif_rx s1 @ new" "map skb_bytes new = ds"
      using Cons.IH [OF w(3,4,5) env(1,2)] Cons.prems(6) by auto
    then show ?thesis
      using step w(2) env(3) by (auto simp: configured_def)
  qed
qed


section \<open>A receiver that is stuck\<close>

lemma load_i16_12:
  assumes "b \<noteq> 0"
  shows "load_i16 12 b \<noteq> 12"
proof -
  have u: "1 \<le> uint b" "uint b < 256"
    using assms uint_byte_range [of b] uint_0_iff [of b] by linarith+
  have val: "load_i16 12 b = (32780 + 256 * uint b) mod 65536 - 32768"
    by (simp add: load_i16_def load_u16_def int16_def)
  show ?thesis
  proof (cases "uint b < 128")
    case True
    with u have "(32780 + 256 * uint b) mod 65536 = 32780 + 256 * uint b"
      by (intro mod_pos_pos_trivial) simp_all
    with val u show ?thesis by simp
  next
    case False
    have "(32780 + 256 * uint b) mod 65536 = (32780 + 256 * uint b - 65536) mod 65536"
      using mod_add_self2 [of "32780 + 256 * uint b - 65536" 65536] by (simp add: algebra_simps)
    also have "\<dots> = 32780 + 256 * uint b - 65536"
      using False u by (intro mod_pos_pos_trivial) simp_all
    finally show ?thesis using val u by simp
  qed
qed

definition ni_stuck :: "byte \<Rightarrow> 't host \<times> ni_locals \<Rightarrow> bool" where
  "ni_stuck b = (\<lambda>(s, v). n_recv_len v = 2 \<and> n_status v \<noteq> STATUS_DATA \<and> length (recv_output s) = 4096 \<and>
     length (netif_info s) = 64 \<and> take 2 (netif_info s) = [12, b])"

lemma ni_stuck_step:
  assumes b: "b \<noteq> 0" "b \<noteq> 12" and "ni_stuck b x"
  shows "\<exists>x'. ni_step K cp x = Some (Again x') \<and> ni_stuck b x'"
proof -
  obtain s v where x: "x = (s, v)" by (cases x)
  have st: "n_recv_len v = 2" "n_status v \<noteq> STATUS_DATA" "length (recv_output s) = 4096"
    and ni: "length (netif_info s) = 64" "take 2 (netif_info s) = [12, b]"
    using assms(3) x by (auto simp: ni_stuck_def)
  obtain r where r: "netif_info s = 12 # b # r"
    using ni by (metis append_Cons append_Nil append_take_drop_id)
  have scan1: "scan (netif_info s) 12 1 2 = Some None" and scan0: "scan (netif_info s) 12 0 2 = Some (Some 1)"
    using scan_window [of 1 2 "netif_info s" 12] scan_window [of 0 2 "netif_info s" 12] ni b
    by (simp_all add: drop_take r)
  show ?thesis
  proof (cases "n_status v")
    case STATUS_LEN
    have "blk_get (netif_info s) 0 = Some 12" "blk_get (netif_info s) 1 = Some b"
      by (simp_all add: blk_get_def r)
    moreover have "load_i16 12 b \<noteq> 12"
      using b(1) by (rule load_i16_12)
    ultimately show ?thesis
      using STATUS_LEN st ni scan1 x by (simp add: ni_step_def Let_def ni_stuck_def)
  next
    case STATUS_DATA
    with st show ?thesis by simp
  next
    case STATUS_SPLIT
    obtain out where out: "recv_dump (recv_output s) (netif_info s) 2 = Some out" "length out = 4096"
      using dump_fits [OF st(3), of 2 "netif_info s"] ni by (auto simp: dumps_same)
    obtain out' where out': "recv_dump out (netif_info s) 2 = Some out'" "length out' = 4096"
      using dump_fits [OF out(2), of 2 "netif_info s"] ni by (auto simp: dumps_same)
    have mv: "blk_move (netif_info s) 0 0 2 = Some (netif_info s)"
      using ni by (simp add: blk_move_def blk_read_def blk_write_def r)
    show ?thesis
      using STATUS_SPLIT st ni scan0 out out' mv x
      by (simp add: ni_step_def ni_resync_def ni_shift_def Let_def int16_def ni_stuck_def)
  qed
qed


section \<open>Properties\<close>

text \<open>C10: a whole session of the line discipline. The wire carries the configuration frame and behind it the
  frames of the packets \<open>ds\<close>, in chunks of any sizes between 1 and 819 bytes. Every call returns; the
  configuration is echoed to the firmware, together with 49 zero bytes of the buffer behind it, and
  published as text in dotted notation (cut after 47 characters), and then the packets are delivered in
  order. No byte is left over.\<close>

theorem line_session:
  assumes "skb_kernel_ok K" "allocs_succeed K" "length addrs = 12" "\<And>d. d \<in> set ds \<Longrightarrow> ip_packet d"
    "session_chunks fuel ns" "length (info_frame addrs @ concat (map (mk_frame SPLIT_DATA) ds)) \<le> length ns"
  shows "\<exists>s'. line_feed K fuel ns (info_frame addrs @ concat (map (mk_frame SPLIT_DATA) ds)) (host_init t) = Done ([], s') \<and>
    netif_info_vaild s' \<and> tty s' = tty_write K t (info_frame addrs @ replicate 49 0) \<and>
    take (15 + min 47 (length (netif_info_text (info_frame addrs))) + 1) (netif_info s') =
      info_frame addrs @ take 47 (netif_info_text (info_frame addrs)) @ [0] \<and>
    map skb_bytes (netif_rx s') = ds"
proof -
  let ?w = "info_frame addrs @ concat (map (mk_frame SPLIT_DATA) ds)"
  have "ni_waiting (info_frame addrs) (host_init t)"
    by (simp add: ni_waiting_def host_init_def collected_def)
  moreover have "netif_info_recv_len (host_init t) = 0" "recv_skb (host_init t) = None"
    "length (dump_output (host_init t)) = 4096"
    by (simp_all add: host_init_def)
  ultimately obtain s' new where "line_feed K fuel ns ?w (host_init t) = Done ([], s')"
    "configured K (info_frame addrs) (host_init t) s'" "netif_rx s' = netif_rx (host_init t) @ new" "map skb_bytes new = ds"
    using line_feed_session [of K _ addrs ds "concat (map (mk_frame SPLIT_DATA) ds)" "host_init t" ?w fuel ns,
        OF assms(1,2) refl assms(3)] assms(4-6)
    by auto
  then show ?thesis
    by (auto simp: configured_def host_init_def)
qed

lemma session_chunks_replicate: "1 \<le> k \<Longrightarrow> k \<le> 819 \<Longrightarrow> 3 * k + 3008 \<le> fuel \<Longrightarrow> session_chunks fuel (replicate n k)"
  by (simp add: session_chunks_def)

theorem line_session_witness:
  "\<exists>s'. line_feed plain_kernel 3100 (replicate 38 7)
      (info_frame [192, 168, 1, 2, 255, 255, 255, 0, 192, 168, 1, 1] @
        concat (map (mk_frame SPLIT_DATA) [replicate 20 7])) (host_init (100, [])) = Done ([], s') \<and>
    netif_info_vaild s' \<and>
    tty s' = tty_write plain_kernel (100, []) (info_frame [192, 168, 1, 2, 255, 255, 255, 0, 192, 168, 1, 1] @ replicate 49 0) \<and>
    take (15 + min 47 (length (netif_info_text (info_frame [192, 168, 1, 2, 255, 255, 255, 0, 192, 168, 1, 1]))) + 1)
        (netif_info s') =
      info_frame [192, 168, 1, 2, 255, 255, 255, 0, 192, 168, 1, 1] @
      take 47 (netif_info_text (info_frame [192, 168, 1, 2, 255, 255, 255, 0, 192, 168, 1, 1])) @ [0] \<and>
    map skb_bytes (netif_rx s') = [replicate 20 7]"
proof -
  have "allocs_succeed plain_kernel"
    by (simp add: allocs_succeed_def plain_kernel_def)
  then show ?thesis
    by (intro line_session)
      (simp_all add: plain_kernel_ok ip_packet_def link_consts session_chunks_replicate info_frame_def)
qed

text \<open>C30: the driver can loop forever in interrupt context. When the two bytes of the length are 12 and
  anything but 0 or 12, as after one wrong byte on the wire, the search for the next 12 finds the same
  byte again and again: no amount of fuel ends the call.\<close>

theorem ttyio_netif_info_hangs:
  assumes "length (recv_output s) = 4096" "length (netif_info s) = 64" "uart_recv_status s = STATUS_LEN"
    "netif_info_recv_len s = 0" "b \<noteq> 0" "b \<noteq> 12"
  shows "ttyio_netif_info K fuel [12, b] s = Timeout"
proof -
  obtain out where out: "recv_dump (recv_output s) [12, b] 2 = Some out" "length out = 4096"
    using dump_fits [of "recv_output s" 2 "[12, b]"] assms(1) by (auto simp: dumps_same)
  let ?s = "s\<lparr>recv_output := out\<rparr>"
  let ?v = "\<lparr>n_status = STATUS_LEN, n_recv_len = 0, n_uartDataLen = 12, n_processed = 0, n_surplus = 2\<rparr>"
  have "blk_write (netif_info s) 0 [12, b] = Some ([12, b] @ drop 2 (netif_info s))"
    using assms(2) by (simp add: blk_write_def numeral_2_eq_2)
  then have first: "ni_step K [12, b] (?s, ?v) = Some (Again (?s\<lparr>netif_info := [12, b] @ drop 2 (netif_info s)\<rparr>,
      ?v\<lparr>n_recv_len := 2, n_surplus := 0, n_processed := 2\<rparr>))"
    by (simp add: ni_step_def ni_copy_def Let_def blk_read_def int16_def int32_def)
  let ?x = "(?s\<lparr>netif_info := [12, b] @ drop 2 (netif_info s)\<rparr>, ?v\<lparr>n_recv_len := 2, n_surplus := 0, n_processed := 2\<rparr>)"
  have "ni_stuck b ?x"
    using assms(2) out(2) by (simp add: ni_stuck_def)
  with ni_stuck_step [OF assms(5,6)] have "loop n (ni_step K [12, b]) ?x = Timeout" for n
    by (rule loop_forever)
  then have "loop n (ni_step K [12, b]) (?s, ?v) = Timeout" for n
    using first by (cases n) simp_all
  then show ?thesis
    using out(1) assms(3,4) by (simp add: ttyio_netif_info_def)
qed

theorem ttyio_netif_info_hangs_witness:
  "ttyio_netif_info plain_kernel 1000000 [12, 5] (host_init (0, [])) = Timeout"
  by (rule ttyio_netif_info_hangs) (simp_all add: host_init_def)

end
