(* ===== verification/Host_Netdev.thy ===== *)
theory Host_Netdev
  imports Host_Info
begin

text \<open>
  The network device of the driver, \<open>uart_wifi_driver/netdev.c\<close>, and \<open>ttyio_init\<close> of \<open>uart.c\<close>: sending
  packets, opening and stopping the device, and the work handler that resets the chip, hands it the
  credentials and waits for the link.
\<close>

section \<open>Sending\<close>

datatype netdev_tx = NETDEV_TX_OK | NETDEV_TX_BUSY

text \<open>A packet to send: the linear part with the MAC header, and the page fragments.\<close>

record tx_skb =
  linear :: "byte list"
  frags :: "byte list list"

definition tx_len :: "tx_skb \<Rightarrow> int" where
  "tx_len skb = int (length (linear skb)) + (\<Sum>f\<leftarrow>frags skb. int (length f))"

primrec write_frags :: "'t kernel \<Rightarrow> 't \<Rightarrow> byte list list \<Rightarrow> 't" where
  "write_frags K t [] = t"
| "write_frags K t (f # fs) = write_frags K (tty_write K t f) fs"

definition uart_wifi_xmit :: "'t kernel \<Rightarrow> tx_skb \<Rightarrow> 't host \<Rightarrow> netdev_tx \<times> 't host" where
  "uart_wifi_xmit K skb s =
     (let send_len = uint16 (tx_len skb - ETH_HLEN) in
      if tty_write_room K (tty s) < send_len + 3
      then (NETDEV_TX_BUSY, s\<lparr>queue_stopped := True, TTY_DO_WRITE_WAKEUP := True\<rparr>)
      else
        let linear' = skb_pull_inline K (linear skb) ETH_HLEN;
            t = tty_write K (tty s) (store_u16 send_len);
            t = tty_write K t linear';
            t = write_frags K t (frags skb);
            t = tty_write K t [SPLIT_DATA]
        in (NETDEV_TX_OK, s\<lparr>tty := t, tx_packets := tx_packets s + 1, tx_bytes := tx_bytes s + send_len\<rparr>))"

definition uart_wifi_stats64 :: "'t host \<Rightarrow> int \<times> int \<times> int \<times> int" where
  "uart_wifi_stats64 s = (tx_packets s, tx_bytes s, rx_packets s, rx_bytes s)"


section \<open>The link\<close>

definition gpio_irq_handler :: "'t host \<Rightarrow> 't host" where
  "gpio_irq_handler s = s\<lparr>work_pending := True\<rparr>"

datatype work_end = LinkUp | Stopped | Waiting

text \<open>What the handler sees of its surroundings in one round: the level of the interrupt pin, and the value
  of \<open>work_hold\<close> at the ten polls.\<close>

record work_env =
  gpio_value :: int
  holds :: "bool list"

definition work_provision :: "'t kernel \<Rightarrow> int \<Rightarrow> int \<Rightarrow> 't host \<Rightarrow> 't host option" where
  \<comment> \<open>flush, pulse the reset line, write the two credential frames\<close>
  "work_provision K ssid_len password_len s = do {
     let t = tty_flush_buffer K (tty s);
     name \<leftarrow> blk_read (ssid s) 0 (ssid_len + 3);
     let t = tty_write K t name;
     pw \<leftarrow> blk_read (password s) 0 (password_len + 3);
     let t = tty_write K t pw;
     Some (s\<lparr>tty := t, gpio_reset := True\<rparr>) }"

primrec work_loop :: "'t kernel \<Rightarrow> int \<Rightarrow> int \<Rightarrow> work_env list \<Rightarrow> 't host \<Rightarrow> (work_end \<times> 't host) option" where
  "work_loop K ssid_len password_len [] s = Some (Waiting, s)"
| "work_loop K ssid_len password_len (e # es) s =
     (if \<not> force_reset s \<and> gpio_value e = 0
      then Some (LinkUp, s\<lparr>carrier_ok := True, queue_stopped := False\<rparr>)
      else do {
        s \<leftarrow> work_provision K ssid_len password_len
              (if force_reset s then s\<lparr>force_reset := False\<rparr>
               else s\<lparr>uart_recv_status := STATUS_LEN, netif_info_recv_len := 0, netif_info_vaild := False\<rparr>);
        if False \<in> set (take 10 (holds e)) then Some (Stopped, s)
        else work_loop K ssid_len password_len es s })"

definition load_u16_at :: "byte list \<Rightarrow> int option" where
  "load_u16_at blk = do { lo \<leftarrow> blk_get blk 0; hi \<leftarrow> blk_get blk 1; Some (load_u16 lo hi) }"

definition esp8266ex_init_work_handler :: "'t kernel \<Rightarrow> work_env list \<Rightarrow> 't host \<Rightarrow> (work_end \<times> 't host) option" where
  "esp8266ex_init_work_handler K es s = do {
     ssid_len \<leftarrow> load_u16_at (ssid s);
     password_len \<leftarrow> load_u16_at (password s);
     work_loop K ssid_len password_len es (s\<lparr>work_pending := False\<rparr>) }"


section \<open>Opening and stopping\<close>

definition EINVAL :: int where "EINVAL = 22"

definition ENODEV :: int where "ENODEV = 19"

text \<open>What the tty core answers.\<close>

record tty_answers =
  kopen_err :: int
  tty_has_ops :: bool
  open_ret :: int
  set_ldisc_ret :: int
  tflags :: termios_flags
  encode_baud_rate :: "ktermios \<Rightarrow> int \<Rightarrow> int \<Rightarrow> ktermios"

definition ttyio_init :: "tty_answers \<Rightarrow> 't host \<Rightarrow> int \<times> 't host" where
  "ttyio_init a s =
     (if kopen_err a \<noteq> 0 then (kopen_err a, s)
      else let s = s\<lparr>tty_opened := True\<rparr>;
               ret = (if tty_has_ops a then open_ret a else - ENODEV) in
        if ret \<noteq> 0 then (ret, s)
        else let s = s\<lparr>tty_termios := Some (newtio (tflags a) (encode_baud_rate a))\<rparr> in
          if set_ldisc_ret a \<noteq> 0 then (set_ldisc_ret a, s)
          else (0, s\<lparr>ldisc_attached := True\<rparr>))"

definition uart_wifi_open :: "tty_answers \<Rightarrow> int \<Rightarrow> 't host \<Rightarrow> (int \<times> 't host) option" where
  "uart_wifi_open a request_irq s = do {
     ssid_len \<leftarrow> load_u16_at (ssid s);
     password_len \<leftarrow> load_u16_at (password s);
     if ssid_len = 0 then Some (- EINVAL, s)
     else if password_len = 0 then Some (- EINVAL, s)
     else
       let s = s\<lparr>carrier_ok := False\<rparr>;
           (ret, s) = ttyio_init a s
       in if ret \<noteq> 0 then Some (- EINVAL, s)
       else
         let s = s\<lparr>work_hold := True, force_reset := True, uart_recv_status := STATUS_LEN,
                   netif_info_recv_len := 0, netif_info_vaild := False\<rparr>
         in if request_irq \<noteq> 0 then Some (request_irq, s)
         else Some (0, s\<lparr>irq_requested := True, work_pending := True\<rparr>) }"

definition uart_wifi_stop :: "'t host \<Rightarrow> int \<times> 't host" where
  "uart_wifi_stop s = (0, s\<lparr>gpio_reset := False, irq_requested := False, carrier_ok := False,
     queue_stopped := True, netif_info_vaild := False, work_hold := False, work_pending := False,
     tty_opened := False, ldisc_attached := False\<rparr>)"

definition netdev_init :: "bool \<Rightarrow> bool \<Rightarrow> 't host \<Rightarrow> int \<times> 't host" where
  \<comment> \<open>whether the device can be allocated and registered\<close>
  "netdev_init alloc_ok register_ok s =
     (let s = s\<lparr>rx_packets := 0, rx_bytes := 0, tx_packets := 0, tx_bytes := 0\<rparr> in
      if \<not> alloc_ok then (-1, s) else if \<not> register_ok then (-1, s) else (0, s))"

definition uart_wifi_receive :: "'t kernel \<Rightarrow> byte list \<Rightarrow> 't host \<Rightarrow> 't host option" where
  \<comment> \<open>an older receive path that nothing calls; the answer of the allocator is not checked\<close>
  "uart_wifi_receive K buf s = do {
     skb \<leftarrow> netdev_alloc_skb K (skb_allocs s) (ETH_HLEN + int (length buf));
     mem \<leftarrow> blk_write (skb_mem skb) (skb_data skb + ETH_HLEN) buf;
     mem \<leftarrow> blk_write mem (skb_data skb + 12) (htons ETH_P_IP);
     Some (s\<lparr>skb_allocs := Suc (skb_allocs s),
             netif_rx := netif_rx s @ [skb\<lparr>skb_protocol := htons ETH_P_IP, skb_mem := mem\<rparr>],
             rx_packets := rx_packets s + 1, rx_bytes := rx_bytes s + int (length buf)\<rparr>) }"


definition tty_grants :: "tty_answers \<Rightarrow> bool" where
  \<comment> \<open>the tty can be opened and given the line discipline\<close>
  "tty_grants a \<longleftrightarrow> kopen_err a = 0 \<and> tty_has_ops a \<and> open_ret a = 0 \<and> set_ldisc_ret a = 0"

definition plain_answers :: tty_answers where
  "plain_answers = \<lparr>kopen_err = 0, tty_has_ops = True, open_ret = 0, set_ldisc_ret = 0, tflags = linux_flags,
     encode_baud_rate = store_speed\<rparr>"

lemma plain_grants: "tty_grants plain_answers"
  by (simp add: tty_grants_def plain_answers_def)

lemma uart_wifi_open_grants:
  assumes "load_u16_at (ssid s) = Some n" "load_u16_at (password s) = Some m" "n \<noteq> 0" "m \<noteq> 0" "tty_grants a"
  shows "\<exists>s'. uart_wifi_open a 0 s = Some (0, s') \<and> ssid s' = ssid s \<and> password s' = password s \<and> force_reset s' \<and>
    tty_termios s' = Some (newtio (tflags a) (encode_baud_rate a))"
  using assms by (simp add: uart_wifi_open_def ttyio_init_def tty_grants_def Let_def)


section \<open>What reaches the wire\<close>

lemma tty_write_fits:
  assumes "tty_ok K" "int (length bs) \<le> tty_write_room K t"
  shows "tty_sent K (tty_write K t bs) = tty_sent K t @ bs"
    and "tty_write_room K (tty_write K t bs) = tty_write_room K t - int (length bs)"
  using assms unfolding tty_ok_def by auto

lemma write_frags_fits:
  assumes "tty_ok K" "int (length (concat fs)) \<le> tty_write_room K t"
  shows "tty_sent K (write_frags K t fs) = tty_sent K t @ concat fs \<and>
    tty_write_room K (write_frags K t fs) = tty_write_room K t - int (length (concat fs))"
  using assms(2)
proof (induction fs arbitrary: t)
  case Nil
  then show ?case by simp
next
  case (Cons f fs)
  then have "int (length f) \<le> tty_write_room K t" by simp
  with tty_write_fits [OF assms(1)] Cons show ?case by simp
qed

text \<open>The IP packet of a socket buffer: all its bytes behind the MAC header.\<close>

definition tx_packet :: "tx_skb \<Rightarrow> byte list" where
  "tx_packet skb = drop 14 (linear skb) @ concat (frags skb)"

definition tx_ok :: "tx_skb \<Rightarrow> bool" where
  \<comment> \<open>the kernel keeps the MAC header in the linear part, and the length fits its field\<close>
  "tx_ok skb \<longleftrightarrow> 14 \<le> length (linear skb) \<and> length (tx_packet skb) < 65536"

lemma tx_len_packet: "tx_ok skb \<Longrightarrow> tx_len skb - ETH_HLEN = int (length (tx_packet skb))"
proof -
  assume "tx_ok skb"
  moreover have "(\<Sum>f\<leftarrow>fs. int (length f)) = int (length (concat fs))" for fs :: "byte list list"
    by (induction fs) simp_all
  ultimately show ?thesis
    by (simp add: tx_len_def tx_packet_def tx_ok_def ETH_HLEN_def of_nat_diff)
qed

lemma uart_wifi_xmit_cases:
  assumes K: "tty_ok K" "tx_kernel_ok K" and skb: "tx_ok skb"
  shows "if tty_write_room K (tty s) < int (length (tx_packet skb)) + 3
    then uart_wifi_xmit K skb s = (NETDEV_TX_BUSY, s\<lparr>queue_stopped := True, TTY_DO_WRITE_WAKEUP := True\<rparr>)
    else \<exists>t. uart_wifi_xmit K skb s = (NETDEV_TX_OK, s\<lparr>tty := t, tx_packets := tx_packets s + 1,
        tx_bytes := tx_bytes s + int (length (tx_packet skb))\<rparr>) \<and>
      tty_sent K t = tty_sent K (tty s) @ mk_frame SPLIT_DATA (tx_packet skb) \<and>
      tty_write_room K t = tty_write_room K (tty s) - int (length (mk_frame SPLIT_DATA (tx_packet skb)))"
proof -
  let ?p = "tx_packet skb" let ?n = "int (length ?p)"
  have n: "uint16 (tx_len skb - ETH_HLEN) = ?n"
    using tx_len_packet [OF skb] skb by (simp add: uint16_id tx_ok_def)
  have pull: "skb_pull_inline K (linear skb) ETH_HLEN = drop 14 (linear skb)"
    using K(2) skb by (simp add: tx_kernel_ok_def ETH_HLEN_def tx_ok_def)
  show ?thesis
  proof (cases "tty_write_room K (tty s) < ?n + 3")
    case True
    then show ?thesis by (simp add: uart_wifi_xmit_def n Let_def)
  next
    case False
    let ?t1 = "tty_write K (tty s) (store_u16 ?n)"
    let ?t2 = "tty_write K ?t1 (drop 14 (linear skb))"
    let ?t3 = "write_frags K ?t2 (frags skb)"
    let ?t4 = "tty_write K ?t3 [SPLIT_DATA]"
    have len: "?n = int (length (drop 14 (linear skb))) + int (length (concat (frags skb)))"
      by (simp add: tx_packet_def)
    have 1: "tty_sent K ?t1 = tty_sent K (tty s) @ store_u16 ?n" "tty_write_room K ?t1 = tty_write_room K (tty s) - 2"
      using tty_write_fits [OF K(1), of "store_u16 ?n" "tty s"] False by simp_all
    have 2: "tty_sent K ?t2 = tty_sent K ?t1 @ drop 14 (linear skb)"
      "tty_write_room K ?t2 = tty_write_room K ?t1 - int (length (drop 14 (linear skb)))"
      using tty_write_fits [OF K(1), of "drop 14 (linear skb)" ?t1] False len 1 by linarith+
    have 3: "tty_sent K ?t3 = tty_sent K ?t2 @ concat (frags skb)"
      "tty_write_room K ?t3 = tty_write_room K ?t2 - int (length (concat (frags skb)))"
      using write_frags_fits [OF K(1), of "frags skb" ?t2] False len 1 2 by linarith+
    have 4: "tty_sent K ?t4 = tty_sent K ?t3 @ [SPLIT_DATA]" "tty_write_room K ?t4 = tty_write_room K ?t3 - 1"
      using tty_write_fits [OF K(1), of "[SPLIT_DATA]" ?t3] False len 1 2 3 by simp_all
    have "tty_sent K ?t4 = tty_sent K (tty s) @ mk_frame SPLIT_DATA ?p"
      using 1 2 3 4 by (simp add: mk_frame_def tx_packet_def)
    moreover have "tty_write_room K ?t4 = tty_write_room K (tty s) - int (length (mk_frame SPLIT_DATA ?p))"
      using 1 2 3 4 len by simp
    moreover have "uart_wifi_xmit K skb s = (NETDEV_TX_OK, s\<lparr>tty := ?t4, tx_packets := tx_packets s + 1,
        tx_bytes := tx_bytes s + ?n\<rparr>)"
      using False by (simp add: uart_wifi_xmit_def n pull Let_def)
    ultimately show ?thesis
      using False by auto
  qed
qed

text \<open>The network core sends packet after packet; a busy one it keeps and offers again. Between two packets
  the serial driver makes room, which is a change of the tty that does not touch what it has taken.\<close>

datatype 't tx_action = Xmit tx_skb | Drain "'t \<Rightarrow> 't"

primrec xmit_run :: "'t kernel \<Rightarrow> 't tx_action list \<Rightarrow> tx_skb list \<times> 't host \<Rightarrow> tx_skb list \<times> 't host" where
  \<comment> \<open>the packets taken so far and the state\<close>
  "xmit_run K [] x = x"
| "xmit_run K (a # as) x =
     (case a of
        Xmit skb \<Rightarrow>
          (case uart_wifi_xmit K skb (snd x) of
             (NETDEV_TX_OK, s) \<Rightarrow> xmit_run K as (fst x @ [skb], s)
           | (NETDEV_TX_BUSY, s) \<Rightarrow> xmit_run K as (fst x, s))
      | Drain f \<Rightarrow> xmit_run K as (fst x, ttyio_write_wakeup ((snd x)\<lparr>tty := f (tty (snd x))\<rparr>)))"

definition actions_ok :: "'t kernel \<Rightarrow> 't tx_action list \<Rightarrow> bool" where
  "actions_ok K as \<longleftrightarrow> (\<forall>a\<in>set as. case a of
     Xmit skb \<Rightarrow> tx_ok skb | Drain f \<Rightarrow> (\<forall>t. tty_sent K (f t) = tty_sent K t))"

lemma xmit_run_frames:
  assumes K: "tty_ok K" "tx_kernel_ok K"
  shows "actions_ok K as \<Longrightarrow> \<exists>new s'. xmit_run K as (acc, s) = (acc @ new, s') \<and>
    tty_sent K (tty s') = tty_sent K (tty s) @ concat (map (\<lambda>p. mk_frame SPLIT_DATA (tx_packet p)) new) \<and>
    tx_packets s' = tx_packets s + int (length new) \<and>
    tx_bytes s' = tx_bytes s + (\<Sum>p\<leftarrow>new. int (length (tx_packet p)))"
proof (induction as arbitrary: acc s)
  case Nil
  then show ?case by (intro exI [of _ "[]"]) simp
next
  case (Cons a as)
  then have as: "actions_ok K as" by (simp add: actions_ok_def)
  show ?case
  proof (cases a)
    case (Drain f)
    let ?s = "ttyio_write_wakeup (s\<lparr>tty := f (tty s)\<rparr>)"
    have "tty_sent K (tty ?s) = tty_sent K (tty s)" "tx_packets ?s = tx_packets s" "tx_bytes ?s = tx_bytes s"
      using Cons.prems Drain by (simp_all add: actions_ok_def ttyio_write_wakeup_def Let_def)
    with Cons.IH [OF as, of acc ?s] Drain show ?thesis by simp
  next
    case (Xmit skb)
    have skb: "tx_ok skb"
      using Cons.prems Xmit by (simp add: actions_ok_def)
    show ?thesis
    proof (cases "tty_write_room K (tty s) < int (length (tx_packet skb)) + 3")
      case True
      with uart_wifi_xmit_cases [OF K skb, of s] Cons.IH [OF as, of acc "s\<lparr>queue_stopped := True, TTY_DO_WRITE_WAKEUP := True\<rparr>"] Xmit
      show ?thesis by simp
    next
      case False
      with uart_wifi_xmit_cases [OF K skb, of s] obtain t where
        x: "uart_wifi_xmit K skb s = (NETDEV_TX_OK, s\<lparr>tty := t, tx_packets := tx_packets s + 1,
          tx_bytes := tx_bytes s + int (length (tx_packet skb))\<rparr>)"
          "tty_sent K t = tty_sent K (tty s) @ mk_frame SPLIT_DATA (tx_packet skb)"
        by auto
      let ?s = "s\<lparr>tty := t, tx_packets := tx_packets s + 1, tx_bytes := tx_bytes s + int (length (tx_packet skb))\<rparr>"
      obtain new s' where "xmit_run K as (acc @ [skb], ?s) = ((acc @ [skb]) @ new, s')"
        "tty_sent K (tty s') = tty_sent K t @ concat (map (\<lambda>p. mk_frame SPLIT_DATA (tx_packet p)) new)"
        "tx_packets s' = tx_packets s + 1 + int (length new)"
        "tx_bytes s' = tx_bytes s + int (length (tx_packet skb)) + (\<Sum>p\<leftarrow>new. int (length (tx_packet p)))"
        using Cons.IH [OF as, of "acc @ [skb]" ?s] by auto
      then show ?thesis
        using x Xmit by (intro exI [of _ "skb # new"] exI [of _ s']) simp
    qed
  qed
qed


section \<open>Provisioning\<close>

text \<open>A credential block starts with the frame of a zero-terminated text.\<close>

definition credential :: "byte list \<Rightarrow> byte list \<Rightarrow> bool" where
  "credential blk name \<longleftrightarrow> length name < 65535 \<and> length name + 4 \<le> length blk \<and>
     take (length name + 4) blk = mk_frame SPLIT_CMD (name @ [0])"

lemma credential_reads:
  assumes "credential blk name"
  shows "load_u16_at blk = Some (int (length name) + 1)"
    and "blk_read blk 0 (int (length name) + 1 + 3) = Some (mk_frame SPLIT_CMD (name @ [0]))"
proof -
  have c: "length name + 4 \<le> length blk" "take (length name + 4) blk = mk_frame SPLIT_CMD (name @ [0])" "length name < 65535"
    using assms by (auto simp: credential_def)
  have n: "nat (int (length name) + 1 + 3) = length name + 4"
    by linarith
  show "blk_read blk 0 (int (length name) + 1 + 3) = Some (mk_frame SPLIT_CMD (name @ [0]))"
    using c(1,2) n by (simp add: blk_read_def)
  have "blk ! 0 = mk_frame SPLIT_CMD (name @ [0]) ! 0" "blk ! 1 = mk_frame SPLIT_CMD (name @ [0]) ! 1"
    using arg_cong [OF c(2), of "\<lambda>xs. xs ! 0"] arg_cong [OF c(2), of "\<lambda>xs. xs ! 1"] by simp_all
  then have "blk ! 0 = word_of_int (int (length name) + 1)" "blk ! Suc 0 = word_of_int ((int (length name) + 1) div 256)"
    by (simp_all add: mk_frame_def store_u16_def add.commute)
  moreover have "load_u16 (word_of_int (int (length name) + 1)) (word_of_int ((int (length name) + 1) div 256)) =
      int (length name) + 1"
    using c(3) by (subst load_u16_store) (simp add: uint16_id)
  ultimately show "load_u16_at blk = Some (int (length name) + 1)"
    using c(1) by (auto simp: load_u16_at_def blk_get_def)
qed

definition flush_room :: "'t kernel \<Rightarrow> int \<Rightarrow> bool" where
  \<comment> \<open>a flushed serial port has room for \<open>n\<close> bytes\<close>
  "flush_room K n \<longleftrightarrow> (\<forall>t. n \<le> tty_write_room K (tty_flush_buffer K t))"

definition credential_frames :: "byte list \<Rightarrow> byte list \<Rightarrow> byte list" where
  "credential_frames name pw = mk_frame SPLIT_CMD (name @ [0]) @ mk_frame SPLIT_CMD (pw @ [0])"

lemma work_provision_sends:
  assumes K: "tty_ok K" "flush_room K (int (length name + length pw + 8))"
    and c: "credential (ssid s) name" "credential (password s) pw"
  shows "\<exists>t. work_provision K (int (length name) + 1) (int (length pw) + 1) s = Some (s\<lparr>tty := t, gpio_reset := True\<rparr>) \<and>
    tty_sent K t = tty_sent K (tty_flush_buffer K (tty s)) @ credential_frames name pw"
proof -
  let ?f = "tty_flush_buffer K (tty s)"
  let ?n = "mk_frame SPLIT_CMD (name @ [0])" let ?p = "mk_frame SPLIT_CMD (pw @ [0])"
  have room: "int (length name + length pw + 8) \<le> tty_write_room K ?f"
    using K(2) by (simp add: flush_room_def)
  have 1: "tty_sent K (tty_write K ?f ?n) = tty_sent K ?f @ ?n"
    "tty_write_room K (tty_write K ?f ?n) = tty_write_room K ?f - int (length name + 4)"
    using tty_write_fits [OF K(1), of ?n ?f] room by simp_all
  have "tty_sent K (tty_write K (tty_write K ?f ?n) ?p) = tty_sent K ?f @ credential_frames name pw"
    using tty_write_fits(1) [OF K(1), of ?p "tty_write K ?f ?n"] 1 room by (simp add: credential_frames_def)
  then show ?thesis
    using credential_reads(2) [OF c(1)] credential_reads(2) [OF c(2)]
    by (intro exI [of _ "tty_write K (tty_write K ?f ?n) ?p"]) (simp add: work_provision_def Let_def)
qed

definition round_fails :: "work_env \<Rightarrow> bool" where
  \<comment> \<open>the pin stays high and the device is not stopped\<close>
  "round_fails e \<longleftrightarrow> gpio_value e \<noteq> 0 \<and> False \<notin> set (take 10 (holds e))"

lemma work_loop_links:
  assumes K: "tty_ok K" "flush_room K (int (length name + length pw + 8))" and e: "gpio_value e = 0"
  shows "credential (ssid s) name \<Longrightarrow> credential (password s) pw \<Longrightarrow> \<not> force_reset s \<Longrightarrow>
    (\<exists>t0. tty_sent K (tty s) = tty_sent K (tty_flush_buffer K t0) @ credential_frames name pw) \<Longrightarrow>
    list_all round_fails es \<Longrightarrow>
    \<exists>s'. work_loop K (int (length name) + 1) (int (length pw) + 1) (es @ [e]) s = Some (LinkUp, s') \<and>
      carrier_ok s' \<and> \<not> queue_stopped s' \<and>
      (\<exists>t0. tty_sent K (tty s') = tty_sent K (tty_flush_buffer K t0) @ credential_frames name pw)"
proof (induction es arbitrary: s)
  case Nil
  with e show ?case by auto
next
  case (Cons a es)
  let ?s = "s\<lparr>uart_recv_status := STATUS_LEN, netif_info_recv_len := 0, netif_info_vaild := False\<rparr>"
  have a: "gpio_value a \<noteq> 0" "False \<notin> set (take 10 (holds a))" "list_all round_fails es"
    using Cons.prems(5) by (simp_all add: round_fails_def [of a])
  obtain t where t: "work_provision K (int (length name) + 1) (int (length pw) + 1) ?s =
      Some (?s\<lparr>tty := t, gpio_reset := True\<rparr>)"
      "tty_sent K t = tty_sent K (tty_flush_buffer K (tty ?s)) @ credential_frames name pw"
    using work_provision_sends [OF K, of ?s] Cons.prems(1,2) by auto
  have "\<exists>s'. work_loop K (int (length name) + 1) (int (length pw) + 1) (es @ [e]) (?s\<lparr>tty := t, gpio_reset := True\<rparr>) =
      Some (LinkUp, s') \<and> carrier_ok s' \<and> \<not> queue_stopped s' \<and>
      (\<exists>t0. tty_sent K (tty s') = tty_sent K (tty_flush_buffer K t0) @ credential_frames name pw)"
    using Cons.prems(1-3) a(3) t(2) by (intro Cons.IH) auto
  then show ?case
    using t(1) a Cons.prems(3) by simp
qed


lemma work_handler_provisions:
  assumes "tty_ok K" "flush_room K (int (length name + length pw + 8))"
    "credential (ssid s) name" "credential (password s) pw" "force_reset s"
    "False \<notin> set (take 10 (holds e0))" "list_all round_fails es" "gpio_value e = 0"
  shows "\<exists>s' t0. esp8266ex_init_work_handler K (e0 # es @ [e]) s = Some (LinkUp, s') \<and>
    carrier_ok s' \<and> \<not> queue_stopped s' \<and>
    tty_sent K (tty s') = tty_sent K (tty_flush_buffer K t0) @
      mk_frame SPLIT_CMD (name @ [0]) @ mk_frame SPLIT_CMD (pw @ [0])"
proof -
  let ?s = "s\<lparr>work_pending := False, force_reset := False\<rparr>"
  obtain t where t: "work_provision K (int (length name) + 1) (int (length pw) + 1) ?s =
      Some (?s\<lparr>tty := t, gpio_reset := True\<rparr>)"
      "tty_sent K t = tty_sent K (tty_flush_buffer K (tty ?s)) @ credential_frames name pw"
    using work_provision_sends [OF assms(1,2), of ?s] assms(3,4) by auto
  have "\<exists>s'. work_loop K (int (length name) + 1) (int (length pw) + 1) (es @ [e]) (?s\<lparr>tty := t, gpio_reset := True\<rparr>) =
      Some (LinkUp, s') \<and> carrier_ok s' \<and> \<not> queue_stopped s' \<and>
      (\<exists>t0. tty_sent K (tty s') = tty_sent K (tty_flush_buffer K t0) @ credential_frames name pw)"
    using assms(3,4,7) t(2) by (intro work_loop_links [OF assms(1,2,8)]) auto
  then show ?thesis
    using t(1) assms(5,6) credential_reads(1) [OF assms(3)] credential_reads(1) [OF assms(4)]
    by (auto simp: esp8266ex_init_work_handler_def credential_frames_def)
qed


section \<open>Properties\<close>

definition ping :: tx_skb where
  "ping = \<lparr>linear = replicate 14 0 @ replicate 20 0x45, frags = [[1, 2], [3]]\<rparr>"

lemma ping_ok: "tx_ok ping" "length (tx_packet ping) = 23"
  by (simp_all add: ping_def tx_ok_def tx_packet_def)

text \<open>C11: what is on the line are the frames of the packets the driver took, in order. For every sequence of
  sends, with the serial driver making room at any time in between and packets refused for lack of it,
  the bytes given to the line are the frames of the taken packets, and the counters count them.\<close>

theorem xmit_frames_in_order:
  assumes "tty_ok K" "tx_kernel_ok K" "actions_ok K as"
  shows "\<exists>taken s'. xmit_run K as ([], s) = (taken, s') \<and>
    tty_sent K (tty s') = tty_sent K (tty s) @ concat (map (\<lambda>p. mk_frame SPLIT_DATA (tx_packet p)) taken) \<and>
    tx_packets s' = tx_packets s + int (length taken) \<and>
    tx_bytes s' = tx_bytes s + (\<Sum>p\<leftarrow>taken. int (length (tx_packet p)))"
  using xmit_run_frames [OF assms, of "[]" s] by auto

theorem xmit_frames_in_order_witness:
  "\<exists>taken s'. xmit_run plain_kernel [Xmit ping, Drain (\<lambda>t. (26, snd t)), Xmit ping] ([], host_init (5, [])) = (taken, s') \<and>
    tty_sent plain_kernel (tty s') = tty_sent plain_kernel (tty (host_init (5, []))) @
      concat (map (\<lambda>p. mk_frame SPLIT_DATA (tx_packet p)) taken) \<and>
    tx_packets s' = tx_packets (host_init (5 :: int, [] :: byte list)) + int (length taken) \<and>
    tx_bytes s' = tx_bytes (host_init (5 :: int, [] :: byte list)) + (\<Sum>p\<leftarrow>taken. int (length (tx_packet p)))"
  by (rule xmit_frames_in_order) (simp_all add: plain_kernel_ok actions_ok_def ping_ok, simp add: plain_kernel_def)

definition provisioned :: "(int \<times> byte list) host" where
  "provisioned = (host_init (0, []))\<lparr>ssid := mk_frame SPLIT_CMD ([0x6d, 0x6f, 0x74, 0x6f] @ [0]) @ replicate 27 0,
     password := mk_frame SPLIT_CMD (replicate 8 0x31 @ [0]) @ replicate 55 0, force_reset := True\<rparr>"

lemma provisioned_credentials:
  "credential (ssid provisioned) [0x6d, 0x6f, 0x74, 0x6f]" "credential (password provisioned) (replicate 8 0x31)"
  by (simp_all add: credential_def provisioned_def)

lemma provisioned_lengths: "load_u16_at (ssid provisioned) = Some 5" "load_u16_at (password provisioned) = Some 9"
  using credential_reads(1) [OF provisioned_credentials(1)] credential_reads(1) [OF provisioned_credentials(2)] by simp_all

text \<open>C32: opening the device. It succeeds exactly when both credentials are set, the tty can be opened and
  given the line discipline, and the interrupt is granted; it then leaves the carrier off, the handshake
  state reset, the line configured and the work scheduled. Without credentials nothing is touched. Every
  failure after the tty has been opened leaves it open, and a refused interrupt leaves the line discipline
  attached as well.\<close>

theorem uart_wifi_open_outcome:
  assumes "load_u16_at (ssid s) = Some n" "load_u16_at (password s) = Some m"
  shows "\<exists>ret s'. uart_wifi_open a irq s = Some (ret, s') \<and>
    (ret = 0 \<longleftrightarrow> n \<noteq> 0 \<and> m \<noteq> 0 \<and> tty_grants a \<and> irq = 0) \<and>
    (ret = 0 \<longrightarrow> \<not> carrier_ok s' \<and> uart_recv_status s' = STATUS_LEN \<and> netif_info_recv_len s' = 0 \<and>
       \<not> netif_info_vaild s' \<and> force_reset s' \<and> work_pending s' \<and> irq_requested s' \<and> tty_opened s' \<and>
       tty_termios s' = Some (newtio (tflags a) (encode_baud_rate a))) \<and>
    (n = 0 \<or> m = 0 \<longrightarrow> ret = - EINVAL \<and> s' = s) \<and>
    (n \<noteq> 0 \<and> m \<noteq> 0 \<and> kopen_err a = 0 \<and> ret \<noteq> 0 \<longrightarrow> tty_opened s' \<and> irq_requested s' = irq_requested s \<and>
       (tty_grants a \<longrightarrow> ret = irq \<and> ldisc_attached s'))"
  using assms by (auto simp: uart_wifi_open_def ttyio_init_def tty_grants_def EINVAL_def ENODEV_def Let_def split: if_splits)

theorem uart_wifi_open_outcome_witness:
  "\<exists>ret s'. uart_wifi_open plain_answers (-16) provisioned = Some (ret, s') \<and> ret = -16 \<and> tty_opened s' \<and> ldisc_attached s'"
  using uart_wifi_open_outcome [OF provisioned_lengths, of plain_answers "-16"] plain_grants
  by (auto simp: tty_grants_def)

end
