(* ===== verification/Host_Main.thy ===== *)
theory Host_Main
  imports Host_Netdev
begin

text \<open>
  The platform driver, \<open>uart_wifi_driver/main.c\<close>: the sysfs attributes through which the name of the tty
  and the credentials are set and read, the published network configuration, and probing and removing
  the device.
\<close>

section \<open>C strings\<close>

definition c_string :: "byte list \<Rightarrow> int \<Rightarrow> byte list option" where
  \<comment> \<open>the text at an offset of a block, up to its terminating zero\<close>
  "c_string blk off =
     (if 0 \<le> off \<and> 0 \<in> set (drop (nat off) blk) then Some (takeWhile (\<lambda>b. b \<noteq> 0) (drop (nat off) blk)) else None)"

definition strncpy :: "byte list \<Rightarrow> nat \<Rightarrow> byte list" where
  \<comment> \<open>the \<open>n\<close> bytes that \<open>strncpy(dst, src, n)\<close> writes\<close>
  "strncpy src n = (let t = takeWhile (\<lambda>b. b \<noteq> 0) (take n src) in t @ replicate (n - length t) 0)"


section \<open>Attributes\<close>

definition store_credential :: "byte list \<Rightarrow> byte list \<Rightarrow> byte list option" where
  \<comment> \<open>the body of \<open>str_store\<close> for a credential: length, text, terminator, split byte\<close>
  "store_credential blk buf = do {
     let count = int (length buf);
     blk \<leftarrow> blk_write blk 0 (store_u16 count);
     blk \<leftarrow> blk_write blk 2 (strncpy buf (length buf));
     blk \<leftarrow> blk_write blk (2 + count - 1) [0];
     blk_write blk (2 + count) [SPLIT_CMD] }"

definition str_store :: "string \<Rightarrow> byte list \<Rightarrow> 't host \<Rightarrow> (int \<times> 't host) option" where
  "str_store attr buf s = do {
     let count = int (length buf);
     nl \<leftarrow> blk_get buf (count - 1);
     if nl \<noteq> 0x0a then Some (- EINVAL, s)
     else if attr = ''tty_name'' then
       (if count > int (length (tty_name s)) then Some (- EINVAL, s)
        else do {
          blk \<leftarrow> blk_write (tty_name s) 0 (strncpy buf (length buf));
          blk \<leftarrow> blk_write blk (count - 1) [0];
          Some (count, s\<lparr>tty_name := blk\<rparr>) })
     else if attr = ''ssid'' then
       (if count > WPA_MAX_SSID_LEN then Some (- EINVAL, s)
        else do { blk \<leftarrow> store_credential (ssid s) buf; Some (count, s\<lparr>ssid := blk\<rparr>) })
     else if attr = ''password'' then
       (if count > WPA_MAX_PASSWD_LEN then Some (- EINVAL, s)
        else do { blk \<leftarrow> store_credential (password s) buf; Some (count, s\<lparr>password := blk\<rparr>) })
     else Some (- EINVAL, s) }"

definition str_show :: "string \<Rightarrow> byte list \<Rightarrow> 't host \<Rightarrow> (int \<times> byte list) option" where
  \<comment> \<open>the returned length and the page\<close>
  "str_show attr page s =
     (if attr = ''tty_name'' then do {
        str \<leftarrow> c_string (tty_name s) 0;
        snprintf page 0 (int (length (tty_name s))) (str @ [0x0a]) }
      else if attr = ''ssid'' then do {
        str \<leftarrow> c_string (ssid s) 2;
        snprintf page 0 WPA_MAX_SSID_LEN (str @ [0x0a]) }
      else if attr = ''password'' then do {
        str \<leftarrow> c_string (password s) 2;
        snprintf page 0 WPA_MAX_PASSWD_LEN (str @ [0x0a]) }
      else Some (- EINVAL, page))"

datatype show_result = Blocked | Shown int "byte list"

definition str_show_connect_info :: "bool \<Rightarrow> byte list \<Rightarrow> 't host \<Rightarrow> show_result option" where
  \<comment> \<open>whether a signal arrives while waiting, and the page\<close>
  "str_show_connect_info signal page s =
     (if netif_info_vaild s then do {
        bs \<leftarrow> blk_read (netif_info s) 15 (12 * 4);
        page \<leftarrow> blk_write page 0 bs;
        Some (Shown (12 * 4) page) }
      else if signal then Some (Shown 0 page) else Some Blocked)"


section \<open>Probing and removing\<close>

text \<open>The answers of the kernel during a probe; a device tree string is given without its zero.\<close>

record probe_env =
  kzalloc_ok :: bool
  reset_request :: int
  reset_output :: int
  intr_request :: int
  intr_input :: int
  irq_num :: int
  of_tty_name :: "byte list option"
  of_ssid :: "byte list option"
  of_password :: "byte list option"
  create_tty_name :: int
  create_ssid :: int
  create_password :: int
  create_netif_info :: int
  etherdev_ok :: bool
  register_ok :: bool

definition probe_tty_name :: "byte list option \<Rightarrow> byte list \<Rightarrow> byte list option" where
  "probe_tty_name str blk =
     (case str of
        None \<Rightarrow> blk_write blk 0 [0]
      | Some txt \<Rightarrow>
          if int (length txt) + 1 > int (length blk) then blk_write blk 0 [0]
          else blk_write blk 0 (txt @ [0]))"

definition empty_credential :: "byte list \<Rightarrow> byte list option" where
  "empty_credential blk = do {
     blk \<leftarrow> blk_write blk 0 (store_u16 0);
     blk \<leftarrow> blk_write blk 2 [0];
     blk_write blk 3 [SPLIT_CMD] }"

definition probe_credential :: "int \<Rightarrow> byte list option \<Rightarrow> byte list \<Rightarrow> byte list option" where
  \<comment> \<open>the bound on the text with its zero, the property, the block\<close>
  "probe_credential bound str blk =
     (case str of
        None \<Rightarrow> empty_credential blk
      | Some txt \<Rightarrow>
          let count = int (length txt) + 1 in
          if count > bound then empty_credential blk
          else do {
            blk \<leftarrow> blk_write blk 0 (store_u16 count);
            blk \<leftarrow> blk_write blk 2 (txt @ [0]);
            blk_write blk (2 + count) [SPLIT_CMD] })"

definition ENOMEM :: int where "ENOMEM = 12"

definition probe_files :: "probe_env \<Rightarrow> int \<times> string list" where
  \<comment> \<open>the files are created in turn until one fails\<close>
  "probe_files e =
     (if create_tty_name e \<noteq> 0 then (create_tty_name e, [])
      else if create_ssid e \<noteq> 0 then (create_ssid e, [''tty_name''])
      else if create_password e \<noteq> 0 then (create_password e, [''tty_name'', ''ssid''])
      else if create_netif_info e \<noteq> 0 then (create_netif_info e, [''tty_name'', ''ssid'', ''password''])
      else (0, [''tty_name'', ''ssid'', ''password'', ''netif_info'']))"

definition uart_wifi_probe :: "probe_env \<Rightarrow> 't \<Rightarrow> (int \<times> 't host \<times> string list) option" where
  \<comment> \<open>the result, the driver state and the sysfs files\<close>
  "uart_wifi_probe e t =
     (let s = host_init t in
      if \<not> kzalloc_ok e then Some (- ENOMEM, s, [])
      else if reset_request e \<noteq> 0 then Some (reset_request e, s, [])
      else if reset_output e \<noteq> 0 then Some (reset_output e, s, [])
      else if intr_request e \<noteq> 0 then Some (intr_request e, s, [])
      else if intr_input e \<noteq> 0 then Some (intr_input e, s, [])
      else if irq_num e < 0 then Some (irq_num e, s, [])
      else do {
        nm \<leftarrow> probe_tty_name (of_tty_name e) (tty_name s);
        sd \<leftarrow> probe_credential WPA_MAX_SSID_LEN (of_ssid e) (ssid s);
        pw \<leftarrow> probe_credential (int (length (password s))) (of_password e) (password s);
        let s = s\<lparr>tty_name := nm, ssid := sd, password := pw\<rparr>;
        let (ret, files) = probe_files e;
        if ret \<noteq> 0 then Some (ret, s, files)
        else
          let (err, s) = netdev_init (etherdev_ok e) (register_ok e) s in
          if err \<noteq> 0 then Some (ret, s, files) else Some (0, s, files) })"

definition uart_wifi_remove :: "string list \<Rightarrow> int \<times> string list" where
  "uart_wifi_remove files = (0, removeAll ''password'' (removeAll ''ssid'' (removeAll ''tty_name'' files)))"

text \<open>The module: what is registered with the kernel.\<close>

record module_state =
  ldisc_registered :: bool
  driver_registered :: bool

definition uart_wifi_drv_init :: "int \<Rightarrow> int \<Rightarrow> module_state \<Rightarrow> int \<times> module_state" where
  \<comment> \<open>the answers of \<open>tty_register_ldisc\<close> and \<open>platform_driver_register\<close>\<close>
  "uart_wifi_drv_init ldisc driver m =
     (if ldisc \<noteq> 0 then (ldisc, m)
      else let m = m\<lparr>ldisc_registered := True\<rparr> in (driver, m\<lparr>driver_registered := (driver = 0)\<rparr>))"

definition uart_wifi_drv_exit :: "int \<Rightarrow> module_state \<Rightarrow> module_state" where
  \<comment> \<open>the answer of \<open>tty_unregister_ldisc\<close>, which is only logged\<close>
  "uart_wifi_drv_exit ret m = m\<lparr>driver_registered := False, ldisc_registered := (ret \<noteq> 0)\<rparr>"


section \<open>Credentials in the block\<close>

lemma strncpy_line: "0 \<notin> set name \<Longrightarrow> strncpy (name @ [0x0a]) (Suc (length name)) = name @ [0x0a]"
proof -
  assume "0 \<notin> set name"
  then have "takeWhile (\<lambda>b. b \<noteq> 0) (name @ [0x0a]) = name @ [0x0a]"
    by (subst takeWhile_eq_all_conv) auto
  then show ?thesis by (simp add: strncpy_def Let_def)
qed

lemma take_shorter: "take (n + k) xs = p @ q \<Longrightarrow> length p = n \<Longrightarrow> take n xs = p"
  by (metis append_eq_conv_conj take_take min.absorb1 le_add1)

text \<open>What \<open>str_store\<close> leaves in the block: the frame of the text, whose last byte has become the zero.\<close>

lemma store_credential_writes:
  assumes "strncpy buf (length buf) = name @ [c]" "length buf = Suc (length name)" "length name + 4 \<le> length blk"
    "length name < 65535"
  shows "\<exists>blk'. store_credential blk buf = Some blk' \<and> length blk' = length blk \<and> credential blk' name"
proof -
  let ?n = "int (length name) + 1" let ?u = "store_u16 ?n"
  obtain b1 where 1: "blk_write blk 0 ?u = Some b1" "length b1 = length blk" "take 2 b1 = ?u"
    using blk_write_prefix [of "[]" blk ?u 0] assms(3) by (auto simp: numeral_2_eq_2)
  obtain b2 where 2: "blk_write b1 2 (name @ [c]) = Some b2" "length b2 = length blk"
    "take (2 + (length name + 1)) b2 = ?u @ name @ [c]"
    using blk_write_prefix [of ?u b1 "name @ [c]" 2] assms(3) 1 by auto
  have p2: "take (2 + length name) b2 = ?u @ name"
    using take_shorter [of "2 + length name" 1 b2 "?u @ name" "[c]"] 2(3) by simp
  obtain b3 where 3: "blk_write b2 (2 + ?n - 1) [0] = Some b3" "length b3 = length blk"
    "take (2 + length name + 1) b3 = (?u @ name) @ [0]"
    using blk_write_prefix [of "?u @ name" b2 "[0]" "2 + ?n - 1"] assms(3) 2(2) p2 by auto
  obtain b4 where 4: "blk_write b3 (2 + ?n) [SPLIT_CMD] = Some b4" "length b4 = length blk"
    "take (3 + length name + 1) b4 = (?u @ name @ [0]) @ [SPLIT_CMD]"
    using blk_write_prefix [of "?u @ name @ [0]" b3 "[SPLIT_CMD]" "2 + ?n"] assms(3) 3(2,3) by (auto simp: numeral_eq_Suc)
  have "store_credential blk buf = Some b4"
    using 1(1) 2(1) 3(1) 4(1) assms(1,2)
    by (simp add: store_credential_def Let_def add.commute)
  moreover have "credential b4 name"
    using 4(2,3) assms by (simp add: credential_def mk_frame_def add.commute)
  ultimately show ?thesis
    using 4(2) by blast
qed

lemma store_credential_frame:
  assumes "0 \<notin> set name" "length name + 4 \<le> length blk" "length name < 65535"
  shows "\<exists>blk'. store_credential blk (name @ [0x0a]) = Some blk' \<and> length blk' = length blk \<and> credential blk' name"
  using assms(2,3) strncpy_line [OF assms(1)] by (intro store_credential_writes [where c = "0x0a"]) simp_all

lemma probe_credential_frame:
  assumes "length txt + 4 \<le> length blk" "int (length txt) + 1 \<le> bound" "length txt < 65535"
  shows "\<exists>blk'. probe_credential bound (Some txt) blk = Some blk' \<and> length blk' = length blk \<and> credential blk' txt"
proof -
  let ?n = "int (length txt) + 1" let ?u = "store_u16 ?n"
  obtain b1 where 1: "blk_write blk 0 ?u = Some b1" "length b1 = length blk" "take 2 b1 = ?u"
    using blk_write_prefix [of "[]" blk ?u 0] assms(1) by (auto simp: numeral_2_eq_2)
  obtain b2 where 2: "blk_write b1 2 (txt @ [0]) = Some b2" "length b2 = length blk"
    "take (2 + (length txt + 1)) b2 = ?u @ txt @ [0]"
    using blk_write_prefix [of ?u b1 "txt @ [0]" 2] assms(1) 1 by auto
  obtain b3 where 3: "blk_write b2 (2 + ?n) [SPLIT_CMD] = Some b3" "length b3 = length blk"
    "take (3 + length txt + 1) b3 = (?u @ txt @ [0]) @ [SPLIT_CMD]"
    using blk_write_prefix [of "?u @ txt @ [0]" b2 "[SPLIT_CMD]" "2 + ?n"] assms(1) 2(2,3) by (auto simp: numeral_eq_Suc)
  have "probe_credential bound (Some txt) blk = Some b3"
    using 1(1) 2(1) 3(1) assms(2) by (simp add: probe_credential_def Let_def)
  moreover have "credential b3 txt"
    using 3(2,3) assms by (simp add: credential_def mk_frame_def add.commute)
  ultimately show ?thesis
    using 3(2) by blast
qed

text \<open>A text in the block is read back.\<close>

lemma credential_string:
  assumes "credential blk name" "0 \<notin> set name"
  shows "c_string blk 2 = Some name"
proof -
  have c: "take (length name + 4) blk = store_u16 (int (length name) + 1) @ name @ [0] @ [SPLIT_CMD]"
    using assms(1) by (simp add: credential_def mk_frame_def add.commute)
  have "blk = (store_u16 (int (length name) + 1) @ name @ [0] @ [SPLIT_CMD]) @ drop (length name + 4) blk"
    using append_take_drop_id [of "length name + 4" blk] unfolding c by simp
  then have "drop 2 blk = name @ 0 # SPLIT_CMD # drop (length name + 4) blk"
    by (metis append.assoc append_Cons append_Nil append_eq_conv_conj length_store_u16)
  then show ?thesis
    using assms(2) by (simp add: c_string_def takeWhile_tail takeWhile_append)
qed

lemma snprintf_cuts:
  assumes "0 < n" "n \<le> length page" "n < 2147483648"
  shows "\<exists>page'. snprintf page 0 (int n) t = Some (int (length t), page') \<and> length page' = length page \<and>
    take (min (n - 1) (length t) + 1) page' = take (n - 1) t @ [0]"
proof -
  have k: "nat (int n - 1) = n - 1" and fits: "Suc (min (length t) (n - Suc 0)) \<le> length page"
    using assms by linarith+
  obtain page' where "blk_write page 0 (take (n - 1) t @ [0]) = Some page'" "length page' = length page"
    "take (min (n - 1) (length t) + 1) page' = take (n - 1) t @ [0]"
    using blk_write_prefix [of "[]" page "take (n - 1) t @ [0]" 0] fits by (auto simp: min.commute)
  then show ?thesis
    using assms k by (simp add: snprintf_def)
qed


section \<open>Properties\<close>

text \<open>C33: writing a credential. A line of at most 31 characters written to \<open>ssid\<close> (63 for \<open>password\<close>) is
  accepted: the block then holds the frame of the text with its terminator, inside its bounds and with
  nothing else of the driver changed. A line that is too long, or a write that does not end in a
  newline, is refused and changes nothing.\<close>

theorem str_store_credentials:
  assumes "length (ssid s) = 35" "length (password s) = 67" "0 \<notin> set name" "b \<noteq> 0x0a"
  shows "(if length name \<le> 31
     then \<exists>blk. str_store ''ssid'' (name @ [0x0a]) s = Some (int (length name) + 1, s\<lparr>ssid := blk\<rparr>) \<and>
       length blk = 35 \<and> credential blk name
     else str_store ''ssid'' (name @ [0x0a]) s = Some (- EINVAL, s)) \<and>
    (if length name \<le> 63
     then \<exists>blk. str_store ''password'' (name @ [0x0a]) s = Some (int (length name) + 1, s\<lparr>password := blk\<rparr>) \<and>
       length blk = 67 \<and> credential blk name
     else str_store ''password'' (name @ [0x0a]) s = Some (- EINVAL, s)) \<and>
    str_store attr (name @ [b]) s = Some (- EINVAL, s)"
proof (intro conjI)
  have nl: "blk_get (name @ [c]) (int (length name)) = Some c" for c
    by (simp add: blk_get_def)
  show "str_store attr (name @ [b]) s = Some (- EINVAL, s)"
    using nl assms(4) by (simp add: str_store_def Let_def)
  show "if length name \<le> 31
     then \<exists>blk. str_store ''ssid'' (name @ [0x0a]) s = Some (int (length name) + 1, s\<lparr>ssid := blk\<rparr>) \<and>
       length blk = 35 \<and> credential blk name
     else str_store ''ssid'' (name @ [0x0a]) s = Some (- EINVAL, s)"
  proof (cases "length name \<le> 31")
    case True
    then obtain blk where "store_credential (ssid s) (name @ [0x0a]) = Some blk" "length blk = length (ssid s)" "credential blk name"
      using store_credential_frame [of name "ssid s"] assms(1,3) by auto
    with True nl assms(1,3) show ?thesis
      by (simp add: str_store_def Let_def link_consts) blast
  next
    case False
    with nl show ?thesis by (simp add: str_store_def Let_def link_consts)
  qed
  show "if length name \<le> 63
     then \<exists>blk. str_store ''password'' (name @ [0x0a]) s = Some (int (length name) + 1, s\<lparr>password := blk\<rparr>) \<and>
       length blk = 67 \<and> credential blk name
     else str_store ''password'' (name @ [0x0a]) s = Some (- EINVAL, s)"
  proof (cases "length name \<le> 63")
    case True
    then obtain blk where "store_credential (password s) (name @ [0x0a]) = Some blk" "length blk = length (password s)" "credential blk name"
      using store_credential_frame [of name "password s"] assms(2,3) by auto
    with True nl assms(2,3) show ?thesis
      by (simp add: str_store_def Let_def link_consts) blast
  next
    case False
    with nl show ?thesis by (simp add: str_store_def Let_def link_consts)
  qed
qed

theorem str_store_credentials_witness:
  "(if length [0x6d, 0x6f :: byte] \<le> 31
     then \<exists>blk. str_store ''ssid'' ([0x6d, 0x6f] @ [0x0a]) (host_init ()) =
         Some (int (length [0x6d, 0x6f :: byte]) + 1, (host_init ())\<lparr>ssid := blk\<rparr>) \<and>
       length blk = 35 \<and> credential blk [0x6d, 0x6f]
     else str_store ''ssid'' ([0x6d, 0x6f] @ [0x0a]) (host_init ()) = Some (- EINVAL, host_init ())) \<and>
    (if length [0x6d, 0x6f :: byte] \<le> 63
     then \<exists>blk. str_store ''password'' ([0x6d, 0x6f] @ [0x0a]) (host_init ()) =
         Some (int (length [0x6d, 0x6f :: byte]) + 1, (host_init ())\<lparr>password := blk\<rparr>) \<and>
       length blk = 67 \<and> credential blk [0x6d, 0x6f]
     else str_store ''password'' ([0x6d, 0x6f] @ [0x0a]) (host_init ()) = Some (- EINVAL, host_init ())) \<and>
    str_store ''ssid'' ([0x6d, 0x6f] @ [0x0d]) (host_init ()) = Some (- EINVAL, host_init ())"
  by (rule str_store_credentials) (simp_all add: host_init_def)

text \<open>C34: reading a name back. What was written to \<open>ssid\<close> is shown again with its newline, except that for
  a name of 31 characters the last character shown is a zero instead of the newline.\<close>

theorem ssid_roundtrip:
  assumes "length (ssid s) = 35" "0 \<notin> set name" "length name \<le> 31" "32 \<le> length page"
  shows "\<exists>s' page'. str_store ''ssid'' (name @ [0x0a]) s = Some (int (length name) + 1, s') \<and>
    str_show ''ssid'' page s' = Some (int (length name) + 1, page') \<and>
    take (length name + 1) page' = name @ [if length name \<le> 30 then 0x0a else 0]"
proof -
  have nl: "blk_get (name @ [0x0a]) (int (length name)) = Some 0x0a"
    by (simp add: blk_get_def)
  obtain blk where blk: "store_credential (ssid s) (name @ [0x0a]) = Some blk" "credential blk name"
    using store_credential_frame [OF assms(2), of "ssid s"] assms(1,3) by auto
  have st: "str_store ''ssid'' (name @ [0x0a]) s = Some (int (length name) + 1, s\<lparr>ssid := blk\<rparr>)"
    using blk(1) nl assms(3) by (simp add: str_store_def Let_def link_consts)
  obtain page' where pg: "snprintf page 0 32 (name @ [0x0a]) = Some (int (length name) + 1, page')"
    "take (min 31 (length name + 1) + 1) page' = take 31 (name @ [0x0a]) @ [0]"
    using snprintf_cuts [of 32 page "name @ [0x0a]"] assms(4) by (auto simp: add.commute)
  have sh: "str_show ''ssid'' page (s\<lparr>ssid := blk\<rparr>) = Some (int (length name) + 1, page')"
    using pg(1) credential_string [OF blk(2) assms(2)] by (simp add: str_show_def link_consts)
  have "take (length name + 1) page' = name @ [if length name \<le> 30 then 0x0a else 0]"
  proof (cases "length name \<le> 30")
    case True
    then have "take (length name + 1 + 1) page' = (name @ [0x0a]) @ [0]"
      using pg(2) by simp
    with True take_shorter [of "length name + 1" 1 page' "name @ [0x0a]" "[0]"] show ?thesis by simp
  next
    case False
    with assms(3) have "length name = 31" by simp
    with pg(2) show ?thesis by simp
  qed
  with st sh show ?thesis by blast
qed

theorem ssid_roundtrip_witness:
  "\<exists>s' page'. str_store ''ssid'' ([0x6d, 0x6f] @ [0x0a]) (host_init ()) = Some (int (length [0x6d, 0x6f :: byte]) + 1, s') \<and>
    str_show ''ssid'' (replicate 4096 9) s' = Some (int (length [0x6d, 0x6f :: byte]) + 1, page') \<and>
    take (length [0x6d, 0x6f :: byte] + 1) page' = [0x6d, 0x6f] @ [if length [0x6d, 0x6f :: byte] \<le> 30 then 0x0a else 0]"
  by (rule ssid_roundtrip) (simp_all add: host_init_def)

text \<open>C35: a password from the device tree can overflow its field. The bound of the probe is the size of the
  whole field instead of the longest text, so a password of 64 to 66 characters makes it write behind
  the end of the field, while up to 63 characters become a well-formed frame.\<close>

theorem probe_password_bounds:
  assumes "kzalloc_ok e" "reset_request e = 0" "reset_output e = 0" "intr_request e = 0" "intr_input e = 0"
    "0 \<le> irq_num e" "of_tty_name e = None" "of_ssid e = None" "of_password e = Some pw" "length pw \<le> 66"
  shows "if length pw \<le> 63
    then \<exists>ret s files. uart_wifi_probe e t = Some (ret, s, files) \<and> length (password s) = 67 \<and>
      credential (password s) pw \<and> load_u16_at (ssid s) = Some 0
    else uart_wifi_probe e t = None"
proof -
  have ec: "empty_credential (replicate 35 0) = Some ([0, 0, 0, SPLIT_CMD] @ replicate 31 0)"
    by (simp add: empty_credential_def blk_write_def store_u16_def numeral_eq_Suc)
  have nm: "probe_tty_name None (replicate 10 0) = Some (replicate 10 0)"
    by (simp add: probe_tty_name_def blk_write_def numeral_eq_Suc)
  have sd: "probe_credential WPA_MAX_SSID_LEN None (replicate 35 0) = Some ([0, 0, 0, SPLIT_CMD] @ replicate 31 0)"
    using ec by (simp add: probe_credential_def)
  have z: "load_u16_at ([0, 0, 0, SPLIT_CMD] @ replicate 31 0) = Some 0"
    by (simp add: load_u16_at_def blk_get_def load_u16_def)
  show ?thesis
  proof (cases "length pw \<le> 63")
    case True
    obtain blk where blk: "probe_credential 67 (Some pw) (replicate 67 0) = Some blk" "length blk = 67" "credential blk pw"
      using probe_credential_frame [of pw "replicate 67 0" 67] True by auto
    then have pc: "probe_credential (int (length (password (host_init t)))) (of_password e) (password (host_init t)) = Some blk"
      using assms(9) by (simp add: host_init_def)
    show ?thesis
      using True assms pc nm sd z blk(2,3)
      by (auto simp: uart_wifi_probe_def host_init_def probe_files_def netdev_init_def Let_def)
  next
    case False
    have "probe_credential 67 (Some pw) (replicate 67 0) = None"
      using False assms(10)
      by (auto simp: probe_credential_def Let_def blk_write_def store_u16_def split: bind_splits)
    then show ?thesis
      using False assms nm sd by (simp add: uart_wifi_probe_def host_init_def Let_def)
  qed
qed

definition plain_probe :: "byte list \<Rightarrow> probe_env" where
  "plain_probe pw = \<lparr>kzalloc_ok = True, reset_request = 0, reset_output = 0, intr_request = 0, intr_input = 0,
     irq_num = 5, of_tty_name = None, of_ssid = None, of_password = Some pw, create_tty_name = 0, create_ssid = 0,
     create_password = 0, create_netif_info = 0, etherdev_ok = True, register_ok = True\<rparr>"

theorem probe_password_bounds_witness:
  "(if length (replicate 64 (0x31 :: byte)) \<le> 63
    then \<exists>ret s files. uart_wifi_probe (plain_probe (replicate 64 0x31)) () = Some (ret, s, files) \<and>
      length (password s) = 67 \<and> credential (password s) (replicate 64 0x31) \<and> load_u16_at (ssid s) = Some 0
    else uart_wifi_probe (plain_probe (replicate 64 0x31)) () = None) \<and>
   (if length (replicate 8 (0x31 :: byte)) \<le> 63
    then \<exists>ret s files. uart_wifi_probe (plain_probe (replicate 8 0x31)) () = Some (ret, s, files) \<and>
      length (password s) = 67 \<and> credential (password s) (replicate 8 0x31) \<and> load_u16_at (ssid s) = Some 0
    else uart_wifi_probe (plain_probe (replicate 8 0x31)) () = None)"
  by (intro conjI probe_password_bounds) (simp_all add: plain_probe_def)

end
