(* ===== verification/Host_Driver.thy ===== *)
theory Host_Driver
  imports Host_Main
begin

text \<open>
  The driver as a whole: every operation the kernel can call once the device has been probed, as a step
  relation, and the invariant on the sizes and contents of its blocks. In every reachable state the
  sysfs attributes, opening, the work handler and sending stay inside the blocks.
\<close>

section \<open>The running driver\<close>

text \<open>
  The operations in any order: writes to sysfs, opening and stopping, packets to send, the serial
  driver emptying its buffer and waking the line discipline up, the interrupt of the pin, the work handler and chunks of received bytes.
\<close>

inductive host_step :: "'t kernel \<Rightarrow> 't host \<Rightarrow> 't host \<Rightarrow> bool" for K :: "'t kernel" where
  store: "buf \<noteq> [] \<Longrightarrow> str_store attr buf s = Some (ret, s') \<Longrightarrow> host_step K s s'"
| opened: "uart_wifi_open a irq s = Some (ret, s') \<Longrightarrow> host_step K s s'"
| stopped: "uart_wifi_stop s = (ret, s') \<Longrightarrow> host_step K s s'"
| xmit: "uart_wifi_xmit K skb s = (ret, s') \<Longrightarrow> host_step K s s'"
| drained: "tty_sent K t' = tty_sent K (tty s) \<Longrightarrow> host_step K s (s\<lparr>tty := t'\<rparr>)"
| wakeup: "host_step K s (ttyio_write_wakeup s)"
| irq: "host_step K s (gpio_irq_handler s)"
| work: "esp8266ex_init_work_handler K es s = Some (w, s') \<Longrightarrow> host_step K s s'"
| receive: "ttyio_receive_buf2 K fuel cp (Some s) = Done (p, Some s') \<Longrightarrow> host_step K s s'"

inductive_cases host_stepE: "host_step K s s'"


section \<open>The invariant\<close>

definition cred_ok :: "byte list \<Rightarrow> bool" where
  \<comment> \<open>the frame the length field announces lies inside the block, and the text is terminated\<close>
  "cred_ok blk \<longleftrightarrow> (\<exists>l. load_u16_at blk = Some l \<and> l + 3 \<le> int (length blk)) \<and> 0 \<in> set (drop 2 blk)"

definition host_wf :: "'t host \<Rightarrow> bool" where
  "host_wf s \<longleftrightarrow> length (tty_name s) = 10 \<and> 0 \<in> set (tty_name s) \<and> length (ssid s) = 35 \<and> cred_ok (ssid s) \<and>
     length (password s) = 67 \<and> cred_ok (password s) \<and> length (netif_info s) = 64 \<and>
     length (recv_output s) = 4096 \<and> length (dump_output s) = 4096"

lemma host_wf_kept: "kept s' = kept s \<Longrightarrow> host_wf s \<Longrightarrow> host_wf s'"
  by (simp add: host_wf_def kept_def)

lemma blk_write_set: "blk_write blk off bs = Some blk' \<Longrightarrow> set bs \<subseteq> set blk'"
  by (auto simp: blk_write_def split: if_splits)

lemma nat_int_diff_one: "nat (int n - 1) = n - 1"
  by linarith

lemma length_strncpy [simp]: "n \<le> length src \<Longrightarrow> length (strncpy src n) = n"
  using length_takeWhile_le [of "\<lambda>b. b \<noteq> 0" "take n src"] by (simp add: strncpy_def Let_def)

lemma credential_cred_ok:
  assumes "credential blk name"
  shows "cred_ok blk"
proof -
  have "length name + 4 \<le> length blk"
    using assms by (simp add: credential_def)
  moreover have "0 \<in> set (drop 2 (take (length name + 4) blk))"
    using assms by (simp add: credential_def mk_frame_def store_u16_def)
  then have "0 \<in> set (drop 2 blk)"
    by (metis drop_take in_set_takeD)
  ultimately show ?thesis
    using credential_reads(1) [OF assms] by (simp add: cred_ok_def)
qed

lemma store_credential_ok:
  assumes "buf \<noteq> []" "length buf + 3 \<le> length blk" "length buf \<le> 65535"
  shows "\<exists>blk'. store_credential blk buf = Some blk' \<and> length blk' = length blk \<and> cred_ok blk'"
proof -
  let ?t = "strncpy buf (length buf)"
  have t: "length ?t = length buf" by simp
  then have "?t \<noteq> []" using assms(1) by (metis length_0_conv)
  then have "?t = butlast ?t @ [last ?t]" by simp
  moreover have "length buf = Suc (length (butlast ?t))"
    using assms(1) by simp
  ultimately show ?thesis
    using store_credential_writes [of buf "butlast ?t" "last ?t" blk] assms(2,3) credential_cred_ok by fastforce
qed


section \<open>Every operation keeps it\<close>

lemma str_store_wf:
  assumes "host_wf s" "buf \<noteq> []"
  shows "\<exists>ret s'. str_store attr buf s = Some (ret, s') \<and> host_wf s'"
proof -
  let ?n = "int (length buf)"
  have nl: "blk_get buf (?n - 1) = Some (last buf)"
    using assms(2) nat_int_diff_one [of "length buf"] by (simp add: blk_get_def last_conv_nth)
  have name: "\<exists>b1 b2. blk_write (tty_name s) 0 (strncpy buf (length buf)) = Some b1 \<and> blk_write b1 (?n - 1) [0] = Some b2 \<and>
      host_wf (s\<lparr>tty_name := b2\<rparr>)" if l: "length buf \<le> 10"
  proof -
    obtain b1 where b1: "blk_write (tty_name s) 0 (strncpy buf (length buf)) = Some b1" "length b1 = 10"
      using l assms(1) by (auto simp: blk_write_def host_wf_def)
    moreover obtain b2 where b2: "blk_write b1 (?n - 1) [0] = Some b2"
      using l assms(2) b1(2) by (cases buf) (auto simp: blk_write_def)
    ultimately show ?thesis
      using blk_write_set [OF b2] length_blk_write [OF b2] assms(1) by (simp add: host_wf_def)
  qed
  have ssid: "\<exists>blk. store_credential (ssid s) buf = Some blk \<and> host_wf (s\<lparr>ssid := blk\<rparr>)" if "length buf \<le> 32"
    using store_credential_ok [OF assms(2), of "ssid s"] that assms(1) by (auto simp: host_wf_def)
  have pw: "\<exists>blk. store_credential (password s) buf = Some blk \<and> host_wf (s\<lparr>password := blk\<rparr>)" if "length buf \<le> 64"
    using store_credential_ok [OF assms(2), of "password s"] that assms(1) by (auto simp: host_wf_def)
  have len: "length (tty_name s) = 10"
    using assms(1) by (simp add: host_wf_def)
  show ?thesis
    using assms(1) nl name ssid pw by (fastforce simp: str_store_def Let_def len link_consts)
qed

lemma work_provision_wf:
  assumes "length (ssid s) = 35" "length (password s) = 67" "0 \<le> n" "n + 3 \<le> 35" "0 \<le> m" "m + 3 \<le> 67"
  shows "\<exists>t. work_provision K n m s = Some (s\<lparr>tty := t, gpio_reset := True\<rparr>)"
  using assms by (simp add: work_provision_def blk_read_def Let_def)
    (rule exI, rule refl)

lemma work_loop_wf:
  assumes "host_wf s" "load_u16_at (ssid s) = Some n" "load_u16_at (password s) = Some m"
  shows "\<exists>w s'. work_loop K n m es s = Some (w, s') \<and> kept s' = kept s"
  using assms
proof (induction es arbitrary: s)
  case Nil
  then show ?case by simp
next
  case (Cons e es)
  define u where "u = (if force_reset s then s\<lparr>force_reset := False\<rparr>
    else s\<lparr>uart_recv_status := STATUS_LEN, netif_info_recv_len := 0, netif_info_vaild := False\<rparr>)"
  have u: "ssid u = ssid s" "password u = password s" "kept u = kept s"
    by (simp_all add: u_def kept_def)
  have le: "0 \<le> n" "0 \<le> m" "n + 3 \<le> 35" "m + 3 \<le> 67"
    using Cons.prems by (auto simp: host_wf_def cred_ok_def load_u16_at_def load_u16_range split: bind_splits)
  then obtain t where pr: "work_provision K n m u = Some (u\<lparr>tty := t, gpio_reset := True\<rparr>)"
    using work_provision_wf [of u n m K] Cons.prems(1) u by (auto simp: host_wf_def)
  have k: "kept (u\<lparr>tty := t, gpio_reset := True\<rparr>) = kept s"
    using u(3) by (simp add: kept_def)
  then obtain w s' where "work_loop K n m es (u\<lparr>tty := t, gpio_reset := True\<rparr>) = Some (w, s')" "kept s' = kept s"
    using Cons.IH [OF host_wf_kept [OF k Cons.prems(1)]] Cons.prems(2,3) u by auto
  moreover have "kept (s\<lparr>carrier_ok := True, queue_stopped := False\<rparr>) = kept s"
    by (simp add: kept_def)
  ultimately show ?case
    using pr k by (auto simp: u_def)
qed

lemma cred_ok_length: "cred_ok blk \<Longrightarrow> \<exists>l. load_u16_at blk = Some l"
  by (auto simp: cred_ok_def)

lemma work_handler_wf:
  assumes "host_wf s"
  shows "\<exists>w s'. esp8266ex_init_work_handler K es s = Some (w, s') \<and> kept s' = kept s"
proof -
  obtain n m where "load_u16_at (ssid s) = Some n" "load_u16_at (password s) = Some m"
    using assms by (auto simp: host_wf_def dest!: cred_ok_length)
  moreover have "kept (s\<lparr>work_pending := False\<rparr>) = kept s"
    by (simp add: kept_def)
  moreover from this have "host_wf (s\<lparr>work_pending := False\<rparr>)"
    using assms by (rule host_wf_kept)
  ultimately show ?thesis
    using work_loop_wf [of "s\<lparr>work_pending := False\<rparr>" n m K es] by (auto simp: esp8266ex_init_work_handler_def)
qed

lemma uart_wifi_open_wf:
  assumes "host_wf s"
  shows "\<exists>ret s'. uart_wifi_open a irq s = Some (ret, s') \<and> kept s' = kept s"
  using assms by (auto simp: host_wf_def uart_wifi_open_def ttyio_init_def kept_def Let_def dest!: cred_ok_length)

lemma host_step_wf:
  assumes "host_step K s s'" "host_wf s"
  shows "host_wf s'"
  using assms(1)
proof (rule host_stepE)
  fix buf :: "byte list" and attr ret
  assume "buf \<noteq> []" "str_store attr buf s = Some (ret, s')"
  then show ?thesis using str_store_wf [OF assms(2), of buf attr] by auto
next
  fix a irq ret
  assume "uart_wifi_open a irq s = Some (ret, s')"
  then show ?thesis
    using uart_wifi_open_wf [OF assms(2), of a irq] host_wf_kept [OF _ assms(2)] by auto
next
  fix ret
  assume "uart_wifi_stop s = (ret, s')"
  then have "kept s' = kept s" by (auto simp: uart_wifi_stop_def kept_def)
  then show ?thesis using assms(2) by (rule host_wf_kept)
next
  fix skb ret
  assume "uart_wifi_xmit K skb s = (ret, s')"
  then have "kept s' = kept s" by (auto simp: uart_wifi_xmit_def kept_def Let_def split: if_splits)
  then show ?thesis using assms(2) by (rule host_wf_kept)
next
  fix t'
  assume "s' = s\<lparr>tty := t'\<rparr>"
  then have "kept s' = kept s" by (simp add: kept_def)
  then show ?thesis using assms(2) by (rule host_wf_kept)
next
  assume "s' = ttyio_write_wakeup s"
  then have "kept s' = kept s" by (simp add: ttyio_write_wakeup_def kept_def Let_def)
  then show ?thesis using assms(2) by (rule host_wf_kept)
next
  assume "s' = gpio_irq_handler s"
  then have "kept s' = kept s" by (simp add: gpio_irq_handler_def kept_def)
  then show ?thesis using assms(2) by (rule host_wf_kept)
next
  fix es w
  assume "esp8266ex_init_work_handler K es s = Some (w, s')"
  then show ?thesis
    using work_handler_wf [OF assms(2), of K es] host_wf_kept [OF _ assms(2)] by auto
next
  fix fuel cp p
  assume "ttyio_receive_buf2 K fuel cp (Some s) = Done (p, Some s')"
  then show ?thesis
    using ttyio_receive_buf2_kept [of K fuel cp s p s'] host_wf_kept [OF _ assms(2)] by (auto simp: ld_kept_def)
qed

lemma host_reachable_wf: "(host_step K)\<^sup>*\<^sup>* s s' \<Longrightarrow> host_wf s \<Longrightarrow> host_wf s'"
  by (induction rule: rtranclp_induct) (auto intro: host_step_wf)

text \<open>The queue of the network device never stays stopped unnoticed.\<close>

definition wakeup_ok :: "'t host \<Rightarrow> bool" where
  "wakeup_ok s \<longleftrightarrow> (carrier_ok s \<and> queue_stopped s \<longrightarrow> TTY_DO_WRITE_WAKEUP s)"

lemma work_loop_wakeup: "work_loop K n m es s = Some (w, s') \<Longrightarrow> wakeup_ok s \<Longrightarrow> wakeup_ok s'"
proof (induction es arbitrary: s)
  case Nil
  then show ?case by simp
next
  case (Cons e es)
  show ?case
  proof (cases "\<not> force_reset s \<and> gpio_value e = 0")
    case True
    with Cons.prems(1) show ?thesis by (auto simp: wakeup_ok_def)
  next
    case False
    define v where "v = (if force_reset s then s\<lparr>force_reset := False\<rparr>
      else s\<lparr>uart_recv_status := STATUS_LEN, netif_info_recv_len := 0, netif_info_vaild := False\<rparr>)"
    have "wakeup_ok v"
      using Cons.prems(2) by (simp add: v_def wakeup_ok_def)
    moreover obtain u where u: "work_provision K n m v = Some u"
      "(if False \<in> set (take 10 (holds e)) then Some (Stopped, u) else work_loop K n m es u) = Some (w, s')"
      using False Cons.prems(1) by (auto simp: v_def split: bind_splits)
    ultimately have "wakeup_ok u"
      by (auto simp: work_provision_def wakeup_ok_def Let_def split: bind_splits)
    with u(2) show ?thesis using Cons.IH [of u] by (auto split: if_splits)
  qed
qed

lemma host_step_wakeup:
  assumes "host_step K s s'" "wakeup_ok s"
  shows "wakeup_ok s'"
  using assms(1)
proof (rule host_stepE)
  fix buf :: "byte list" and attr ret
  assume "str_store attr buf s = Some (ret, s')"
  then show ?thesis
    using assms(2) by (auto simp: str_store_def wakeup_ok_def Let_def split: bind_splits if_splits)
next
  fix a irq ret
  assume "uart_wifi_open a irq s = Some (ret, s')"
  then show ?thesis
    using assms(2) by (auto simp: uart_wifi_open_def ttyio_init_def wakeup_ok_def Let_def split: bind_splits if_splits)
next
  fix es w
  assume "esp8266ex_init_work_handler K es s = Some (w, s')"
  then obtain n m where "work_loop K n m es (s\<lparr>work_pending := False\<rparr>) = Some (w, s')"
    by (auto simp: esp8266ex_init_work_handler_def split: bind_splits)
  moreover have "wakeup_ok (s\<lparr>work_pending := False\<rparr>)"
    using assms(2) by (simp add: wakeup_ok_def)
  ultimately show ?thesis by (rule work_loop_wakeup)
next
  fix fuel cp p
  assume "ttyio_receive_buf2 K fuel cp (Some s) = Done (p, Some s')"
  then show ?thesis
    using ttyio_receive_buf2_kept [of K fuel cp s p s'] assms(2) by (simp add: ld_kept_def wakeup_ok_def)
qed (use assms(2) in \<open>auto simp: uart_wifi_stop_def uart_wifi_xmit_def ttyio_write_wakeup_def gpio_irq_handler_def
    wakeup_ok_def Let_def split: if_splits\<close>)

lemma host_reachable_wakeup: "(host_step K)\<^sup>*\<^sup>* s s' \<Longrightarrow> wakeup_ok s \<Longrightarrow> wakeup_ok s'"
  by (induction rule: rtranclp_induct) (auto intro: host_step_wakeup)


section \<open>Properties\<close>

lemma probe_credential_ok:
  assumes "probe_credential bound str blk = Some blk'" "4 \<le> length blk" "bound \<le> 67"
  shows "length blk' = length blk \<and> cred_ok blk'"
proof (cases "\<exists>str0. str = Some str0 \<and> int (length str0) + 1 \<le> bound")
  case True
  then obtain str0 where t: "str = Some str0" "int (length str0) + 1 \<le> bound" by blast
  have "length str0 + 4 \<le> length blk"
  proof -
    obtain b1 b2 where b: "blk_write blk 0 (store_u16 (int (length str0) + 1)) = Some b1"
      "blk_write b1 2 (str0 @ [0]) = Some b2" "blk_write b2 (2 + (int (length str0) + 1)) [SPLIT_CMD] = Some blk'"
      using assms(1) t by (auto simp: probe_credential_def Let_def split: bind_splits)
    have "2 + (int (length str0) + 1) + 1 \<le> int (length b2)"
      using b(3) by (simp add: blk_write_def split: if_splits)
    then show ?thesis
      using length_blk_write [OF b(1)] length_blk_write [OF b(2)] by linarith
  qed
  moreover from this obtain b where "probe_credential bound str blk = Some b" "length b = length blk" "credential b str0"
    using probe_credential_frame [of str0 blk bound] t assms(3) by auto
  ultimately show ?thesis
    using assms(1) credential_cred_ok by auto
next
  case False
  then have "empty_credential blk = Some blk'"
    using assms(1) by (auto simp: probe_credential_def Let_def split: option.splits if_splits)
  then have "blk' = [0, 0, 0, SPLIT_CMD] @ drop 4 blk"
    using assms(2) by (auto simp: empty_credential_def blk_write_def store_u16_def numeral_eq_Suc split: bind_splits if_splits)
  with assms(2) show ?thesis
    by (auto simp: cred_ok_def load_u16_at_def blk_get_def load_u16_def)
qed

lemma probe_tty_name_ok:
  assumes "probe_tty_name str blk = Some blk'"
  shows "length blk' = length blk \<and> 0 \<in> set blk'"
  using assms by (auto simp: probe_tty_name_def dest: length_blk_write blk_write_set split: option.splits if_splits)

lemma probe_wf:
  assumes "uart_wifi_probe e t = Some (0, s, files)"
  shows "host_wf s"
proof -
  obtain nm sd pw where "probe_tty_name (of_tty_name e) (replicate 10 0) = Some nm"
    "probe_credential WPA_MAX_SSID_LEN (of_ssid e) (replicate 35 0) = Some sd"
    "probe_credential 67 (of_password e) (replicate 67 0) = Some pw"
    and s: "tty_name s = nm" "ssid s = sd" "password s = pw" "length (netif_info s) = 64"
      "length (recv_output s) = 4096" "length (dump_output s) = 4096"
    using assms by (auto simp: uart_wifi_probe_def ENOMEM_def host_init_def netdev_init_def Let_def
        split: if_splits bind_splits prod.splits)
  then show ?thesis
    using probe_tty_name_ok [of _ "replicate 10 0" nm]
      probe_credential_ok [of WPA_MAX_SSID_LEN _ "replicate 35 0" sd] probe_credential_ok [of 67 _ "replicate 67 0" pw]
    by (simp add: host_wf_def WPA_MAX_SSID_LEN_def)
qed


lemma plain_probe_returns:
  "\<exists>s files. uart_wifi_probe (plain_probe (replicate 8 0x31)) t = Some (0, s, files)"
proof -
  obtain pw where "probe_credential 67 (Some (replicate 8 0x31)) (replicate 67 0) = Some pw"
    using probe_credential_frame [of "replicate 8 0x31" "replicate 67 0" 67] by auto
  moreover obtain sd where "probe_credential WPA_MAX_SSID_LEN None (replicate 35 0) = Some sd"
    by (simp add: probe_credential_def empty_credential_def blk_write_def store_u16_def)
  moreover obtain nm where "probe_tty_name None (replicate 10 0) = Some nm"
    by (simp add: probe_tty_name_def blk_write_def)
  ultimately show ?thesis
    by (simp add: uart_wifi_probe_def plain_probe_def probe_files_def netdev_init_def host_init_def Let_def)
qed



lemma probe_wakeup: "uart_wifi_probe e t = Some (ret, s, files) \<Longrightarrow> wakeup_ok s"
  by (auto simp: uart_wifi_probe_def host_init_def netdev_init_def wakeup_ok_def Let_def
      split: if_splits bind_splits prod.splits)

lemma probe_network: "uart_wifi_probe e t = Some (0, s, files) \<Longrightarrow> carrier_ok s \<and> tty s = t"
  by (auto simp: uart_wifi_probe_def host_init_def netdev_init_def Let_def split: if_splits bind_splits prod.splits)



end
