(* ===== verification/Spec2Isabelle.thy ===== *)
theory Spec2Isabelle
  imports Esp_Main Host_Driver
begin

text \<open>
  Verification of esp8266\_hosted\_linux: a Linux driver (\<open>src/uart_wifi_driver\<close>) and a firmware for the
  ESP8266 (\<open>src/uart_wifi_passthrough\<close>) that together make the chip a network interface of the host.
  The two programs talk over a serial line in frames \<^verbatim>\<open>[2 byte length][data][1 byte split]\<close>. At start the
  driver resets the chip and sends it the name and the password of the Wi-Fi network; the firmware joins
  the network, sends the address it was given, and waits for an echo of it; then both sides exchange IP
  packets. A pin tells the host whether the link is up.

  \<^bold>\<open>Theories and sources.\<close>

  \<^item> \<open>Prelude\<close>: C integers with their wrap-around, memory blocks with bounds-checked accesses, the scan loop
    for a separator, \<open>snprintf\<close>. Undefined behaviour (an access outside a block, a null dereference, a copy
    of negative length) is the value \<open>None\<close> everywhere.
  \<^item> \<open>Frames\<close>: the constants of both \<open>common.h\<close>, the frame format, and the abstract receiver \<open>next_frame\<close> and
    \<open>payloads\<close>, a function on byte streams that specifies all five receivers of the program. Its laws say
    that the division of a stream into pieces does not matter.
  \<^item> \<open>Esp_Receive\<close>, \<open>Esp_Handshake\<close>, \<open>Esp_Packets\<close>: \<open>uart2wifi.c\<close>. The state \<open>uart_rx\<close> holds the globals of
    the file; \<open>uart0_recv_data\<close>, \<open>recv_ssid\<close>, \<open>recv_passwd\<close>, \<open>recv_netif_info\<close> and \<open>uart2wifi\<close> are the
    functions of the same names. The locales \<open>receiver\<close> and \<open>blocking_receiver\<close> hold what their state
    machines have in common; the four functions are interpretations of them.
  \<^item> \<open>Esp_Queue\<close>, \<open>Esp_Send\<close>: \<open>wifi2uart.c\<close>. The queue is a linked list on an explicit heap that refines a list
    of packets (locale \<open>packet_queue\<close>); the state \<open>uart_tx\<close> holds the queue and the send buffer.
  \<^item> \<open>Esp_Main\<close>: \<open>main.c\<close> of the firmware and the hook of \<open>lwip.patch\<close>: \<open>init\<close>, \<open>wifi_init_sta\<close>, \<open>start_hock\<close>,
    the event handler, and \<open>app_main\<close> with the Wi-Fi task as the step relation \<open>esp_step\<close>.
  \<^item> \<open>Dump\<close>: \<open>dump.c\<close> of the driver and the two dumps of the firmware.
  \<^item> \<open>Line_Settings\<close>: the settings of the serial port in \<open>ttyio_init\<close> and in \<open>init\<close>.
  \<^item> \<open>Host_State\<close>: \<open>struct uart_wifi_struct\<close>, the kernel services as a parameter, and loops with \<open>goto\<close>.
  \<^item> \<open>Host_Uart\<close>, \<open>Host_Info\<close>: \<open>uart.c\<close>. \<open>ttyio_receive_data\<close> and \<open>ttyio_netif_info\<close> are loops over the step
    functions \<open>rx_step\<close> and \<open>ni_step\<close>, which run from the label \<open>restart\<close> to the next \<open>goto\<close>.
  \<^item> \<open>Host_Netdev\<close>: \<open>netdev.c\<close> and \<open>ttyio_init\<close>. \<open>Host_Main\<close>: \<open>main.c\<close> of the driver.
  \<^item> \<open>Host_Driver\<close>: the operations of the driver in any order, as the step relation \<open>host_step\<close>.
  \<^item> This theory: the two directions of the link as interpretations of one locale, the start-up, and the
    properties of the whole system.

  \<^bold>\<open>What is shown.\<close>

  \<^item> In both directions the packets one end takes are the packets the other end delivers, each once and in
    order, for every division of the bytes into FIFO samples or tty chunks, every interleaving of the tasks
    and every pattern of failing allocations; and they are all delivered after boundedly many calls.
  \<^item> The credentials reach the station configuration, the configuration handshake completes on both sides, and
    both ends configure the serial line alike.
  \<^item> The running firmware never faults (\<open>esp_inv\<close> holds in every reachable state), nor does the driver
    outside its receive path (\<open>host_wf\<close>). The receive path of the driver is safe on streams without a framing
    error; with one, it can run past the chunk, lose a frame, or loop for ever, and theorems show each.
  \<^item> The queue refines a bounded FIFO list, without leaks, double frees or dangling pointers.
  \<^item> Bounds of the sysfs attributes, of the device tree credentials, of the transmit FIFO and of the dumps, some
    of which the code violates.

  \<^bold>\<open>Parameters.\<close> FreeRTOS, the Wi-Fi stack and the Linux kernel are not part of the repository. What they answer
  is an argument (\<open>malloc\<close>, \<open>lock_ok\<close>, \<open>tty_answers\<close>, \<open>probe_env\<close>, \<open>work_env\<close>) or a field of the record \<open>kernel\<close>,
  with the behaviour the program relies on as the predicates \<open>malloc_fresh\<close>, \<open>skb_kernel_ok\<close>, \<open>tx_kernel_ok\<close>,
  \<open>tty_ok\<close>, \<open>flush_room\<close>, \<open>flags_ok\<close> and \<open>encode_ok\<close>; \<open>bump\<close>, \<open>plain_kernel\<close>, \<open>plain_answers\<close> and \<open>linux_flags\<close> are
  concrete instances. The hardware is a list of samples: what the receive FIFO holds when it is read, and how
  full the transmit FIFO is when it is written.

  \<^bold>\<open>Fuel.\<close> The two loops of the line discipline may run for ever, so they take fuel. For a chunk of \<open>n\<close> bytes and a
  clean stream \<open>3 * n + 3008\<close> rounds are enough: every round takes a byte from the chunk or moves one step
  towards the end of the frame in the buffer, which has at most 1503 bytes. That one call does not end is
  proved for every amount of fuel. All other functions are total; the blocking receivers of the firmware end
  as \<open>Spinning\<close> when the list of samples is used up.

  \<^bold>\<open>Assumptions on the platform.\<close> \<open>char\<close> is unsigned and integers are little endian, as on the ESP8266 and on the
  ARM hosts of the project. The 64-bit packet counters do not overflow.

  \<^bold>\<open>Not modelled.\<close> Log lines; the dumps of the firmware at their call sites (they are shown to be safe for every
  length); \<open>BUG_ON\<close> on the unsigned length of a socket buffer, which cannot fire; spinlocks and the rwlock, since
  every operation of the driver is one step (an interrupt in the middle of one, which could lose a wake-up
  of the queue, is not a behaviour of the model); the sleeps of the work handler; the calls of the SDK that
  start the Wi-Fi stack; the locking that \<open>lwip.patch\<close> adds inside lwIP; a second assignment of an
  address while the main loop runs, for which \<open>start_hock\<close> and the main loop would race for the receive buffer;
  build files.
\<close>

section \<open>The two directions of the link\<close>

text \<open>
  The contracts of the two ends: a source puts the frames of packets on the line, a sink makes packets of
  the bytes it gets in chunks of the sizes it can take. Both directions of the program are such a link.
\<close>

locale packet_source =
  fixes sends :: "'s \<Rightarrow> byte list list \<Rightarrow> byte list \<Rightarrow> bool"
  assumes sends_frames: "sends r ds w \<Longrightarrow> w = concat (map (mk_frame SPLIT_DATA) ds)"

locale packet_sink =
  fixes chunk_ok :: "byte list \<Rightarrow> bool"
    and receives :: "byte list list \<Rightarrow> byte list list \<Rightarrow> bool"
  assumes receives_frames: "(\<And>d. d \<in> set ds \<Longrightarrow> ip_packet d) \<Longrightarrow> list_all chunk_ok cs \<Longrightarrow> cs \<noteq> [] \<Longrightarrow>
    concat cs = concat (map (mk_frame SPLIT_DATA) ds) \<Longrightarrow> receives cs ds"

locale packet_link = packet_source sends + packet_sink chunk_ok receives
  for sends :: "'s \<Rightarrow> byte list list \<Rightarrow> byte list \<Rightarrow> bool"
    and chunk_ok :: "byte list \<Rightarrow> bool"
    and receives :: "byte list list \<Rightarrow> byte list list \<Rightarrow> bool"
begin

lemma carried:
  assumes "sends r ds w" "\<And>d. d \<in> set ds \<Longrightarrow> ip_packet d" "concat cs = w" "list_all chunk_ok cs" "cs \<noteq> []"
  shows "receives cs ds"
  using receives_frames [OF assms(2,4,5)] sends_frames [OF assms(1)] assms(3) by simp

end

subsection \<open>From the host to the Wi-Fi network\<close>

definition xmit_sends :: "'t kernel \<Rightarrow> 't tx_action list \<times> 't host \<Rightarrow> byte list list \<Rightarrow> byte list \<Rightarrow> bool" where
  "xmit_sends K r ds w \<longleftrightarrow> tty_ok K \<and> tx_kernel_ok K \<and> actions_ok K (fst r) \<and>
     (\<exists>taken s'. xmit_run K (fst r) ([], snd r) = (taken, s') \<and> ds = map tx_packet taken \<and>
        tty_sent K (tty s') = tty_sent K (tty (snd r)) @ w)"

definition fifo_sample :: "byte list \<Rightarrow> bool" where
  "fifo_sample c \<longleftrightarrow> int (length c) \<le> UART_FIFO_LEN"

definition esp_receives :: "byte list list \<Rightarrow> byte list list \<Rightarrow> bool" where
  "esp_receives cs ds \<longleftrightarrow>
     (\<exists>s'. uart2wifi_calls (replicate (length cs + length (concat cs)) (True, 0)) (uart_rx_init cs) = Some s' \<and>
        netif_output s' = map with_dest ds)"

interpretation up_link: packet_link "xmit_sends K" fifo_sample esp_receives
  for K :: "'t kernel"
proof
  fix r ds w
  assume "xmit_sends K r ds w"
  then show "w = concat (map (mk_frame SPLIT_DATA) ds)"
    using xmit_run_frames [of K "fst r" "[]" "snd r"] by (auto simp: xmit_sends_def comp_def)
next
  fix ds cs :: "byte list list"
  assume "\<And>d. d \<in> set ds \<Longrightarrow> ip_packet d" "list_all fifo_sample cs"
    "concat cs = concat (map (mk_frame SPLIT_DATA) ds)"
  then show "esp_receives cs ds"
    using uart2wifi_calls_all [of cs "length cs + length (concat cs)"] frames_clean(2) [of ds]
    by (simp add: esp_receives_def fifo_ok_def fifo_sample_def list_all_iff)
qed

subsection \<open>From the Wi-Fi network to the host\<close>

definition esp_sends :: "allocator \<times> tx_event list \<times> int list \<Rightarrow> byte list list \<Rightarrow> byte list \<Rightarrow> bool" where
  \<comment> \<open>a run of the firmware that has put everything it accepted on the wire\<close>
  "esp_sends = (\<lambda>(malloc, es, cnts) ds w. malloc_fresh malloc \<and> event_packets_ok es \<and> (\<forall>c\<in>set cnts. cnt_ok c) \<and>
     (\<exists>s. tx_run malloc es ([], uart_tx_init cnts) = Some (ds, s) \<and> wire s = w \<and> unsent s = [] \<and>
        queue_rep (eth_recv_queue s) []))"

definition tty_chunk :: "byte list \<Rightarrow> bool" where
  "tty_chunk c \<longleftrightarrow> length c < 2147483648"

definition host_receives :: "'t kernel \<Rightarrow> 't \<Rightarrow> byte list list \<Rightarrow> byte list list \<Rightarrow> bool" where
  "host_receives K t cs ds \<longleftrightarrow> (skb_kernel_ok K \<and> allocs_succeed K \<longrightarrow>
     (\<exists>s'. tty_feed K (3 * length (concat cs) + 3008) (map length cs) (concat cs) (host_init t) = Done ([], s') \<and>
        map skb_bytes (netif_rx s') = ds))"

lemma queue_rep_Nil_unique: "queue_rep hq [] \<Longrightarrow> queue_rep hq ds \<Longrightarrow> ds = []"
  by (cases ds) (auto simp: queue_rep_def queue_cells_def list_all2_Cons2)

interpretation down_link: packet_link esp_sends tty_chunk "host_receives K t"
  for K :: "'t kernel" and t :: 't
proof
  fix r ds w
  assume a: "esp_sends r ds w"
  obtain malloc es cnts where r: "r = (malloc, es, cnts)" by (cases r) auto
  with a obtain s where s: "malloc_fresh malloc" "event_packets_ok es" "\<forall>c\<in>set cnts. cnt_ok c"
    "tx_run malloc es ([], uart_tx_init cnts) = Some (ds, s)" "wire s = w" "unsent s = []"
    "queue_rep (eth_recv_queue s) []"
    by (auto simp: esp_sends_def)
  from tx_run_conserve [OF s(1,2) tx_inv_init [OF s(3)], of "[]"] s(4) obtain ds' where
    "tx_inv s ds'" "wire s @ unsent s @ frames ds' = frames ds"
    by (auto simp: unsent_init)
  then show "w = concat (map (mk_frame SPLIT_DATA) ds)"
    using queue_rep_Nil_unique [OF s(7), of ds'] s(5,6) by (simp add: tx_inv_def frames_def)
next
  fix ds cs :: "byte list list"
  assume a: "\<And>d. d \<in> set ds \<Longrightarrow> ip_packet d" "list_all tty_chunk cs" "cs \<noteq> []"
    "concat cs = concat (map (mk_frame SPLIT_DATA) ds)"
  have sum: "sum_list (map length cs) = length (concat cs)"
    by (simp add: length_concat)
  have "length c \<le> length (concat cs)" if "c \<in> set cs" for c
    using that by (induction cs) auto
  then have ch: "chunks_ok (3 * length (concat cs) + 3008) (host_mode (host_init t)) (map length cs)"
    using a(2) by (auto simp: chunks_ok_def tty_chunk_def list_all_iff host_init_rx)
  show "host_receives K t cs ds"
    unfolding host_receives_def
  proof
    assume K: "skb_kernel_ok K \<and> allocs_succeed K"
    have "map length cs = [] \<longrightarrow> ds = []" "length (concat cs) \<le> sum_list (map length cs)"
      using a(3) sum by simp_all
    from tty_feed_frames [OF conjunct1 [OF K] conjunct2 [OF K] host_init_rx a(1) a(4) this ch] obtain s' new where
      "tty_feed K (3 * length (concat cs) + 3008) (map length cs) (concat cs) (host_init t) = Done ([], s')"
      "delivered K (host_init t) s' new" "map skb_bytes new = ds"
      by blast
    moreover have "netif_rx (host_init t) = []"
      by (simp add: host_init_def)
    ultimately show "\<exists>s'. tty_feed K (3 * length (concat cs) + 3008) (map length cs) (concat cs) (host_init t) = Done ([], s') \<and>
        map skb_bytes (netif_rx s') = ds"
      by (auto simp: delivered_def)
  qed
qed


section \<open>Start-up\<close>

lemma str_store_accepts:
  assumes "0 \<notin> set name"
  shows "length name \<le> 31 \<Longrightarrow> length (ssid s) = 35 \<Longrightarrow>
      \<exists>blk. str_store ''ssid'' (name @ [0x0a]) s = Some (int (length name) + 1, s\<lparr>ssid := blk\<rparr>) \<and> credential blk name"
    and "length name \<le> 63 \<Longrightarrow> length (password s) = 67 \<Longrightarrow>
      \<exists>blk. str_store ''password'' (name @ [0x0a]) s = Some (int (length name) + 1, s\<lparr>password := blk\<rparr>) \<and> credential blk name"
proof -
  have nl: "blk_get (name @ [0x0a]) (int (length name)) = Some 0x0a"
    by (simp add: blk_get_def)
  show "\<exists>blk. str_store ''ssid'' (name @ [0x0a]) s = Some (int (length name) + 1, s\<lparr>ssid := blk\<rparr>) \<and> credential blk name"
    if l: "length name \<le> 31" "length (ssid s) = 35"
  proof -
    obtain blk where "store_credential (ssid s) (name @ [0x0a]) = Some blk" "credential blk name"
      using store_credential_frame [OF assms, of "ssid s"] l by auto
    with nl l show ?thesis
      by (intro exI [of _ blk]) (simp add: str_store_def Let_def link_consts)
  qed
  show "\<exists>blk. str_store ''password'' (name @ [0x0a]) s = Some (int (length name) + 1, s\<lparr>password := blk\<rparr>) \<and> credential blk name"
    if l: "length name \<le> 63" "length (password s) = 67"
  proof -
    obtain blk where "store_credential (password s) (name @ [0x0a]) = Some blk" "credential blk name"
      using store_credential_frame [OF assms, of "password s"] l by auto
    with nl l show ?thesis
      by (intro exI [of _ blk]) (simp add: str_store_def Let_def link_consts)
  qed
qed

lemma uart_wifi_open_ok:
  assumes "credential (ssid s) name" "credential (password s) pw" "tty_grants a"
  shows "\<exists>s'. uart_wifi_open a 0 s = Some (0, s') \<and> ssid s' = ssid s \<and> password s' = password s \<and> force_reset s'"
  using uart_wifi_open_grants [OF credential_reads(1) [OF assms(1)] credential_reads(1) [OF assms(2)] _ _ assms(3)]
  by auto

lemma info_frame_ip: "info_frame (ip4_bytes ip @ ip4_bytes netmask @ ip4_bytes gw) = netif_info_frame ip netmask gw"
  by (simp add: info_frame_def netif_info_frame_def)

text \<open>Zero bytes at the start of a stream make the packet receiver skip to the first separator behind them.\<close>

lemma payloads_behind_zeros:
  assumes "SPLIT_DATA \<notin> set (store_u16 (int (length d)) @ d)" "\<And>p. p \<in> set ds \<Longrightarrow> ip_packet p"
  shows "payloads data_fmt Sync (replicate 49 0 @ concat (map (mk_frame SPLIT_DATA) (d # ds))) = ds"
proof -
  let ?junk = "replicate 49 0 @ store_u16 (int (length d)) @ d"
  let ?r = "concat (map (mk_frame SPLIT_DATA) ds)"
  let ?w = "?junk @ SPLIT_DATA # ?r"
  have "bad_at data_fmt ?w"
    by (simp add: bad_at_def hdr_def data_fmt_def load_i16_def load_u16_def int16_def numeral_eq_Suc)
  then have "next_frame data_fmt Sync ?w = next_frame data_fmt Hunt ?w"
    by (simp add: next_frame_Sync bad_not_full)
  also have "\<dots> = next_frame data_fmt Sync ?r"
    using after_split_skip [of SPLIT_DATA ?junk ?r] assms(1)
    by (simp only: next_frame_Hunt) (simp add: data_fmt_def SPLIT_DATA_def)
  finally have "payloads data_fmt Sync ?w = payloads data_fmt Sync ?r"
    using payloads_cong [of data_fmt Sync ?w Sync ?r "[]"] by simp
  then show ?thesis
    using data_payloads_frames [of ds "[]"] assms(2) by (simp add: mk_frame_def payloads.simps [of _ _ "[]"] next_frame_Sync full_at_def bad_at_def)
qed


section \<open>Properties of the whole system\<close>



text \<open>C2: packets of the Wi-Fi network reach the host. For every interleaving of the firmware's tasks that
  has sent what it queued, and every way the bytes are cut into chunks by the tty layer, the driver gives
  the network stack exactly the packets the firmware accepted, in order.\<close>

theorem wifi_to_host:
  assumes "malloc_fresh malloc" "event_packets_ok es" "\<forall>c\<in>set cnts. cnt_ok c"
    "tx_run malloc es ([], uart_tx_init cnts) = Some (acc, e)" "unsent e = []" "queue_rep (eth_recv_queue e) []"
    "\<And>d. d \<in> set acc \<Longrightarrow> ip_packet d" "concat cs = wire e" "cs \<noteq> []" "\<forall>c\<in>set cs. length c < 2147483648"
    "skb_kernel_ok K" "allocs_succeed K"
  shows "\<exists>s'. tty_feed K (3 * length (concat cs) + 3008) (map length cs) (concat cs) (host_init t) = Done ([], s') \<and>
    map skb_bytes (netif_rx s') = acc"
proof -
  have "esp_sends (malloc, es, cnts) acc (wire e)"
    using assms(1-6) by (auto simp: esp_sends_def)
  then have "host_receives K t cs acc"
    using down_link.carried [of "(malloc, es, cnts)" acc "wire e" cs K t] assms(7-10)
    by (auto simp: tty_chunk_def list_all_iff)
  then show ?thesis
    using assms(11,12) by (simp add: host_receives_def)
qed

theorem wifi_to_host_witness:
  "\<exists>s'. tty_feed plain_kernel (3 * length (concat [frames [replicate 20 7]]) + 3008) (map length [frames [replicate 20 7]])
      (concat [frames [replicate 20 7]]) (host_init (0, [])) = Done ([], s') \<and>
    map skb_bytes (netif_rx s') = [replicate 20 7]"
proof -
  let ?es = "WifiPacket (replicate 20 7) True # replicate 23 (MainLoop True)" let ?cnts = "replicate 23 0"
  have p: "wifi_packet (replicate 20 7)" and cn: "\<forall>c\<in>set ?cnts. cnt_ok c"
    by (simp_all add: wifi_packet_def cnt_ok_def link_consts)
  have init: "txfifo_cnts (uart_tx_init ?cnts) = ?cnts"
    by (simp add: uart_tx_init_def)
  obtain r e1 where e1: "uart_wifi_recv bump True (replicate 20 7) (uart_tx_init ?cnts) = Some (r, e1)"
    "tx_inv e1 (if r = QUEUE_OK then [] @ [replicate 20 7] else [])" "wire e1 = []" "unsent e1 = []" "txfifo_cnts e1 = ?cnts"
    using uart_wifi_recv_step [OF tx_inv_init [OF cn] bump_fresh p, of True] init by (auto simp: unsent_init)
  have r: "r = QUEUE_OK"
    using e1(1) by (auto simp: uart_wifi_recv_def queue_enqueue_def uart_tx_init_def new_queue_def MAX_QUEUE_LENGTH_def
        bump_def Let_def blk_read_def uint16_def split: bind_splits if_splits)
  then obtain e where e: "tx_run bump (replicate 23 (MainLoop True)) ([replicate 20 7], e1) = Some ([replicate 20 7], e)"
    "tx_inv e []" "wire e = frames [replicate 20 7]" "unsent e = []"
    using wifi2uart_drain [of e1 "[replicate 20 7]" 23 bump "[replicate 20 7]"] e1 by (auto simp: UART_FIFO_LEN_def)
  have run: "tx_run bump ?es ([], uart_tx_init ?cnts) = Some ([replicate 20 7], e)"
    using e1(1) e(1) r by simp
  have "event_packets_ok ?es"
    using p by (simp add: event_packets_ok_def list_all_iff)
  moreover have "allocs_succeed plain_kernel"
    by (simp add: allocs_succeed_def plain_kernel_def)
  ultimately show ?thesis
    using e by (intro wifi_to_host [OF bump_fresh _ cn run])
      (simp_all add: plain_kernel_ok tx_inv_def ip_packet_def link_consts)
qed

text \<open>C8: the credentials of the user reach the station configuration. A name of at most 31 and a password of
  7 to 63 characters are written to sysfs, the device is opened and the work handler runs until it finds
  the pin low. Behind the last flush the line then carries bytes from which the firmware, started by the
  reset and however the bytes are cut into FIFO samples, configures the station with exactly that name and
  that password.\<close>

theorem credentials_reach_station:
  assumes "tty_ok K" "flush_room K (int (length name + length pw + 8))" "0 \<notin> set name" "0 \<notin> set pw"
    "length name \<le> 31" "7 \<le> length pw" "length pw \<le> 63" "False \<notin> set (take 10 (holds e0))"
    "list_all round_fails es" "gpio_value e = 0" "tty_grants a"
  shows "\<exists>s1 s2 s3 s4 t0 bytes.
    str_store ''ssid'' (name @ [0x0a]) (host_init t) = Some (int (length name) + 1, s1) \<and>
    str_store ''password'' (pw @ [0x0a]) s1 = Some (int (length pw) + 1, s2) \<and>
    uart_wifi_open a 0 s2 = Some (0, s3) \<and>
    esp8266ex_init_work_handler K (e0 # es @ [e]) s3 = Some (LinkUp, s4) \<and> carrier_ok s4 \<and>
    tty_sent K (tty s4) = tty_sent K (tty_flush_buffer K t0) @ bytes \<and>
    (\<forall>malloc g fifo cnts r. malloc empty_heap sizeof_ThreadSafeQueue \<noteq> 0 \<and> fifo_ok fifo \<and> concat fifo = bytes @ r \<and>
        (\<forall>c\<in>set cnts. cnt_ok c) \<longrightarrow>
      (\<exists>f. init malloc True True (esp_reset g fifo cnts) =
          Some (Init_Configured (name @ replicate (32 - length name) 0) (pw @ replicate (64 - length pw) 0), f) \<and>
        boot_ok f \<and> stream (rx f) = r))"
proof -
  let ?bytes = "mk_frame SPLIT_CMD (name @ [0]) @ mk_frame SPLIT_CMD (pw @ [0])"
  have len: "length (ssid (host_init t)) = 35" "length (password (host_init t)) = 67"
    by (simp_all add: host_init_def)
  obtain b1 where b1: "str_store ''ssid'' (name @ [0x0a]) (host_init t) = Some (int (length name) + 1, (host_init t)\<lparr>ssid := b1\<rparr>)"
    "credential b1 name"
    using str_store_accepts(1) [OF assms(3,5) len(1)] by blast
  obtain b2 where b2: "str_store ''password'' (pw @ [0x0a]) ((host_init t)\<lparr>ssid := b1\<rparr>) =
      Some (int (length pw) + 1, (host_init t)\<lparr>ssid := b1, password := b2\<rparr>)" "credential b2 pw"
    using str_store_accepts(2) [OF assms(4,7), of "(host_init t)\<lparr>ssid := b1\<rparr>"] len(2) by auto
  obtain s3 where s3: "uart_wifi_open a 0
      ((host_init t)\<lparr>ssid := b1, password := b2\<rparr>) = Some (0, s3)" "credential (ssid s3) name" "credential (password s3) pw"
      "force_reset s3"
    using uart_wifi_open_ok [of "(host_init t)\<lparr>ssid := b1, password := b2\<rparr>" name pw, OF _ _ assms(11)] b1(2) b2(2) by auto
  obtain s4 t0 where s4: "esp8266ex_init_work_handler K (e0 # es @ [e]) s3 = Some (LinkUp, s4)" "carrier_ok s4"
    "tty_sent K (tty s4) = tty_sent K (tty_flush_buffer K t0) @ ?bytes"
    using work_handler_provisions [OF assms(1,2) s3(2-4) assms(8-10)] by auto
  have "\<exists>f. init malloc True True (esp_reset g fifo cnts) =
          Some (Init_Configured (name @ replicate (32 - length name) 0) (pw @ replicate (64 - length pw) 0), f) \<and>
        boot_ok f \<and> stream (rx f) = r"
    if "malloc empty_heap sizeof_ThreadSafeQueue \<noteq> 0 \<and> fifo_ok fifo \<and> concat fifo = ?bytes @ r \<and> (\<forall>c\<in>set cnts. cnt_ok c)"
    for malloc g fifo cnts r
    using wifi_init_sta_boots [OF boot_ok_init, of fifo cnts name pw r] that assms(5-7)
    by (auto simp: init_reset stream_def rx_init_simps)
  then show ?thesis
    using b1(1) b2(1) s3(1) s4 by blast
qed

theorem credentials_reach_station_witness:
  "\<exists>s1 s2 s3 s4 t0 bytes.
    str_store ''ssid'' ([0x6d, 0x6f] @ [0x0a]) (host_init (0, [])) = Some (int (length [0x6d, 0x6f :: byte]) + 1, s1) \<and>
    str_store ''password'' (replicate 8 0x31 @ [0x0a]) s1 = Some (int (length (replicate 8 (0x31 :: byte))) + 1, s2) \<and>
    uart_wifi_open plain_answers 0 s2 = Some (0, s3) \<and>
    esp8266ex_init_work_handler plain_kernel (\<lparr>gpio_value = 1, holds = []\<rparr> #
        [\<lparr>gpio_value = 1, holds = replicate 10 True\<rparr>] @ [\<lparr>gpio_value = 0, holds = []\<rparr>]) s3 = Some (LinkUp, s4) \<and> carrier_ok s4 \<and>
    tty_sent plain_kernel (tty s4) = tty_sent plain_kernel (tty_flush_buffer plain_kernel t0) @ bytes \<and>
    (\<forall>malloc g fifo cnts r. malloc empty_heap sizeof_ThreadSafeQueue \<noteq> 0 \<and> fifo_ok fifo \<and> concat fifo = bytes @ r \<and>
        (\<forall>c\<in>set cnts. cnt_ok c) \<longrightarrow>
      (\<exists>f. init malloc True True (esp_reset g fifo cnts) =
          Some (Init_Configured ([0x6d, 0x6f] @ replicate (32 - length [0x6d, 0x6f :: byte]) 0)
            (replicate 8 0x31 @ replicate (64 - length (replicate 8 (0x31 :: byte))) 0), f) \<and>
        boot_ok f \<and> stream (rx f) = r))"
proof -
  have "flush_room plain_kernel 18"
    by (simp add: flush_room_def plain_kernel_def)
  then show ?thesis
    by (intro credentials_reach_station) (simp_all add: plain_kernel_ok plain_grants round_fails_def)
qed

text \<open>C9: the configuration handshake between the two ends. The frame \<open>start_hock\<close> sends for the assigned
  address is what the driver waits for: given to the line discipline in chunks of any sizes it is
  accepted and published, and the echo, however it is cut into FIFO samples, lets \<open>start_hock\<close> return
  with the link up and the invariant of the running firmware established. The 49 bytes the driver sends
  behind the echo stay in the firmware's stream.\<close>

theorem configuration_handshake:
  assumes "skb_kernel_ok K" "allocs_succeed K" "tty_ok K" "64 \<le> tty_write_room K t"
    "find (\<lambda>n. nif_ip n = ip) netif_list = Some n" "ni = netif_info_frame (nif_ip n) (nif_netmask n) (nif_gw n)"
    "session_chunks fuel ns" "15 \<le> length ns" "boot_ok f" "15 \<le> room (txfifo_cnts (tx f))"
  shows "\<exists>s' bytes. line_feed K fuel ns ni (host_init t) = Done ([], s') \<and> netif_info_vaild s' \<and>
    tty_sent K (tty s') = tty_sent K t @ bytes \<and>
    (\<forall>r. stream (rx f) = bytes @ r \<longrightarrow> (\<exists>f'. start_hock ip netif_list f = Some (Returned, f') \<and> esp_inv f' \<and>
       wire (tx f') = wire (tx f) @ ni \<and> runFlag f' \<and> \<not> gpio5 f' \<and> stream (rx f') = replicate 49 0 @ r))"
proof -
  let ?addrs = "ip4_bytes (nif_ip n) @ ip4_bytes (nif_netmask n) @ ip4_bytes (nif_gw n)"
  let ?bytes = "ni @ replicate 49 0"
  have ni: "ni = info_frame ?addrs" "length ?addrs = 12" "length ni = 15"
    using assms(6) by (simp_all add: info_frame_ip)
  have "ni_waiting ni (host_init t)" "netif_info_recv_len (host_init t) = 0" "recv_skb (host_init t) = None"
    "length (dump_output (host_init t)) = 4096" "drop 15 (netif_info (host_init t)) = replicate 49 0" "tty (host_init t) = t"
    by (simp_all add: ni_waiting_def host_init_def collected_def)
  then obtain s' where s': "line_feed K fuel ns ni (host_init t) = Done ([], s')" "netif_info_vaild s'"
    "tty s' = tty_write K t ?bytes"
    using line_feed_session [OF assms(1,2) ni(1,2), of "[]" "[]" "host_init t" ni fuel ns] assms(7,8) ni(3)
    by (auto simp: configured_def)
  have "tty_sent K (tty s') = tty_sent K t @ ?bytes"
    using tty_write_fits(1) [OF assms(3), of ?bytes t] assms(4) ni(3) s'(3) by simp
  moreover have "\<exists>f'. start_hock ip netif_list f = Some (Returned, f') \<and> esp_inv f' \<and>
       wire (tx f') = wire (tx f) @ ni \<and> runFlag f' \<and> \<not> gpio5 f' \<and> stream (rx f') = replicate 49 0 @ r"
    if "stream (rx f) = ?bytes @ r" for r
    using start_hock_echo [OF assms(9,5,6,10), of "replicate 49 0 @ r"] that by auto
  ultimately show ?thesis
    using s' by blast
qed

definition lan :: lwip_netif where
  "lan = \<lparr>nif_ip = (192, 168, 1, 2), nif_netmask = (255, 255, 255, 0), nif_gw = (192, 168, 1, 1)\<rparr>"

definition lan_frame :: "byte list" where
  "lan_frame = netif_info_frame (nif_ip lan) (nif_netmask lan) (nif_gw lan)"

definition lan_boot :: "byte list \<Rightarrow> esp" where
  \<comment> \<open>a firmware that waits for the echo, and the bytes to come\<close>
  "lan_boot w = esp_init (map (\<lambda>b. [b]) w) [100, 120]"

lemma concat_singles: "concat (map (\<lambda>b. [b]) w) = w"
  by (induction w) simp_all

lemma lan_boot:
  "boot_ok (lan_boot w)" "15 \<le> room (txfifo_cnts (tx (lan_boot w)))" "stream (rx (lan_boot w)) = w"
  "netif_output (rx (lan_boot w)) = []" "find (\<lambda>n. nif_ip n = (192, 168, 1, 2)) [lan] = Some lan"
  by (simp_all add: lan_boot_def boot_ok_init fifo_ok_def cnt_ok_def room_def uart_tx_init_def UART_FIFO_LEN_def
      stream_def rx_init_simps concat_singles lan_def) (simp add: uart_rx_init_def)

theorem configuration_handshake_witness:
  "\<exists>s' bytes. line_feed plain_kernel 3100 (replicate 15 7) lan_frame (host_init (100, [])) = Done ([], s') \<and> netif_info_vaild s' \<and>
    tty_sent plain_kernel (tty s') = tty_sent plain_kernel (100, []) @ bytes \<and>
    (\<forall>r. stream (rx (lan_boot (lan_frame @ replicate 49 0))) = bytes @ r \<longrightarrow>
      (\<exists>f'. start_hock (192, 168, 1, 2) [lan] (lan_boot (lan_frame @ replicate 49 0)) = Some (Returned, f') \<and> esp_inv f' \<and>
       wire (tx f') = wire (tx (lan_boot (lan_frame @ replicate 49 0))) @ lan_frame \<and> runFlag f' \<and> \<not> gpio5 f' \<and>
       stream (rx f') = replicate 49 0 @ r))"
proof -
  have "allocs_succeed plain_kernel" "64 \<le> tty_write_room plain_kernel (100, [])"
    by (simp_all add: allocs_succeed_def plain_kernel_def)
  then show ?thesis
    by (intro configuration_handshake [where n = lan] lan_boot)
      (simp_all add: plain_kernel_ok session_chunks_replicate lan_frame_def)
qed

text \<open>C36: both ends set the serial line up alike. After every successful open of the device and every
  successful start of the firmware, the termios of the tty and the configuration of the firmware's UART
  describe the same line: the same speed in both directions, eight bits, no parity, one stop bit and
  hardware flow control, without which the FIFO samples would lose bytes.\<close>

theorem line_settings_agree:
  assumes "flags_ok (tflags a)" "encode_ok (tflags a) (encode_baud_rate a)"
    "uart_wifi_open a irq s = Some (0, s')"
    "init malloc sem_ok queue_sem_ok (esp_reset g fifo cnts) = Some (res, f)" "res \<noteq> Init_Failed"
  shows "\<exists>t c. tty_termios s' = Some t \<and> uart0_cfg f = Some c \<and> host_line (tflags a) t = esp_line c \<and>
    hw_flow (esp_line c) \<and> rx_baud (esp_line c) = 921600"
proof -
  have "tty_termios s' = Some (newtio (tflags a) (encode_baud_rate a))"
    using assms(3) by (auto simp: uart_wifi_open_def ttyio_init_def EINVAL_def Let_def split: bind_splits if_splits)
  moreover have "uart0_cfg f = Some uart0_config"
    using assms(4,5) by (auto simp: init_reset wifi_init_sta_def esp_init_def split: if_splits bind_splits)
  ultimately show ?thesis
    using newtio_line [OF assms(1,2)] by (simp add: esp_line_def uart0_config_def)
qed

theorem line_settings_agree_witness:
  "\<exists>s' f t c. uart_wifi_open plain_answers 0 provisioned = Some (0, s') \<and>
    init bump True True (esp_reset False [] []) = Some (Init_No_Credentials, f) \<and>
    tty_termios s' = Some t \<and> uart0_cfg f = Some c \<and> host_line linux_flags t = esp_line c \<and>
    hw_flow (esp_line c) \<and> rx_baud (esp_line c) = 921600"
proof -
  obtain s' where s': "uart_wifi_open plain_answers 0 provisioned = Some (0, s')"
    using uart_wifi_open_grants [OF provisioned_lengths _ _ plain_grants] by auto
  have "next_frame ssid_fmt Sync [] = More Sync []"
    by (simp add: next_frame_Sync full_at_def bad_at_def)
  then obtain r where "recv_ssid (replicate 32 0) (uart_rx_init []) = Some (Spinning, replicate 32 0, r)"
    using ssid.receives [OF rx_inv_init [of "[]"], of "replicate 32 0"] by (auto simp: rx_init_simps fifo_ok_def)
  then obtain f where f: "init bump True True (esp_reset False [] []) = Some (Init_No_Credentials, f)"
    by (auto simp: init_reset wifi_init_sta_def bump_def)
  have F: "tflags plain_answers = linux_flags" "encode_baud_rate plain_answers = store_speed"
    by (simp_all add: plain_answers_def)
  show ?thesis
    using line_settings_agree [OF _ _ s' f] linux_flags_ok s' f by (auto simp: F)
qed

text \<open>C25: the first packet after the handshake is lost. The zero bytes behind the echo make the firmware hunt
  for the next separator, which is the one that ends the first packet: when that packet has no byte 0x55
  of its own, it is skipped whole, and the firmware hands over exactly the packets behind it.\<close>

theorem first_packet_lost:
  assumes "boot_ok f" "find (\<lambda>n. nif_ip n = ip) netif_list = Some n" "15 \<le> room (txfifo_cnts (tx f))"
    "stream (rx f) = netif_info_frame (nif_ip n) (nif_netmask n) (nif_gw n) @ replicate 49 0 @
       concat (map (mk_frame SPLIT_DATA) (d # ds))"
    "SPLIT_DATA \<notin> set (store_u16 (int (length d)) @ d)" "\<And>p. p \<in> set ds \<Longrightarrow> ip_packet p"
  shows "\<exists>f' k r. start_hock ip netif_list f = Some (Returned, f') \<and> runFlag f' \<and>
    uart2wifi_calls (replicate k (True, 0)) (rx f') = Some r \<and>
    netif_output r = netif_output (rx f) @ map with_dest ds"
proof -
  let ?w = "replicate 49 0 @ concat (map (mk_frame SPLIT_DATA) (d # ds))"
  obtain f' where f': "start_hock ip netif_list f = Some (Returned, f')" "runFlag f'" "pk_inv (rx f')"
    "status (rx f') = STATUS_LEN" "stream (rx f') = ?w" "netif_output (rx f') = netif_output (rx f)"
    using start_hock_echo [OF assms(1,2) refl assms(3,4)] by auto
  have "todo (rx f') = ds"
    using f'(4,5) payloads_behind_zeros [OF assms(5), of ds] assms(6) by (simp add: todo_def)
  with uart2wifi_calls_drain [OF f'(3) order_refl] uart2wifi_calls_conserve [OF f'(3)] obtain r where
    "uart2wifi_calls (replicate (weight (rx f')) (True, 0)) (rx f') = Some r"
    "netif_output r = netif_output (rx f') @ map with_dest ds"
    by (metis append_Nil2 option.inject)
  with f' show ?thesis by auto
qed

theorem first_packet_lost_witness:
  "\<exists>f' k r. start_hock (192, 168, 1, 2) [lan]
      (lan_boot (lan_frame @ replicate 49 0 @ concat (map (mk_frame SPLIT_DATA) [replicate 20 1, replicate 30 2]))) =
      Some (Returned, f') \<and> runFlag f' \<and>
    uart2wifi_calls (replicate k (True, 0)) (rx f') = Some r \<and>
    netif_output r = netif_output (rx (lan_boot (lan_frame @ replicate 49 0 @
      concat (map (mk_frame SPLIT_DATA) [replicate 20 1, replicate 30 2])))) @ map with_dest [replicate 30 2]"
  by (rule first_packet_lost [OF lan_boot(1,5,2), where d = "replicate 20 1"])
    (simp_all add: lan_boot lan_frame_def store_u16_def ip_packet_def link_consts)

end
